(* ===== verification/Cvos_Prelude.thy ===== *)
theory Cvos_Prelude
  imports Main "HOL-Library.Word"
begin

unbundle bit_operations_syntax

text \<open>
  Shared vocabulary of the development: the machine integers of the C code, the faults that
  a C execution can run into (they are values of the model, so that undefined behaviour is
  a branch and never hidden), C strings as NUL-free byte lists with the few functions of
  \<^verbatim>\<open><string.h>\<close>, \<^verbatim>\<open><ctype.h>\<close> and \<^verbatim>\<open><stdlib.h>\<close> the sources call, and the generic list and
  word lemmas the components share.
\<close>

section \<open>Machine integers\<close>

type_synonym u8 = "8 word"
type_synonym u16 = "16 word"
type_synonym u32 = "32 word"
type_synonym u64 = "64 word"

section \<open>Faults of a C execution\<close>

text \<open>
  A faulting access is a value: \<open>Inl\<close> of the fault. \<open>Diverges\<close> is a loop of the source that
  is shown never to end.
\<close>

datatype c_fault = Null_Deref | Out_Of_Bounds | Use_After_Free | Diverges

type_synonym 'a cres = "c_fault + 'a"

fun cbind :: "'a cres \<Rightarrow> ('a \<Rightarrow> 'b cres) \<Rightarrow> 'b cres" where
  "cbind (Inl e) f = Inl e"
| "cbind (Inr x) f = f x"

fun is_ok :: "'a cres \<Rightarrow> bool" where
  "is_ok (Inl e) = False"
| "is_ok (Inr x) = True"

lemma cbind_Inr_iff: "cbind m f = Inr y \<longleftrightarrow> (\<exists>x. m = Inr x \<and> f x = Inr y)"
  by (cases m) auto

lemma is_ok_iff: "is_ok m \<longleftrightarrow> (\<exists>x. m = Inr x)"
  by (cases m) auto

section \<open>Collections of facts\<close>

named_theorems word_sums \<open>unfoldings of word operations used by the checksum proofs\<close>
named_theorems c_string \<open>facts on C strings\<close>

section \<open>Memory regions\<close>

text \<open>
  A buffer is the list of its bytes. A read or a write that leaves it is \<open>Out_Of_Bounds\<close>.
\<close>

definition buf_read :: "'a list \<Rightarrow> nat \<Rightarrow> 'a cres" where
  "buf_read buf i = (if i < length buf then Inr (buf ! i) else Inl Out_Of_Bounds)"

definition buf_slice :: "'a list \<Rightarrow> nat \<Rightarrow> nat \<Rightarrow> 'a list cres" where
  "buf_slice buf off n =
     (if off + n \<le> length buf then Inr (take n (drop off buf)) else Inl Out_Of_Bounds)"

definition buf_write :: "'a list \<Rightarrow> nat \<Rightarrow> 'a list \<Rightarrow> 'a list cres" where
  "buf_write buf off bs =
     (if off + length bs \<le> length buf
      then Inr (take off buf @ bs @ drop (off + length bs) buf) else Inl Out_Of_Bounds)"

text \<open>\<^verbatim>\<open>strlen\<close> on a buffer: reading on when there is no terminator is a fault.\<close>

definition buf_strlen :: "u8 list \<Rightarrow> nat cres" where
  "buf_strlen buf =
     (if 0 \<in> set buf then Inr (length (takeWhile (\<lambda>b. b \<noteq> 0) buf)) else Inl Out_Of_Bounds)"

text \<open>
  \<^verbatim>\<open>strncpy (dst, src, n)\<close>: at most \<open>n\<close> bytes of the source string, padded with zeros to \<open>n\<close>.
  The source is read up to its terminator or up to \<open>n\<close> bytes.
\<close>

definition buf_strncpy :: "u8 list \<Rightarrow> u8 list \<Rightarrow> nat \<Rightarrow> u8 list cres" where
  "buf_strncpy dst src n =
     (if length dst < n \<or> (length src < n \<and> 0 \<notin> set src) then Inl Out_Of_Bounds
      else let s = takeWhile (\<lambda>b. b \<noteq> 0) (take n src)
           in Inr (s @ replicate (n - length s) 0 @ drop n dst))"

lemma buf_write_Inr:
  "buf_write buf off bs = Inr buf' \<longleftrightarrow>
     off + length bs \<le> length buf \<and> buf' = take off buf @ bs @ drop (off + length bs) buf"
  by (auto simp: buf_write_def)

lemma buf_write_prefix:
  "length bs \<le> length buf \<Longrightarrow> buf_write buf 0 bs = Inr (bs @ drop (length bs) buf)"
  by (simp add: buf_write_def)

lemma takeWhile_nonzero_append:
  "0 \<notin> set (xs :: u8 list) \<Longrightarrow> takeWhile (\<lambda>b. b \<noteq> 0) (xs @ ys) = xs @ takeWhile (\<lambda>b. b \<noteq> 0) ys"
  by (induction xs) auto

lemma buf_strlen_append:
  assumes "0 \<notin> set xs"
  shows "buf_strlen (xs @ 0 # ys) = Inr (length xs)"
  using assms by (simp add: buf_strlen_def takeWhile_nonzero_append)

section \<open>Arithmetic\<close>

lemma mod_add_inj:
  fixes p a b m :: nat
  assumes "(p + a) mod m = (p + b) mod m" "a < m" "b < m"
  shows "a = b"
proof -
  have "int m dvd (int p + int a) - (int p + int b)"
    using assms(1) by (metis mod_eq_dvd_iff of_nat_add zmod_int)
  then have "int m dvd int a - int b" by simp
  then show ?thesis using assms(2,3)
    by (metis mod_eq_dvd_iff mod_less of_nat_eq_iff zmod_int)
qed

end
