(* ===== verification/Fifo_Spec.thy ===== *)
theory Fifo_Spec
  imports Cvos_Prelude "HOL-Library.Sublist"
begin

text \<open>
  The contract of a bounded queue that drops its oldest entry on overflow, with the return
  codes of the C interface (\<open>0\<close>, \<open>-1\<close> for overflow and underflow). The locale is the
  interface a client relies on; its lemmas lift one call to whole runs of calls.
\<close>

datatype 'd fifo_op = Enq 'd | Deq

datatype 'd fifo_ret = Enq_Ret int | Deq_Ret int "'d option"

fun fifo_spec_step :: "nat \<Rightarrow> 'd list \<Rightarrow> 'd fifo_op \<Rightarrow> 'd fifo_ret \<times> 'd list" where
  "fifo_spec_step c q (Enq x) =
     (if length q < c then (Enq_Ret 0, q @ [x]) else (Enq_Ret (-1), tl q @ [x]))"
| "fifo_spec_step c [] Deq = (Deq_Ret (-1) None, [])"
| "fifo_spec_step c (y # q) Deq = (Deq_Ret 0 (Some y), q)"

fun fifo_spec_run :: "nat \<Rightarrow> 'd list \<Rightarrow> 'd fifo_op list \<Rightarrow> 'd fifo_ret list \<times> 'd list" where
  "fifo_spec_run c q [] = ([], q)"
| "fifo_spec_run c q (a # as) =
     (let (e, q') = fifo_spec_step c q a; (es, q'') = fifo_spec_run c q' as in (e # es, q''))"

fun fifo_step ::
  "('s \<Rightarrow> 'd \<Rightarrow> int \<times> 's) \<Rightarrow> ('s \<Rightarrow> int \<times> 'd option \<times> 's) \<Rightarrow> 's \<Rightarrow> 'd fifo_op \<Rightarrow> 'd fifo_ret \<times> 's"
where
  "fifo_step enq deq s (Enq x) = (let (rc, s') = enq s x in (Enq_Ret rc, s'))"
| "fifo_step enq deq s Deq = (let (rc, out, s') = deq s in (Deq_Ret rc out, s'))"

fun fifo_run ::
  "('s \<Rightarrow> 'd \<Rightarrow> int \<times> 's) \<Rightarrow> ('s \<Rightarrow> int \<times> 'd option \<times> 's) \<Rightarrow> 's \<Rightarrow> 'd fifo_op list
    \<Rightarrow> 'd fifo_ret list \<times> 's"
where
  "fifo_run enq deq s [] = ([], s)"
| "fifo_run enq deq s (a # as) =
     (let (e, s') = fifo_step enq deq s a; (es, s'') = fifo_run enq deq s' as in (e # es, s''))"

fun enqueued :: "'d fifo_op list \<Rightarrow> 'd list" where
  "enqueued [] = []"
| "enqueued (Enq x # as) = x # enqueued as"
| "enqueued (Deq # as) = enqueued as"

text \<open>Whatever is dropped or delivered, what remains is the most recent part of the input.\<close>

lemma spec_step_suffix:
  "suffix (snd (fifo_spec_step c q a)) (q @ enqueued [a])"
proof (cases "(c, q, a)" rule: fifo_spec_step.cases)
  case (1 c q x)
  have "suffix (tl q @ [x]) (q @ [x])" by (cases q) (auto simp: suffix_def)
  then show ?thesis using 1 by auto
qed (auto simp: suffix_def)

lemma spec_run_suffix: "suffix (snd (fifo_spec_run c q as)) (q @ enqueued as)"
proof (induction as arbitrary: q)
  case (Cons a as)
  let ?q = "snd (fifo_spec_step c q a)"
  obtain us where us: "q @ enqueued [a] = us @ ?q"
    using spec_step_suffix [of c q a] by (auto simp: suffix_def)
  obtain vs where vs: "?q @ enqueued as = vs @ snd (fifo_spec_run c ?q as)"
    using Cons.IH [of ?q] by (auto simp: suffix_def)
  have "q @ enqueued (a # as) = (q @ enqueued [a]) @ enqueued as" by (cases a) auto
  also have "\<dots> = (us @ vs) @ snd (fifo_spec_run c ?q as)" by (simp add: us vs)
  finally show ?case by (simp add: Let_def case_prod_beta suffix_def)
qed simp

lemma spec_step_bound:
  "0 < c \<Longrightarrow> length q \<le> c \<Longrightarrow> length (snd (fifo_spec_step c q a)) \<le> c"
  by (cases "(c, q, a)" rule: fifo_spec_step.cases) auto

lemma spec_run_bound:
  "0 < c \<Longrightarrow> length q \<le> c \<Longrightarrow> length (snd (fifo_spec_run c q as)) \<le> c"
  by (induction as arbitrary: q) (auto simp: Let_def case_prod_beta spec_step_bound)

locale drop_oldest_fifo =
  fixes enq :: "'s \<Rightarrow> 'd \<Rightarrow> int \<times> 's"
    and deq :: "'s \<Rightarrow> int \<times> 'd option \<times> 's"
    and queue :: "'s \<Rightarrow> 'd list"
    and inv :: "'s \<Rightarrow> bool"
    and cap :: "'s \<Rightarrow> nat"
  assumes cap_pos: "inv s \<Longrightarrow> 0 < cap s"
    and queue_bound: "inv s \<Longrightarrow> length (queue s) \<le> cap s"
    and enq_room: "inv s \<Longrightarrow> length (queue s) < cap s \<Longrightarrow> enq s x = (rc, s') \<Longrightarrow>
      rc = 0 \<and> queue s' = queue s @ [x] \<and> inv s' \<and> cap s' = cap s"
    and enq_full: "inv s \<Longrightarrow> length (queue s) = cap s \<Longrightarrow> enq s x = (rc, s') \<Longrightarrow>
      rc = -1 \<and> queue s' = tl (queue s) @ [x] \<and> inv s' \<and> cap s' = cap s"
    and deq_empty: "inv s \<Longrightarrow> queue s = [] \<Longrightarrow> deq s = (-1, None, s)"
    and deq_front: "inv s \<Longrightarrow> queue s = y # q \<Longrightarrow> deq s = (rc, out, s') \<Longrightarrow>
      rc = 0 \<and> out = Some y \<and> queue s' = q \<and> inv s' \<and> cap s' = cap s"
begin

lemma step_refines:
  assumes "inv s" "fifo_step enq deq s a = (e, s')"
  shows "fifo_spec_step (cap s) (queue s) a = (e, queue s') \<and> inv s' \<and> cap s' = cap s"
proof (cases a)
  case (Enq x)
  obtain rc where rc: "enq s x = (rc, s')" "e = Enq_Ret rc"
    using assms(2) Enq by (auto split: prod.splits)
  show ?thesis
    using Enq enq_room [OF assms(1) _ rc(1)] enq_full [OF assms(1) _ rc(1)]
      queue_bound [OF assms(1)] rc(2)
    by (cases "length (queue s) < cap s") auto
next
  case Deq
  show ?thesis
  proof (cases "queue s")
    case Nil
    then show ?thesis using Deq assms deq_empty [OF assms(1) Nil] by auto
  next
    case (Cons y q)
    obtain rc out where rc: "deq s = (rc, out, s')" "e = Deq_Ret rc out"
      using assms(2) Deq by (auto split: prod.splits)
    show ?thesis using Deq Cons deq_front [OF assms(1) Cons rc(1)] rc(2) by auto
  qed
qed

lemma run_refines:
  "inv s \<Longrightarrow> fifo_run enq deq s as = (es, s') \<Longrightarrow>
     fifo_spec_run (cap s) (queue s) as = (es, queue s') \<and> inv s' \<and> cap s' = cap s"
proof (induction as arbitrary: s es)
  case (Cons a as)
  obtain e s1 where 1: "fifo_step enq deq s a = (e, s1)" by (cases "fifo_step enq deq s a")
  obtain es1 where 2: "fifo_run enq deq s1 as = (es1, s')" "es = e # es1"
    using Cons.prems(2) 1 by (auto split: prod.splits)
  note st = step_refines [OF Cons.prems(1) 1]
  show ?case using Cons.IH [of s1 es1] st 2 by simp
qed simp

lemma run_recent:
  assumes "inv s" "fifo_run enq deq s as = (es, s')"
  shows "suffix (queue s') (queue s @ enqueued as)" and "length (queue s') \<le> cap s"
  using run_refines [OF assms] spec_run_suffix [of "cap s" "queue s" as] queue_bound [of s']
  by auto

end

end
