(* ===== verification/Ringbuf.thy ===== *)
theory Ringbuf
  imports Fifo_Spec
begin

text \<open>
  \<^verbatim>\<open>ringbuf.c\<close> and \<^verbatim>\<open>ringbuf.h\<close>: the circular buffer that overwrites its oldest entry when it
  is full. A \<^verbatim>\<open>datum *\<close> into \<open>arr\<close> is its index, \<^verbatim>\<open>NULL\<close> is \<open>None\<close>. The return codes of the
  pthread calls are the fields of \<open>rb_os\<close>, so that every early return of the code is a branch.
\<close>

section \<open>State\<close>

record 'd ringbuf =
  writepos :: nat
  rb_size :: nat
  num :: u64
  readpos :: "nat option"
  arr :: "'d list"

text \<open>
  \<^verbatim>\<open>struct onebuf\<close> is a union of 256 raw bytes and a \<^verbatim>\<open>struct msg\<close>, one length byte followed by
  255 data bytes; the buffer copies it as a whole.
\<close>

type_synonym datum = "u8 list"

definition mbuf_len :: "datum \<Rightarrow> u8" where
  "mbuf_len d = d ! 0"

definition mbuf_data :: "datum \<Rightarrow> u8 list" where
  "mbuf_data d = drop 1 d"

record rb_os =
  lock_rc :: int
  bcast_rc :: int
  unlock_rc :: int

section \<open>Operations\<close>

definition ringbuf_init :: "nat \<Rightarrow> 'd list \<Rightarrow> 'd ringbuf" where
  "ringbuf_init sz a =
     \<lparr>writepos = 0, rb_size = sz, num = 0, readpos = None, arr = a\<rparr>"

definition wrap_ptr :: "'d ringbuf \<Rightarrow> nat \<Rightarrow> nat" where
  "wrap_ptr r d = (if d \<ge> rb_size r then d - rb_size r else d)"

text \<open>The test both enqueue functions start with.\<close>

definition rb_full :: "'d ringbuf \<Rightarrow> bool" where
  "rb_full r \<longleftrightarrow> readpos r \<noteq> None \<and> readpos r = Some (wrap_ptr r (writepos r + 1))"

text \<open>The store of the datum and the move of the write position, common to both enqueues.\<close>

definition rb_store :: "'d ringbuf \<Rightarrow> 'd \<Rightarrow> 'd ringbuf" where
  "rb_store r d =
     (let r1 = r\<lparr>arr := (arr r)[writepos r := d]\<rparr>;
          r2 = (if readpos r1 = None then r1\<lparr>readpos := Some (writepos r1)\<rparr> else r1)
      in r2\<lparr>writepos := wrap_ptr r2 (writepos r2 + 1)\<rparr>)"

definition ringbuf_enqueue :: "rb_os \<Rightarrow> 'd ringbuf \<Rightarrow> 'd \<Rightarrow> int \<times> 'd ringbuf" where
  "ringbuf_enqueue os r d =
     (if lock_rc os \<noteq> 0 then (-2, r)
      else
        let (overflow, r1) =
              (if rb_full r
               then (-1, r\<lparr>readpos := map_option (\<lambda>p. wrap_ptr r (p + 1)) (readpos r)\<rparr>)
               else (0, r\<lparr>num := num r + 1\<rparr>));
            r2 = rb_store r1 d
        in if unlock_rc os < 0 then (-2, r2) else (overflow, r2))"

text \<open>The copy out and the move of the read position, common to both dequeues.\<close>

definition rb_take :: "'d ringbuf \<Rightarrow> nat \<Rightarrow> 'd \<times> 'd ringbuf" where
  "rb_take r p =
     (let new_readpos = wrap_ptr r (p + 1)
      in (arr r ! p,
          r\<lparr>readpos := (if new_readpos = writepos r then None else Some new_readpos)\<rparr>))"

definition ringbuf_dequeue :: "rb_os \<Rightarrow> 'd ringbuf \<Rightarrow> int \<times> 'd option \<times> 'd ringbuf" where
  "ringbuf_dequeue os r =
     (if lock_rc os < 0 then (-2, None, r)
      else
        let (underflow, out, r1) =
              (case readpos r of
                 None \<Rightarrow> (-1, None, r)
               | Some p \<Rightarrow>
                   let (x, r') = rb_take (r\<lparr>num := num r - 1\<rparr>) p in (0, Some x, r'))
        in if unlock_rc os < 0 then (-2, out, r1) else (underflow, out, r1))"


section \<open>Invariant and abstraction\<close>

text \<open>The \<open>n\<close> cells of a circular array that start at \<open>p\<close>.\<close>

definition slice :: "'d list \<Rightarrow> nat \<Rightarrow> nat \<Rightarrow> 'd list" where
  "slice a p n = map (\<lambda>k. a ! ((p + k) mod length a)) [0..<n]"

lemma length_slice [simp]: "length (slice a p n) = n"
  by (simp add: slice_def)

lemma slice_0 [simp]: "slice a p 0 = []"
  by (simp add: slice_def)

lemma slice_Suc: "slice a p (Suc n) = slice a p n @ [a ! ((p + n) mod length a)]"
  by (simp add: slice_def)

lemma slice_Cons: "slice a p (Suc n) = (a ! (p mod length a)) # slice a (Suc p) n"
  by (simp add: slice_def upt_conv_Cons map_Suc_upt [symmetric] del: upt_Suc)

lemma slice_mod: "slice a (p mod length a) n = slice a p n"
  by (simp add: slice_def mod_add_left_eq)

lemma slice_update:
  assumes "\<And>k. k < n \<Longrightarrow> (p + k) mod length a \<noteq> w"
  shows "slice (a[w := x]) p n = slice a p n"
proof -
  have "a[w := x] ! ((p + k) mod length a) = a ! ((p + k) mod length a)" if "k < n" for k
    using assms [OF that] by (intro nth_list_update_neq) simp
  then show ?thesis by (simp add: slice_def)
qed

definition rb_count :: "'d ringbuf \<Rightarrow> nat" where
  "rb_count r =
     (case readpos r of None \<Rightarrow> 0
      | Some p \<Rightarrow> if p < writepos r then writepos r - p else rb_size r - p + writepos r)"

definition contents :: "'d ringbuf \<Rightarrow> 'd list" where
  "contents r =
     (case readpos r of None \<Rightarrow> [] | Some p \<Rightarrow> slice (arr r) p (rb_count r))"

text \<open>
  One cell stays free (the code tells full from empty by comparing positions), except in a
  buffer of one cell, which the code can fill.
\<close>

definition rb_cap :: "'d ringbuf \<Rightarrow> nat" where
  "rb_cap r = max 1 (rb_size r - 1)"

text \<open>The positions are in range; a read position meets the write position only in a
  one-cell buffer.\<close>

definition rb_shape :: "'d ringbuf \<Rightarrow> bool" where
  "rb_shape r \<longleftrightarrow>
     0 < rb_size r \<and> length (arr r) = rb_size r \<and> writepos r < rb_size r \<and>
     (case readpos r of None \<Rightarrow> True
      | Some p \<Rightarrow> p < rb_size r \<and> (p = writepos r \<longrightarrow> rb_size r = 1))"

definition rb_inv :: "'d ringbuf \<Rightarrow> bool" where
  "rb_inv r \<longleftrightarrow> rb_shape r \<and> num r = of_nat (length (contents r))"

lemma rb_shapeD:
  assumes "rb_shape r"
  shows "0 < rb_size r" "length (arr r) = rb_size r" "writepos r < rb_size r"
    and "readpos r = Some p \<Longrightarrow> p < rb_size r"
    and "readpos r = Some p \<Longrightarrow> p = writepos r \<Longrightarrow> rb_size r = 1"
  using assms by (auto simp: rb_shape_def)

lemma wrap_ptr_mod: "d < 2 * rb_size r \<Longrightarrow> wrap_ptr r d = d mod rb_size r"
  by (simp add: wrap_ptr_def mod_if)

lemma wrap_ptr_Suc:
  "p < rb_size r \<Longrightarrow> wrap_ptr r (Suc p) = Suc p mod rb_size r"
  by (rule wrap_ptr_mod) auto

lemma wrap_ptr_update [simp]:
  "wrap_ptr (r\<lparr>arr := a\<rparr>) d = wrap_ptr r d"
  "wrap_ptr (r\<lparr>num := n\<rparr>) d = wrap_ptr r d"
  "wrap_ptr (r\<lparr>readpos := q\<rparr>) d = wrap_ptr r d"
  "wrap_ptr (r\<lparr>writepos := w\<rparr>) d = wrap_ptr r d"
  by (simp_all add: wrap_ptr_def)

lemma rb_count_Some:
  assumes "rb_shape r" "readpos r = Some p"
  shows "0 < rb_count r" "rb_count r \<le> rb_cap r"
    and "(p + rb_count r) mod rb_size r = writepos r"
proof -
  note s = rb_shapeD [OF assms(1)]
  have p: "p < rb_size r" "p = writepos r \<Longrightarrow> rb_size r = 1" using s assms(2) by auto
  show "0 < rb_count r" using p s(1,3) assms(2) by (auto simp: rb_count_def)
  show "rb_count r \<le> rb_cap r"
    using p s(1,3) assms(2) by (cases "p = writepos r") (auto simp: rb_count_def rb_cap_def)
  show "(p + rb_count r) mod rb_size r = writepos r"
    using p s(1,3) assms(2) by (auto simp: rb_count_def)
qed

lemma length_contents: "length (contents r) = rb_count r"
  by (simp add: contents_def rb_count_def split: option.split)

lemma contents_None_iff: "rb_shape r \<Longrightarrow> contents r = [] \<longleftrightarrow> readpos r = None"
  by (metis contents_def length_0_conv length_contents less_numeral_extra(3) not_None_eq
      option.simps(4) rb_count_Some(1))


text \<open>The count is the only length between 1 and the capacity that leads to the write position.\<close>

lemma rb_count_unique:
  assumes "rb_shape r" "readpos r = Some p" "0 < n" "n \<le> rb_cap r"
    and "(p + n) mod rb_size r = writepos r"
  shows "rb_count r = n"
proof -
  note s = rb_shapeD [OF assms(1)]
  have p: "p < rb_size r" using s assms(2) by auto
  show ?thesis
  proof (cases "rb_size r = 1")
    case True
    then show ?thesis using assms p by (auto simp: rb_count_def rb_cap_def)
  next
    case False
    then have "n < rb_size r" using assms(4) s(1) by (auto simp: rb_cap_def)
    then show ?thesis
      using assms p s by (auto simp: rb_count_def mod_if split: if_splits)
  qed
qed

lemma contentsI:
  assumes "rb_shape r" "readpos r = Some p" "0 < n" "n \<le> rb_cap r"
    and "(p + n) mod rb_size r = writepos r"
  shows "contents r = slice (arr r) p n"
  using rb_count_unique [OF assms] assms(2) by (simp add: contents_def)

lemma contents_Some:
  "readpos r = Some p \<Longrightarrow> contents r = slice (arr r) p (rb_count r)"
  by (simp add: contents_def)

lemma rb_full_iff:
  assumes "rb_shape r"
  shows "rb_full r \<longleftrightarrow> length (contents r) = rb_cap r"
proof (cases "readpos r")
  case None
  then show ?thesis by (simp add: rb_full_def contents_def rb_cap_def)
next
  case (Some p)
  note s = rb_shapeD [OF assms]
  have p: "p < rb_size r" and w: "p = writepos r \<Longrightarrow> rb_size r = 1" using s Some by auto
  have full: "rb_full r \<longleftrightarrow> p = Suc (writepos r) mod rb_size r"
    using Some wrap_ptr_Suc [OF s(3)] by (simp add: rb_full_def)
  have wrap: "Suc (writepos r) mod rb_size r
      = (if Suc (writepos r) = rb_size r then 0 else Suc (writepos r))"
    using s(3) by simp
  consider "p = writepos r" | "p < writepos r" | "writepos r < p" by linarith
  then show ?thesis
    by cases (use p s(3) w Some in \<open>simp_all add: full wrap length_contents rb_count_def rb_cap_def, linarith+\<close>)
qed

lemma rb_store_fields [simp]:
  "rb_size (rb_store r d) = rb_size r"
  "num (rb_store r d) = num r"
  "arr (rb_store r d) = (arr r)[writepos r := d]"
  "writepos (rb_store r d) = wrap_ptr r (Suc (writepos r))"
  "readpos (rb_store r d) = (case readpos r of None \<Rightarrow> Some (writepos r) | Some p \<Rightarrow> Some p)"
  by (simp_all add: rb_store_def Let_def split: option.split)

lemma rb_cap_pos [simp]: "0 < rb_cap r"
  by (simp add: rb_cap_def)

lemma rb_cap_neq_0 [simp]: "rb_cap r \<noteq> 0"
  by (simp add: rb_cap_def)

lemma rb_cap_cong: "rb_size r = rb_size s \<Longrightarrow> rb_cap r = rb_cap s"
  by (simp add: rb_cap_def)

text \<open>
  What the store does to the contents, for any read position from which \<open>n\<close> cells lead to the
  write position; \<open>n = 0\<close> is the empty buffer and the one-cell buffer that was just emptied.
\<close>

lemma store_contents:
  assumes "length (arr r) = rb_size r" "writepos r < rb_size r"
    and q: "readpos r = Some q" "q < rb_size r"
    and n: "(q + n) mod rb_size r = writepos r" "Suc n \<le> rb_cap r"
  shows "rb_shape (rb_store r d)" and "contents (rb_store r d) = slice (arr r) q n @ [d]"
proof -
  let ?m = "rb_size r" and ?r = "rb_store r d"
  have m: "0 < ?m" using q by auto
  have wrap: "wrap_ptr r (Suc (writepos r)) = Suc (writepos r) mod ?m"
    by (rule wrap_ptr_Suc) fact
  have w: "(q + Suc n) mod ?m = Suc (writepos r) mod ?m"
    by (metis add_Suc_right mod_Suc_eq n(1))
  have nm: "Suc n < ?m \<or> ?m = 1 \<and> n = 0" using n(2) m by (auto simp: rb_cap_def split: if_splits)
  have "?m = 1" if "q = Suc (writepos r) mod ?m"
  proof (rule ccontr)
    assume "?m \<noteq> 1"
    with nm have "Suc n < ?m" by simp
    moreover have "(q + Suc n) mod ?m = (q + 0) mod ?m" using that w q(2) by simp
    ultimately show False using mod_add_inj [of q "Suc n" ?m 0] m by auto
  qed
  then show shape: "rb_shape ?r"
    using assms m wrap by (auto simp: rb_shape_def)
  have "contents ?r = slice (arr ?r) q (Suc n)"
    by (rule contentsI [OF shape]) (use q n w wrap in \<open>auto simp: rb_cap_def\<close>)
  also have "\<dots> = slice (arr ?r) q n @ [arr ?r ! writepos r]"
    using n(1) assms(1) by (simp add: slice_Suc)
  also have "slice (arr ?r) q n = slice (arr r) q n"
  proof -
    have "(q + k) mod length (arr r) \<noteq> writepos r" if "k < n" for k
      using mod_add_inj [of q k ?m n] that nm n(1) assms(1) by auto
    then show ?thesis by (simp add: slice_update)
  qed
  finally show "contents ?r = slice (arr r) q n @ [d]" using assms(1,2) by simp
qed

lemma store_None:
  assumes "rb_shape r" "readpos r = None"
  shows "rb_shape (rb_store r d)" "contents (rb_store r d) = [d]"
proof -
  let ?r = "r\<lparr>readpos := Some (writepos r)\<rparr>"
  have "rb_store r d = rb_store ?r d" using assms(2) by (simp add: rb_store_def Let_def)
  then show "rb_shape (rb_store r d)" "contents (rb_store r d) = [d]"
    using store_contents [of ?r "writepos r" 0 d] rb_shapeD(1-3) [OF assms(1)]
    by (auto simp: rb_cap_def)
qed

lemma store_not_full:
  assumes "rb_shape r" "\<not> rb_full r"
  shows "rb_shape (rb_store r d)" "contents (rb_store r d) = contents r @ [d]"
proof -
  have "rb_shape (rb_store r d) \<and> contents (rb_store r d) = contents r @ [d]"
  proof (cases "readpos r")
    case None
    then show ?thesis using store_None [OF assms(1) None] by (simp add: contents_def)
  next
    case (Some p)
    note c = rb_count_Some [OF assms(1) Some]
    have "rb_count r \<noteq> rb_cap r"
      using assms rb_full_iff [OF assms(1)] by (simp add: length_contents)
    then show ?thesis
      using store_contents [of r p "rb_count r" d] rb_shapeD [OF assms(1)] Some c
      by (simp add: contents_Some)
  qed
  then show "rb_shape (rb_store r d)" "contents (rb_store r d) = contents r @ [d]" by auto
qed

text \<open>The overwriting enqueue: the read position first steps over the oldest entry.\<close>

lemma store_full:
  assumes "rb_shape r" "rb_full r" "readpos r = Some p"
  defines "r1 \<equiv> r\<lparr>readpos := Some (wrap_ptr r (Suc p))\<rparr>"
  shows "rb_shape (rb_store r1 d)" "contents (rb_store r1 d) = tl (contents r) @ [d]"
proof -
  note s = rb_shapeD [OF assms(1)] and c = rb_count_Some [OF assms(1,3)]
  let ?m = "rb_size r" and ?q = "Suc p mod rb_size r"
  have p: "p < ?m" using s assms(3) by auto
  have q: "readpos r1 = Some ?q" using p by (simp add: r1_def wrap_ptr_Suc)
  have cap: "rb_count r = rb_cap r"
    using assms(2) rb_full_iff [OF assms(1)] by (simp add: length_contents)
  have "(?q + (rb_cap r - 1)) mod ?m = (Suc p + (rb_cap r - 1)) mod ?m"
    by (simp add: mod_add_left_eq)
  also have "Suc p + (rb_cap r - 1) = p + rb_count r" using cap rb_cap_pos [of r] by simp
  finally have w: "(?q + (rb_cap r1 - 1)) mod rb_size r1 = writepos r1"
    using c(3) by (simp add: r1_def rb_cap_def)
  have pre: "length (arr r1) = rb_size r1" "writepos r1 < rb_size r1" "?q < rb_size r1"
    "Suc (rb_cap r1 - 1) \<le> rb_cap r1"
    using s rb_cap_pos [of r1] by (auto simp: r1_def)
  note st = store_contents [OF pre(1,2) q pre(3) w pre(4)]
  show "rb_shape (rb_store r1 d)" by (rule st)
  have "slice (arr r1) ?q (rb_cap r1 - 1) = slice (arr r) (Suc p) (rb_cap r - 1)"
    using s(2) slice_mod [of "arr r" "Suc p"] by (simp add: r1_def rb_cap_def)
  also have "\<dots> = tl (contents r)"
    using rb_cap_pos [of r] slice_Cons [of "arr r" p "rb_cap r - 1"] assms(3) cap
    by (simp add: contents_Some)
  finally show "contents (rb_store r1 d) = tl (contents r) @ [d]" using st by simp
qed

lemma take_contents:
  assumes "rb_shape r" "readpos r = Some p" "rb_take r p = (x, r')"
  shows "rb_shape r'" "contents r = x # contents r'" "num r' = num r" "rb_size r' = rb_size r"
proof -
  note s = rb_shapeD [OF assms(1)] and c = rb_count_Some [OF assms(1,2)]
  let ?m = "rb_size r" and ?q = "Suc p mod rb_size r"
  have p: "p < ?m" using s assms(2) by auto
  have r': "x = arr r ! p"
    "r' = r\<lparr>readpos := (if ?q = writepos r then None else Some ?q)\<rparr>"
    using assms(3) p by (auto simp: rb_take_def Let_def wrap_ptr_Suc)
  show shape: "rb_shape r'" using s p by (auto simp: r' rb_shape_def)
  show "num r' = num r" "rb_size r' = rb_size r" by (simp_all add: r')
  obtain n where n: "rb_count r = Suc n" using c(1) by (cases "rb_count r") auto
  have old: "contents r = x # slice (arr r) (Suc p) n"
    using assms(2) p s(2) by (simp add: contents_Some n slice_Cons r')
  have qn: "(?q + n) mod ?m = writepos r" using c(3) n by (simp add: mod_add_left_eq)
  have "contents r' = slice (arr r) (Suc p) n"
  proof (cases "?q = writepos r")
    case True
    have "n = 0"
    proof (rule ccontr)
      assume "n \<noteq> 0"
      then have "n < ?m" using c(2) n by (auto simp: rb_cap_def split: if_splits)
      moreover have "(?q + n) mod ?m = (?q + 0) mod ?m" using trans [OF qn True [symmetric]] by simp
      ultimately show False using mod_add_inj [of ?q n ?m 0] \<open>n \<noteq> 0\<close> by auto
    qed
    then show ?thesis using True by (simp add: r' contents_def)
  next
    case False
    then have "n \<noteq> 0" using qn by (cases n) auto
    then have "contents r' = slice (arr r') ?q n"
      using c(2) n qn False by (intro contentsI [OF shape]) (auto simp: r' rb_cap_def)
    then show ?thesis using slice_mod [of "arr r" "Suc p" n] s(2) by (simp add: r')
  qed
  then show "contents r = x # contents r'" using old by simp
qed

section \<open>The drop-oldest contract\<close>

text \<open>All pthread calls succeed; the result of the broadcast is never looked at.\<close>

definition rb_os_ok :: "int \<Rightarrow> rb_os" where
  "rb_os_ok b = \<lparr>lock_rc = 0, bcast_rc = b, unlock_rc = 0\<rparr>"

lemma rb_os_ok_simps [simp]: "lock_rc (rb_os_ok b) = 0" "unlock_rc (rb_os_ok b) = 0"
  by (simp_all add: rb_os_ok_def)

lemma contents_num [simp]: "contents (r\<lparr>num := n\<rparr>) = contents r"
  by (simp add: contents_def rb_count_def split: option.split)

lemma rb_shape_num [simp]: "rb_shape (r\<lparr>num := n\<rparr>) = rb_shape r"
  by (simp add: rb_shape_def split: option.split)

lemma rb_full_num [simp]: "rb_full (r\<lparr>num := n\<rparr>) = rb_full r"
  by (simp add: rb_full_def)

lemma rb_bound: "rb_shape r \<Longrightarrow> length (contents r) \<le> rb_cap r"
  by (cases "readpos r") (auto simp: length_contents rb_count_Some(2), simp add: rb_count_def)

lemma enqueue_room:
  assumes "rb_inv r" "length (contents r) < rb_cap r"
    and "ringbuf_enqueue (rb_os_ok b) r d = (rc, r')"
  shows "rc = 0 \<and> contents r' = contents r @ [d] \<and> rb_inv r' \<and> rb_cap r' = rb_cap r"
proof -
  have shape: "rb_shape (r\<lparr>num := num r + 1\<rparr>)" using assms(1) by (simp add: rb_inv_def)
  have nf: "\<not> rb_full r" using assms by (auto simp: rb_inv_def rb_full_iff)
  then have r': "rc = 0" "r' = rb_store (r\<lparr>num := num r + 1\<rparr>) d"
    using assms(3) by (auto simp: ringbuf_enqueue_def Let_def)
  show ?thesis
    using store_not_full [OF shape, of d] nf assms(1) r' by (simp add: rb_inv_def rb_cap_def)
qed

lemma enqueue_full:
  assumes "rb_inv r" "length (contents r) = rb_cap r"
    and "ringbuf_enqueue (rb_os_ok b) r d = (rc, r')"
  shows "rc = -1 \<and> contents r' = tl (contents r) @ [d] \<and> rb_inv r' \<and> rb_cap r' = rb_cap r"
proof -
  have shape: "rb_shape r" using assms(1) by (simp add: rb_inv_def)
  have full: "rb_full r" using assms(2) rb_full_iff [OF shape] by simp
  obtain p where p: "readpos r = Some p" using full by (auto simp: rb_full_def)
  have r': "rc = -1" "r' = rb_store (r\<lparr>readpos := Some (wrap_ptr r (Suc p))\<rparr>) d"
    using assms(3) full p by (auto simp: ringbuf_enqueue_def Let_def)
  show ?thesis
    using store_full [OF shape full p, of d] assms(1,2) r' rb_cap_pos [of r]
    by (simp add: rb_inv_def rb_cap_def)
qed

lemma dequeue_empty: "rb_inv r \<Longrightarrow> contents r = [] \<Longrightarrow>
    ringbuf_dequeue (rb_os_ok b) r = (-1, None, r)"
  by (simp add: ringbuf_dequeue_def rb_inv_def contents_None_iff)

lemma dequeue_front:
  assumes "rb_inv r" "contents r = y # q" "ringbuf_dequeue (rb_os_ok b) r = (rc, out, r')"
  shows "rc = 0 \<and> out = Some y \<and> contents r' = q \<and> rb_inv r' \<and> rb_cap r' = rb_cap r"
proof -
  let ?r = "r\<lparr>num := num r - 1\<rparr>"
  have shape: "rb_shape ?r" using assms(1) by (simp add: rb_inv_def)
  obtain p where p: "readpos ?r = Some p"
    using assms(1,2) by (cases "readpos r") (auto simp: contents_def)
  obtain x where x: "rb_take ?r p = (x, r')" "rc = 0" "out = Some x"
    using assms(3) p by (auto simp: ringbuf_dequeue_def Let_def split: prod.splits)
  show ?thesis
    using take_contents [OF shape p x(1)] assms(1,2) x(2,3) by (auto simp: rb_inv_def rb_cap_def)
qed

interpretation rb: drop_oldest_fifo
  "ringbuf_enqueue (rb_os_ok b)" "ringbuf_dequeue (rb_os_ok b)" contents rb_inv rb_cap for b
  by unfold_locales
    (simp, simp add: rb_bound rb_inv_def, rule enqueue_room, assumption+, rule enqueue_full,
      assumption+, rule dequeue_empty, assumption+, rule dequeue_front, assumption+)

lemma rb_init_inv:
  assumes "0 < length a"
  shows "rb_inv (ringbuf_init (length a) a)" and "contents (ringbuf_init (length a) a) = []"
    and "rb_cap (ringbuf_init (length a) a) = max 1 (length a - 1)"
  using assms by (simp_all add: rb_inv_def rb_shape_def ringbuf_init_def contents_def rb_cap_def)

text \<open>
  A failing \<^verbatim>\<open>pthread_mutex_lock\<close> returns a positive error number. The enqueue gives up; the
  dequeue tests for a negative result only and goes on without the lock.
\<close>

lemma lock_failure:
  assumes "0 < lock_rc os"
  shows "ringbuf_enqueue os r d = (-2, r)"
    and "ringbuf_dequeue os r = ringbuf_dequeue (os\<lparr>lock_rc := 0\<rparr>) r"
  using assms by (simp_all add: ringbuf_enqueue_def ringbuf_dequeue_def)

section \<open>Properties\<close>

text \<open>
  C2: The ring buffer is a bounded queue that drops its oldest entry. Started from any state
  that satisfies the invariant, every sequence of \<^verbatim>\<open>ringbuf_enqueue\<close> and \<^verbatim>\<open>ringbuf_dequeue\<close>
  calls returns exactly what the abstract queue of capacity \<open>rb_cap\<close> returns (codes and data),
  leaves the abstract queue as the buffer's contents, and keeps the invariant, so that the
  counter \<^verbatim>\<open>num\<close> is the number of stored entries.
\<close>

theorem ringbuf_run_refines:
  assumes "rb_inv r"
    and "fifo_run (ringbuf_enqueue (rb_os_ok b)) (ringbuf_dequeue (rb_os_ok b)) r ops = (rets, r')"
  shows "fifo_spec_run (rb_cap r) (contents r) ops = (rets, contents r') \<and>
    rb_inv r' \<and> num r' = of_nat (length (contents r'))"
  using rb.run_refines [OF assms] by (simp_all add: rb_inv_def)

theorem ringbuf_run_refines_witness:
  "fifo_spec_run 2 [] [Enq (7 :: int), Enq 8, Enq 9, Deq] =
     ([Enq_Ret 0, Enq_Ret 0, Enq_Ret (-1), Deq_Ret 0 (Some 8)], [9])"
proof -
  let ?r = "ringbuf_init 3 [0, 0, 0 :: int]"
  have inv: "rb_inv ?r" "contents ?r = []" "rb_cap ?r = 2"
    using rb_init_inv [of "[0, 0, 0 :: int]"] by (simp_all add: numeral_3_eq_3)
  obtain rets r' where run: "fifo_run (ringbuf_enqueue (rb_os_ok 0)) (ringbuf_dequeue (rb_os_ok 0))
      ?r [Enq 7, Enq 8, Enq 9, Deq] = (rets, r')" by fastforce
  have "rets = [Enq_Ret 0, Enq_Ret 0, Enq_Ret (-1), Deq_Ret 0 (Some 8)]" "contents r' = [9]"
    using run by (auto simp: ringbuf_init_def ringbuf_enqueue_def ringbuf_dequeue_def rb_full_def
        rb_store_def rb_take_def wrap_ptr_def contents_def rb_count_def slice_def Let_def)
  then show ?thesis using ringbuf_run_refines [OF inv(1) run] inv(2,3) by simp
qed

text \<open>
  C38: Overflow never loses recent data. After any sequence of calls on a freshly initialised
  buffer of \<open>n\<close> cells, the contents are a suffix of the sequence of all values enqueued, and
  never more than \<open>max 1 (n - 1)\<close> of them: one cell is never used, unless there is only one.
\<close>

theorem ringbuf_keeps_most_recent:
  assumes "0 < length a"
    and "fifo_run (ringbuf_enqueue (rb_os_ok b)) (ringbuf_dequeue (rb_os_ok b))
           (ringbuf_init (length a) a) ops = (rets, r')"
  shows "suffix (contents r') (enqueued ops) \<and> length (contents r') \<le> max 1 (length a - 1)"
  using rb.run_recent [OF rb_init_inv(1) [OF assms(1)] assms(2)] rb_init_inv(2,3) [OF assms(1)]
  by simp_all

theorem ringbuf_keeps_most_recent_witness:
  "suffix (contents (snd (fifo_run (ringbuf_enqueue (rb_os_ok 0)) (ringbuf_dequeue (rb_os_ok 0))
     (ringbuf_init 2 [0, 0 :: int]) [Enq 7, Enq 8]))) [7, 8]"
  using ringbuf_keeps_most_recent [of "[0, 0 :: int]" 0 "[Enq 7, Enq 8]"]
  by (metis enqueued.simps length_Cons list.size(3) numeral_2_eq_2 prod.collapse zero_less_Suc)

end
