(* ===== verification/Ringbuf_Conc.thy ===== *)
theory Ringbuf_Conc
  imports Ringbuf
begin

text \<open>
  The blocking operations of \<^verbatim>\<open>ringbuf.c\<close> and any number of threads that share one buffer. A
  critical section (from \<^verbatim>\<open>pthread_mutex_lock\<close>, or from the return of \<^verbatim>\<open>pthread_cond_wait\<close>, to
  the next wait or unlock) is one step; what the code does outside the lock is a step of its
  own. \<^verbatim>\<open>ringbuf_dequeue_blocking\<close> decrements \<open>num\<close> after the unlock: its load and its store are
  two steps. A waiter may wake at any time (spurious wakeups); a broadcast wakes all waiters.
\<close>

section \<open>The blocking operations\<close>

text \<open>\<open>None\<close>: the caller waits on \<^verbatim>\<open>cond_notfull\<close> and will run the loop again.\<close>

definition ringbuf_enqueue_blocking ::
  "rb_os \<Rightarrow> 'd ringbuf \<Rightarrow> 'd \<Rightarrow> (int \<times> 'd ringbuf) option" where
  "ringbuf_enqueue_blocking os r d =
     (if lock_rc os \<noteq> 0 then Some (-2, r)
      else if rb_full r then None
      else let r1 = rb_store r d; r2 = r1\<lparr>num := num r1 + 1\<rparr>
           in Some (if unlock_rc os < 0 then -2 else 0, r2))"

text \<open>
  The part of the blocking dequeue inside the lock. \<open>None\<close>: the caller waits on
  \<^verbatim>\<open>cond_notempty\<close>. The last component says whether the decrement of \<open>num\<close> is still to come:
  a failing unlock returns before it.
\<close>

definition ringbuf_dequeue_blocking_locked ::
  "rb_os \<Rightarrow> 'd ringbuf \<Rightarrow> (int \<times> 'd option \<times> 'd ringbuf \<times> bool) option" where
  "ringbuf_dequeue_blocking_locked os r =
     (if lock_rc os < 0 then Some (-2, None, r, False)
      else case readpos r of
             None \<Rightarrow> None
           | Some p \<Rightarrow>
               let (x, r1) = rb_take r p
               in Some (if unlock_rc os < 0 then (-2, Some x, r1, False)
                        else (0, Some x, r1, True)))"

text \<open>The whole call when no other thread touches the buffer meanwhile.\<close>

definition ringbuf_dequeue_blocking ::
  "rb_os \<Rightarrow> 'd ringbuf \<Rightarrow> (int \<times> 'd option \<times> 'd ringbuf) option" where
  "ringbuf_dequeue_blocking os r =
     (case ringbuf_dequeue_blocking_locked os r of
        None \<Rightarrow> None
      | Some (rc, out, r1, todo) \<Rightarrow>
          Some (rc, out, if todo then r1\<lparr>num := num r1 - 1\<rparr> else r1))"

section \<open>Threads\<close>

datatype 'd pc =
    Idle
  | Enq_Want 'd | Enq_Sleep 'd
  | Deq_Want | Deq_Sleep
  | Num_Load | Num_Store u64

record 'd conc =
  cbuf :: "'d ringbuf"
  pcs :: "nat \<Rightarrow> 'd pc"
  sent :: "'d list"
  taken :: "('d \<times> bool) list"

text \<open>\<open>sent\<close> and \<open>taken\<close> are history: what was stored, and what left the buffer, with \<open>True\<close>
  for a delivery and \<open>False\<close> for an entry that an overwriting enqueue dropped.\<close>

definition conc_init :: "'d list \<Rightarrow> 'd conc" where
  "conc_init a =
     \<lparr>cbuf = ringbuf_init (length a) a, pcs = (\<lambda>_. Idle), sent = [], taken = []\<rparr>"

fun wake_deq :: "'d pc \<Rightarrow> 'd pc" where
  "wake_deq Deq_Sleep = Deq_Want"
| "wake_deq p = p"

fun wake_enq :: "'d pc \<Rightarrow> 'd pc" where
  "wake_enq (Enq_Sleep d) = Enq_Want d"
| "wake_enq p = p"

inductive conc_step :: "'d conc \<Rightarrow> 'd conc \<Rightarrow> bool" where
  call_enq: "pcs s i = Idle \<Longrightarrow> conc_step s (s\<lparr>pcs := (pcs s)(i := Enq_Want d)\<rparr>)"
| enq_wait: "pcs s i = Enq_Want d \<Longrightarrow> ringbuf_enqueue_blocking (rb_os_ok 0) (cbuf s) d = None \<Longrightarrow>
    conc_step s (s\<lparr>pcs := (pcs s)(i := Enq_Sleep d)\<rparr>)"
| enq_done: "pcs s i = Enq_Want d \<Longrightarrow>
    ringbuf_enqueue_blocking (rb_os_ok 0) (cbuf s) d = Some (rc, r) \<Longrightarrow>
    conc_step s (s\<lparr>cbuf := r, pcs := (wake_deq \<circ> pcs s)(i := Idle), sent := sent s @ [d]\<rparr>)"
| enq_wake: "pcs s i = Enq_Sleep d \<Longrightarrow> conc_step s (s\<lparr>pcs := (pcs s)(i := Enq_Want d)\<rparr>)"
| call_deq: "pcs s i = Idle \<Longrightarrow> conc_step s (s\<lparr>pcs := (pcs s)(i := Deq_Want)\<rparr>)"
| deq_wait: "pcs s i = Deq_Want \<Longrightarrow>
    ringbuf_dequeue_blocking_locked (rb_os_ok 0) (cbuf s) = None \<Longrightarrow>
    conc_step s (s\<lparr>pcs := (pcs s)(i := Deq_Sleep)\<rparr>)"
| deq_take: "pcs s i = Deq_Want \<Longrightarrow>
    ringbuf_dequeue_blocking_locked (rb_os_ok 0) (cbuf s) = Some (rc, Some x, r, True) \<Longrightarrow>
    conc_step s (s\<lparr>cbuf := r, pcs := (wake_enq \<circ> pcs s)(i := Num_Load),
                  taken := taken s @ [(x, True)]\<rparr>)"
| deq_load: "pcs s i = Num_Load \<Longrightarrow>
    conc_step s (s\<lparr>pcs := (pcs s)(i := Num_Store (num (cbuf s)))\<rparr>)"
| deq_store: "pcs s i = Num_Store v \<Longrightarrow>
    conc_step s (s\<lparr>cbuf := (cbuf s)\<lparr>num := v - 1\<rparr>, pcs := (pcs s)(i := Idle)\<rparr>)"
| deq_wake: "pcs s i = Deq_Sleep \<Longrightarrow> conc_step s (s\<lparr>pcs := (pcs s)(i := Deq_Want)\<rparr>)"
| try_enq: "pcs s i = Idle \<Longrightarrow> ringbuf_enqueue (rb_os_ok 0) (cbuf s) d = (rc, r) \<Longrightarrow>
    conc_step s (s\<lparr>cbuf := r, pcs := wake_deq \<circ> pcs s, sent := sent s @ [d],
                  taken := (if rc = -1 then taken s @ [(hd (contents (cbuf s)), False)]
                            else taken s)\<rparr>)"
| try_deq: "pcs s i = Idle \<Longrightarrow> ringbuf_dequeue (rb_os_ok 0) (cbuf s) = (rc, out, r) \<Longrightarrow>
    conc_step s (s\<lparr>cbuf := r, pcs := wake_enq \<circ> pcs s,
                  taken := (case out of None \<Rightarrow> taken s | Some x \<Rightarrow> taken s @ [(x, True)])\<rparr>)"

inductive conc_reachable :: "'d list \<Rightarrow> 'd conc \<Rightarrow> bool" for a where
  start: "conc_reachable a (conc_init a)"
| step: "conc_reachable a s \<Longrightarrow> conc_step s t \<Longrightarrow> conc_reachable a t"

section \<open>Invariant\<close>

definition conc_inv :: "'d conc \<Rightarrow> bool" where
  "conc_inv s \<longleftrightarrow>
     rb_shape (cbuf s) \<and> map fst (taken s) @ contents (cbuf s) = sent s \<and>
     (\<forall>i d. pcs s i = Enq_Sleep d \<longrightarrow> length (contents (cbuf s)) = rb_cap (cbuf s)) \<and>
     (\<forall>i. pcs s i = Deq_Sleep \<longrightarrow> contents (cbuf s) = [])"

lemma wake_neq [simp]: "wake_deq p \<noteq> Deq_Sleep" "wake_enq p \<noteq> Enq_Sleep d"
  by (cases p; simp)+

lemma wake_deq_Enq [simp]: "wake_deq p = Enq_Sleep d \<longleftrightarrow> p = Enq_Sleep d"
  by (cases p) auto

lemma wake_enq_Deq [simp]: "wake_enq p = Deq_Sleep \<longleftrightarrow> p = Deq_Sleep"
  by (cases p) auto

text \<open>The functional facts without the counter, which the race below makes unreliable.\<close>

lemma enqueue_blocking_Some:
  assumes "rb_shape r" "ringbuf_enqueue_blocking (rb_os_ok b) r d = Some (rc, r')"
  shows "rb_shape r'" "contents r' = contents r @ [d]" "length (contents r) < rb_cap r" "rc = 0"
    and "rb_cap r' = rb_cap r"
proof -
  have nf: "\<not> rb_full r" and r': "r' = (rb_store r d)\<lparr>num := num r + 1\<rparr>" "rc = 0"
    using assms(2) by (auto simp: ringbuf_enqueue_blocking_def Let_def split: if_splits)
  then show "rb_shape r'" "contents r' = contents r @ [d]" "rc = 0" "rb_cap r' = rb_cap r"
    using store_not_full [OF assms(1) nf, of d] by (simp_all add: rb_cap_def)
  show "length (contents r) < rb_cap r"
    using nf rb_full_iff [OF assms(1)] rb_bound [OF assms(1)] by simp
qed

lemma enqueue_blocking_None:
  "rb_shape r \<Longrightarrow> ringbuf_enqueue_blocking (rb_os_ok b) r d = None \<longleftrightarrow>
     length (contents r) = rb_cap r"
  by (simp add: ringbuf_enqueue_blocking_def Let_def rb_full_iff)

lemma dequeue_blocking_Some:
  assumes "rb_shape r" "ringbuf_dequeue_blocking_locked (rb_os_ok b) r = Some (rc, out, r', todo)"
  shows "rb_shape r'" "\<exists>x. out = Some x \<and> contents r = x # contents r'" "rc = 0" "todo"
    and "rb_cap r' = rb_cap r"
proof -
  obtain p x where "readpos r = Some p" "rb_take r p = (x, r')" "out = Some x" "rc = 0" "todo"
    using assms(2)
    by (auto simp: ringbuf_dequeue_blocking_locked_def split: option.splits prod.splits)
  then show "rb_shape r'" "\<exists>x. out = Some x \<and> contents r = x # contents r'" "rc = 0" "todo"
    "rb_cap r' = rb_cap r"
    using take_contents [OF assms(1), of p x r'] by (auto simp: rb_cap_def)
qed

lemma dequeue_blocking_None:
  "rb_shape r \<Longrightarrow> ringbuf_dequeue_blocking_locked (rb_os_ok b) r = None \<longleftrightarrow> contents r = []"
  by (auto simp: ringbuf_dequeue_blocking_locked_def contents_None_iff split: option.split prod.split)

text \<open>The non-blocking calls do not need the counter either: set it right, call, compare.\<close>

lemma enqueue_shape:
  assumes "rb_shape r" "ringbuf_enqueue (rb_os_ok b) r d = (rc, r')"
  shows "rb_shape r'" "rb_cap r' = rb_cap r"
    and "length (contents r) < rb_cap r \<Longrightarrow> rc = 0 \<and> contents r' = contents r @ [d]"
    and "length (contents r) = rb_cap r \<Longrightarrow> rc = -1 \<and> contents r' = tl (contents r) @ [d]"
proof -
  have "rb_shape r' \<and> rb_cap r' = rb_cap r \<and>
    (if rb_full r then rc = -1 \<and> contents r' = tl (contents r) @ [d]
     else rc = 0 \<and> contents r' = contents r @ [d])"
  proof (cases "rb_full r")
    case True
    then obtain p where p: "readpos r = Some p" by (auto simp: rb_full_def)
    have "rc = -1" "r' = rb_store (r\<lparr>readpos := Some (wrap_ptr r (Suc p))\<rparr>) d"
      using assms(2) True p by (simp_all add: ringbuf_enqueue_def Let_def)
    then show ?thesis
      using store_full [OF assms(1) True p, of d] True by (simp add: rb_cap_def)
  next
    case False
    have "rc = 0" "r' = rb_store (r\<lparr>num := num r + 1\<rparr>) d"
      using assms(2) False by (simp_all add: ringbuf_enqueue_def Let_def)
    then show ?thesis
      using store_not_full [of "r\<lparr>num := num r + 1\<rparr>" d] assms(1) False by (simp add: rb_cap_def)
  qed
  then show "rb_shape r'" "rb_cap r' = rb_cap r"
    "length (contents r) < rb_cap r \<Longrightarrow> rc = 0 \<and> contents r' = contents r @ [d]"
    "length (contents r) = rb_cap r \<Longrightarrow> rc = -1 \<and> contents r' = tl (contents r) @ [d]"
    by (auto simp: rb_full_iff [OF assms(1)])
qed

lemma dequeue_shape:
  assumes "rb_shape r" "ringbuf_dequeue (rb_os_ok b) r = (rc, out, r')"
  shows "rb_shape r'" "rb_cap r' = rb_cap r"
    and "contents r = (case out of None \<Rightarrow> [] | Some x \<Rightarrow> [x]) @ contents r'"
    and "out = None \<Longrightarrow> contents r = []"
proof -
  have "rb_shape r' \<and> rb_cap r' = rb_cap r \<and>
    contents r = (case out of None \<Rightarrow> [] | Some x \<Rightarrow> [x]) @ contents r' \<and>
    (out = None \<longrightarrow> contents r = [])"
  proof (cases "readpos r")
    case None
    then have "contents r = []" by (simp add: contents_def)
    then show ?thesis using None assms by (auto simp: ringbuf_dequeue_def)
  next
    case (Some p)
    let ?r = "r\<lparr>num := num r - 1\<rparr>"
    obtain x where x: "rb_take ?r p = (x, r')" "out = Some x"
      using assms(2) Some by (auto simp: ringbuf_dequeue_def Let_def split: prod.splits)
    show ?thesis using take_contents [of ?r p x r'] Some x assms(1) by (simp add: rb_cap_def)
  qed
  then show "rb_shape r'" "rb_cap r' = rb_cap r"
    "contents r = (case out of None \<Rightarrow> [] | Some x \<Rightarrow> [x]) @ contents r'"
    "out = None \<Longrightarrow> contents r = []" by auto
qed

lemma conc_invD:
  assumes "conc_inv s"
  shows "rb_shape (cbuf s)" "map fst (taken s) @ contents (cbuf s) = sent s"
    and "pcs s i = Enq_Sleep d \<Longrightarrow> length (contents (cbuf s)) = rb_cap (cbuf s)"
    and "pcs s i = Deq_Sleep \<Longrightarrow> contents (cbuf s) = []"
  using assms by (auto simp: conc_inv_def)

lemma conc_init_inv: "0 < length a \<Longrightarrow> conc_inv (conc_init a)"
  using rb_init_inv [of a] by (simp add: conc_inv_def conc_init_def rb_inv_def)

text \<open>No sleeping enqueuer can exist next to a stored entry that makes room, and conversely:
  the broadcasts keep the two kinds of waiters honest.\<close>

lemma conc_step_inv: "conc_step s t \<Longrightarrow> conc_inv s \<Longrightarrow> conc_inv t"
proof (induction rule: conc_step.induct)
  case (enq_wait s i d)
  note inv = conc_invD [OF enq_wait.prems]
  have "length (contents (cbuf s)) = rb_cap (cbuf s)"
    using enq_wait.hyps enqueue_blocking_None [OF inv(1)] by simp
  then show ?case using enq_wait.prems by (auto simp: conc_inv_def)
next
  case (enq_done s i d rc r)
  note inv = conc_invD [OF enq_done.prems]
  note r = enqueue_blocking_Some [OF inv(1) enq_done.hyps(2)]
  show ?case using inv(2) inv(3) r by (fastforce simp: conc_inv_def)
next
  case (deq_wait s i)
  note inv = conc_invD [OF deq_wait.prems]
  have "contents (cbuf s) = []" using deq_wait.hyps dequeue_blocking_None [OF inv(1)] by simp
  then show ?case using deq_wait.prems by (auto simp: conc_inv_def)
next
  case (deq_take s i rc x r)
  note inv = conc_invD [OF deq_take.prems]
  note r = dequeue_blocking_Some [OF inv(1) deq_take.hyps(2)]
  show ?case using inv(2) inv(4) r by (fastforce simp: conc_inv_def)
next
  case (deq_store s i v)
  then show ?case by (auto simp: conc_inv_def rb_cap_def)
next
  case (try_enq s i d rc r)
  note inv = conc_invD [OF try_enq.prems]
  note r = enqueue_shape [OF inv(1) try_enq.hyps(2)]
  show ?case
  proof (cases "length (contents (cbuf s)) < rb_cap (cbuf s)")
    case True
    then show ?thesis using r inv(2) inv(3) by (fastforce simp: conc_inv_def)
  next
    case False
    then have full: "length (contents (cbuf s)) = rb_cap (cbuf s)"
      using rb_bound [OF inv(1)] by simp
    then have c: "contents (cbuf s) = hd (contents (cbuf s)) # tl (contents (cbuf s))"
      using rb_cap_pos [of "cbuf s"] by (cases "contents (cbuf s)") auto
    have "sent s @ [d] = map fst (taken s) @ hd (contents (cbuf s)) # tl (contents (cbuf s)) @ [d]"
      by (subst inv(2) [symmetric], subst c) simp
    moreover have "length (contents r) = rb_cap r"
      using r(2,4) full rb_cap_pos [of "cbuf s"] by simp
    ultimately show ?thesis using r(1,4) full by (simp add: conc_inv_def)
  qed
next
  case (try_deq s i rc out r)
  note inv = conc_invD [OF try_deq.prems]
  note r = dequeue_shape [OF inv(1) try_deq.hyps(2)]
  show ?case using r inv(2) inv(4) by (cases out) (auto simp: conc_inv_def)
qed (auto simp: conc_inv_def)

lemma conc_reachable_inv: "conc_reachable a s \<Longrightarrow> 0 < length a \<Longrightarrow> conc_inv s"
  by (induction rule: conc_reachable.induct) (auto intro: conc_init_inv conc_step_inv)

section \<open>Properties\<close>

text \<open>
  C13: No entry is lost, duplicated or reordered by concurrent callers. In every reachable state
  of any number of threads that use the blocking and the non-blocking calls, what has left the
  buffer (delivered, or dropped by an overflowing enqueue) followed by what is in it is exactly
  what was stored, in order, and the contents never exceed the capacity.
\<close>

theorem conc_fifo_order:
  assumes "conc_reachable a s" "0 < length a"
  shows "map fst (taken s) @ contents (cbuf s) = sent s \<and>
    length (contents (cbuf s)) \<le> rb_cap (cbuf s)"
  using conc_invD(1,2) [OF conc_reachable_inv [OF assms]] rb_bound by auto

text \<open>A run of two threads, used by the witnesses: thread 0 enqueues, thread 1 dequeues.\<close>

definition st0 :: "int conc" where "st0 = conc_init [0, 0, 0]"

definition st_full_after :: "int conc" where
  "st_full_after = \<lparr>cbuf = \<lparr>writepos = 1, rb_size = 3, num = 1, readpos = Some 0, arr = [5, 0, 0]\<rparr>,
     pcs = (\<lambda>_. Idle), sent = [5], taken = []\<rparr>"

lemmas rb_eval = ringbuf_enqueue_blocking_def ringbuf_dequeue_blocking_locked_def
  ringbuf_enqueue_def ringbuf_dequeue_def rb_full_def rb_store_def rb_take_def wrap_ptr_def
  Let_def

lemma reach_one: "conc_reachable [0, 0, 0] st_full_after"
proof -
  have "conc_step st0 st_full_after"
    using conc_step.try_enq [of st0 0 5 0 "cbuf st_full_after"]
    by (simp add: st0_def st_full_after_def conc_init_def ringbuf_init_def rb_eval comp_def)
  then show ?thesis unfolding st0_def by (rule conc_reachable.step [OF conc_reachable.start])
qed

theorem conc_fifo_order_witness:
  "map fst (taken st_full_after) @ contents (cbuf st_full_after) = [5]"
  using conc_fifo_order [OF reach_one] by (simp add: st_full_after_def)

text \<open>
  C3: No wake-up is lost. In every reachable state a thread that sleeps in
  \<^verbatim>\<open>ringbuf_enqueue_blocking\<close> sleeps only while the buffer is full, and one that sleeps in
  \<^verbatim>\<open>ringbuf_dequeue_blocking\<close> only while it is empty; so an enqueuer and a dequeuer never sleep
  at the same time (the buffer cannot deadlock).
\<close>

theorem conc_no_lost_wakeup:
  assumes "conc_reachable a s" "0 < length a"
  shows "(pcs s i = Enq_Sleep d \<longrightarrow> length (contents (cbuf s)) = rb_cap (cbuf s)) \<and>
    (pcs s j = Deq_Sleep \<longrightarrow> contents (cbuf s) = []) \<and>
    \<not> (pcs s i = Enq_Sleep d \<and> pcs s j = Deq_Sleep)"
proof -
  note inv = conc_invD(3,4) [OF conc_reachable_inv [OF assms]]
  have "contents (cbuf s) \<noteq> []" if "pcs s i = Enq_Sleep d"
    using inv(1) [OF that] by auto
  then show ?thesis using inv by auto
qed

definition st_sleep :: "int conc" where
  "st_sleep = st0\<lparr>pcs := ((pcs st0)(1 := Deq_Want))(1 := Deq_Sleep)\<rparr>"

theorem conc_no_lost_wakeup_witness: "contents (cbuf st_sleep) = []"
proof -
  let ?s = "st0\<lparr>pcs := (pcs st0)(1 := Deq_Want)\<rparr>"
  have "conc_step st0 ?s" by (rule conc_step.call_deq) (simp add: st0_def conc_init_def)
  moreover have "conc_step ?s (?s\<lparr>pcs := (pcs ?s)(1 := Deq_Sleep)\<rparr>)"
    by (rule conc_step.deq_wait) (simp_all add: st0_def conc_init_def ringbuf_init_def rb_eval)
  ultimately have "conc_reachable [0, 0, 0] (?s\<lparr>pcs := (pcs ?s)(1 := Deq_Sleep)\<rparr>)"
    unfolding st0_def by (blast intro: conc_reachable.intros)
  then show ?thesis
    using conc_no_lost_wakeup [of "[0, 0, 0]" st_sleep 0 0 1] by (simp add: st_sleep_def)
qed

text \<open>
  The counter is not protected. \<^verbatim>\<open>ringbuf_dequeue_blocking\<close> decrements \<^verbatim>\<open>num\<close> after it has
  released the mutex, so an enqueue that runs between its load and its store is forgotten:
  there is a reachable state in which every thread has returned, the buffer holds one entry and
  \<^verbatim>\<open>num\<close> is 0.
\<close>

lemma conc_counter_race:
  "\<exists>s. conc_reachable [0, 0, 0 :: int] s \<and> (\<forall>i. pcs s i = Idle) \<and>
     length (contents (cbuf s)) = 1 \<and> num (cbuf s) = 0"
proof -
  let ?b1 = "\<lparr>writepos = 1, rb_size = 3, num = 1, readpos = None, arr = [5, 0, 0 :: int]\<rparr>"
  let ?b2 = "\<lparr>writepos = 2, rb_size = 3, num = 2, readpos = Some 1, arr = [5, 6, 0 :: int]\<rparr>"
  let ?s1 = "st_full_after\<lparr>pcs := (\<lambda>_. Idle)(1 := Deq_Want)\<rparr>"
  let ?s2 = "\<lparr>cbuf = ?b1, pcs = (\<lambda>_. Idle)(1 := Num_Load), sent = [5], taken = [(5, True)]\<rparr>"
  let ?s3 = "?s2\<lparr>pcs := (\<lambda>_. Idle)(1 := Num_Store 1)\<rparr>"
  let ?s4 = "?s3\<lparr>cbuf := ?b2, sent := [5, 6]\<rparr>"
  let ?s5 = "?s4\<lparr>cbuf := ?b2\<lparr>num := 0\<rparr>, pcs := (\<lambda>_. Idle)(1 := Idle)\<rparr>"
  have "conc_step st_full_after ?s1"
    using conc_step.call_deq [of st_full_after 1] by (simp add: st_full_after_def)
  moreover have "conc_step ?s1 ?s2"
    using conc_step.deq_take [of ?s1 1 0 5 ?b1]
    by (simp add: st_full_after_def rb_eval comp_def fun_upd_def if_distrib cong: if_cong)
  moreover have "conc_step ?s2 ?s3" using conc_step.deq_load [of ?s2 1] by simp
  moreover have "conc_step ?s3 ?s4"
    using conc_step.try_enq [of ?s3 0 6 0 ?b2]
    by (simp add: rb_eval comp_def fun_upd_def if_distrib cong: if_cong)
  moreover have "conc_step ?s4 ?s5" using conc_step.deq_store [of ?s4 1 1] by simp
  ultimately have "conc_reachable [0, 0, 0] ?s5"
    using reach_one by (meson conc_reachable.step)
  moreover have "length (contents (cbuf ?s5)) = 1"
    by (simp add: contents_def rb_count_def slice_def)
  ultimately show ?thesis by (intro exI [of _ ?s5]) simp
qed

end
