(* ===== verification/Ringbuf_Example.thy ===== *)
theory Ringbuf_Example
  imports Ringbuf_Conc
begin

text \<open>
  The producer and the consumer of \<^verbatim>\<open>ringbuf_example.c\<close>, a client of the blocking and the plain dequeue, with the
  main thread that joins them. The example is written for a buffer of characters; its entries are of any
  type here. Sleeping and printing are left out, and the random letters are the list \<open>items\<close>.
\<close>

section \<open>The program\<close>

text \<open>\<open>Blocked\<close>: inside \<^verbatim>\<open>ringbuf_dequeue_blocking\<close>. \<open>ex_exited\<close> is \<^verbatim>\<open>producer_has_exited\<close>.\<close>

datatype consumer = Checking | Blocked | Ended

record 'd example =
  ex_buf :: "'d ringbuf"
  ex_todo :: "'d list"
  ex_exited :: bool
  ex_cons :: consumer
  ex_got :: "'d list"

definition example_start :: "'d list \<Rightarrow> 'd list \<Rightarrow> 'd example" where
  "example_start a items =
     \<lparr>ex_buf = ringbuf_init (length a) a, ex_todo = items, ex_exited = False, ex_cons = Checking, ex_got = []\<rparr>"

inductive example_step :: "'d example \<Rightarrow> 'd example \<Rightarrow> bool" where
  produce: "ex_todo e = d # ds \<Longrightarrow> ringbuf_enqueue_blocking (rb_os_ok 0) (ex_buf e) d = Some (rc, r) \<Longrightarrow>
    example_step e (e\<lparr>ex_buf := r, ex_todo := ds\<rparr>)"
| joined: "ex_todo e = [] \<Longrightarrow> \<not> ex_exited e \<Longrightarrow> example_step e (e\<lparr>ex_exited := True\<rparr>)"
| enter: "ex_cons e = Checking \<Longrightarrow> \<not> ex_exited e \<Longrightarrow> example_step e (e\<lparr>ex_cons := Blocked\<rparr>)"
| receive: "ex_cons e = Blocked \<Longrightarrow> ringbuf_dequeue_blocking (rb_os_ok 0) (ex_buf e) = Some (rc, Some x, r) \<Longrightarrow>
    example_step e (e\<lparr>ex_buf := r, ex_cons := Checking, ex_got := ex_got e @ [x]\<rparr>)"
| drain: "ex_cons e = Checking \<Longrightarrow> ex_exited e \<Longrightarrow> ringbuf_dequeue (rb_os_ok 0) (ex_buf e) = (rc, Some x, r) \<Longrightarrow> 0 \<le> rc \<Longrightarrow>
    example_step e (e\<lparr>ex_buf := r, ex_got := ex_got e @ [x]\<rparr>)"
| finish: "ex_cons e = Checking \<Longrightarrow> ex_exited e \<Longrightarrow> ringbuf_dequeue (rb_os_ok 0) (ex_buf e) = (rc, out, r) \<Longrightarrow> rc < 0 \<Longrightarrow>
    example_step e (e\<lparr>ex_buf := r, ex_cons := Ended\<rparr>)"

inductive example_run :: "nat \<Rightarrow> 'd example \<Rightarrow> 'd example \<Rightarrow> bool" where
  stop: "example_run 0 e e"
| go: "example_run n e f \<Longrightarrow> example_step f g \<Longrightarrow> example_run (Suc n) e g"

inductive_simps blocked_step: "example_step \<lparr>ex_buf = r, ex_todo = [], ex_exited = True, ex_cons = Blocked, ex_got = g\<rparr> f"

section \<open>Invariant and bound\<close>

definition example_inv :: "'d list \<Rightarrow> 'd example \<Rightarrow> bool" where
  "example_inv items e \<longleftrightarrow> rb_shape (ex_buf e) \<and> ex_got e @ contents (ex_buf e) @ ex_todo e = items \<and>
     (ex_exited e \<longrightarrow> ex_todo e = []) \<and> (ex_cons e = Ended \<longrightarrow> ex_exited e \<and> contents (ex_buf e) = [])"

text \<open>What is left to do: an entry to produce is taken later, and each take is followed by one more look.\<close>

definition to_do :: "'d example \<Rightarrow> nat" where
  "to_do e = 6 * length (ex_todo e) + 3 * length (contents (ex_buf e)) + (if ex_exited e then 0 else 1) +
     (if ex_cons e = Checking then 1 else 0)"

lemma dequeue_blocking_whole:
  assumes "rb_shape r" "ringbuf_dequeue_blocking (rb_os_ok 0) r = Some (rc, out, r')"
  shows "rb_shape r'" "\<exists>x. out = Some x \<and> contents r = x # contents r'"
proof -
  obtain rc1 todo r1 where l: "ringbuf_dequeue_blocking_locked (rb_os_ok 0) r = Some (rc1, out, r1, todo)"
    "r' = (if todo then r1\<lparr>num := num r1 - 1\<rparr> else r1)"
    using assms(2) by (auto simp: ringbuf_dequeue_blocking_def split: option.splits prod.splits)
  then show "rb_shape r'" "\<exists>x. out = Some x \<and> contents r = x # contents r'"
    using dequeue_blocking_Some [OF assms(1) l(1)] by auto
qed

lemma dequeue_result:
  assumes "rb_shape r" "ringbuf_dequeue (rb_os_ok 0) r = (rc, out, r')"
  shows "rc = (if contents r = [] then - 1 else 0)"
  using assms contents_None_iff [OF assms(1)]
  by (auto simp: ringbuf_dequeue_def Let_def split: option.splits prod.splits)

lemma example_step_inv:
  assumes "example_step e f" "example_inv items e"
  shows "example_inv items f \<and> to_do f < to_do e"
  using assms
proof cases
  case (produce d ds rc r)
  then show ?thesis using assms(2) enqueue_blocking_Some [of "ex_buf e" 0 d rc r]
    by (auto simp: example_inv_def to_do_def)
next
  case (receive rc x r)
  then show ?thesis using assms(2) dequeue_blocking_whole [of "ex_buf e" rc "Some x" r]
    by (auto simp: example_inv_def to_do_def)
next
  case (drain rc x r)
  then show ?thesis using assms(2) dequeue_shape [of "ex_buf e" 0 rc "Some x" r]
    by (auto simp: example_inv_def to_do_def)
next
  case (finish rc out r)
  then show ?thesis using assms(2) dequeue_shape [of "ex_buf e" 0 rc out r] dequeue_result [of "ex_buf e" rc out r]
    by (auto simp: example_inv_def to_do_def split: if_splits option.splits)
qed (use assms(2) in \<open>auto simp: example_inv_def to_do_def\<close>)

lemma example_run_inv:
  "example_run n e f \<Longrightarrow> example_inv items e \<Longrightarrow> example_inv items f \<and> to_do f + n \<le> to_do e"
  by (induction rule: example_run.induct) (use example_step_inv in \<open>fastforce+\<close>)

lemma start_inv: "0 < length a \<Longrightarrow> example_inv items (example_start a items)"
  using rb_init_inv [of a] by (simp add: example_inv_def example_start_def rb_inv_def)

section \<open>Outcomes\<close>

lemma stuck_cases:
  assumes "example_inv items e" "\<And>f. \<not> example_step e f"
  shows "ex_todo e = [] \<and> ex_exited e \<and> contents (ex_buf e) = [] \<and> ex_cons e \<noteq> Checking"
proof -
  have shape: "rb_shape (ex_buf e)" using assms(1) by (simp add: example_inv_def)
  have c: "ex_cons e \<noteq> Checking"
  proof
    assume c: "ex_cons e = Checking"
    show False
    proof (cases "ex_exited e")
      case True
      obtain rc out r where d: "ringbuf_dequeue (rb_os_ok 0) (ex_buf e) = (rc, out, r)" by (metis prod_cases3)
      have "rc = - 1 \<or> rc = 0 \<and> out \<noteq> None"
        using dequeue_result [OF shape d] dequeue_shape(4) [OF shape d] by (auto split: if_splits)
      then show False using assms(2) finish [OF c True d] drain [OF c True, of rc _ r] d by auto
    qed (use enter [OF c] assms(2) in blast)
  qed
  have b: "contents (ex_buf e) = []" if "ex_cons e = Blocked"
  proof (rule ccontr)
    assume "contents (ex_buf e) \<noteq> []"
    then obtain rc out r todo where "ringbuf_dequeue_blocking_locked (rb_os_ok 0) (ex_buf e) = Some (rc, out, r, todo)"
      using dequeue_blocking_None [OF shape, of 0] by (metis not_None_eq prod_cases4)
    then have "\<exists>x r'. ringbuf_dequeue_blocking (rb_os_ok 0) (ex_buf e) = Some (rc, Some x, r')"
      using dequeue_blocking_Some(2) [OF shape] by (fastforce simp: ringbuf_dequeue_blocking_def)
    then show False using receive [OF that] assms(2) by blast
  qed
  have empty: "contents (ex_buf e) = []"
    using b c assms(1) by (cases "ex_cons e") (auto simp: example_inv_def)
  have todo: "ex_todo e = []"
  proof (rule ccontr)
    assume "ex_todo e \<noteq> []"
    then obtain d ds where "ex_todo e = d # ds" by (cases "ex_todo e") auto
    moreover obtain rc r where "ringbuf_enqueue_blocking (rb_os_ok 0) (ex_buf e) d = Some (rc, r)"
      using enqueue_blocking_None [OF shape, of 0 d] empty by (metis list.size(3) not_None_eq rb_cap_neq_0 surj_pair)
    ultimately have "example_step e (e\<lparr>ex_buf := r, ex_todo := ds\<rparr>)" by (rule produce)
    then show False using assms(2) by simp
  qed
  moreover have "ex_exited e" using joined [OF todo] assms(2) by blast
  ultimately show ?thesis using empty c by blast
qed

text \<open>
  Every run of the example ends within six steps for each letter and two, everything has been delivered in order
  then, and either the consumer has ended or it waits for ever inside the blocking dequeue.
\<close>

lemma example_outcomes:
  assumes "example_run n (example_start a items) e" "0 < length a"
  shows "n \<le> 6 * length items + 2 \<and>
    ((\<forall>f. \<not> example_step e f) \<longrightarrow> ex_got e = items \<and> ex_exited e \<and> (ex_cons e = Ended \<or> ex_cons e = Blocked))"
proof -
  note run = example_run_inv [OF assms(1) start_inv [OF assms(2)]]
  have "contents (ringbuf_init (length a) a) = []" by (simp add: contents_def ringbuf_init_def)
  then have "n \<le> 6 * length items + 2" using run by (simp add: to_do_def example_start_def)
  moreover have "ex_got e = items \<and> ex_exited e \<and> (ex_cons e = Ended \<or> ex_cons e = Blocked)" if s: "\<forall>f. \<not> example_step e f"
    using stuck_cases [of items e] run s by (cases "ex_cons e") (auto simp: example_inv_def)
  ultimately show ?thesis by blast
qed

text \<open>The second ending happens: the consumer looks at the flag before the main thread sets it.\<close>

lemma example_hangs:
  "\<exists>e. example_run 5 (example_start [0, 0, 0] [5 :: int]) e \<and> (\<forall>f. \<not> example_step e f) \<and> ex_cons e = Blocked"
proof -
  let ?b = "\<lparr>writepos = 1, rb_size = 3, num = 1, readpos = Some 0, arr = [5, 0, 0 :: int]\<rparr>"
  let ?c = "\<lparr>writepos = 1, rb_size = 3, num = 0, readpos = None, arr = [5, 0, 0 :: int]\<rparr>"
  let ?e1 = "(example_start [0, 0, 0] [5 :: int])\<lparr>ex_cons := Blocked\<rparr>"
  let ?e2 = "?e1\<lparr>ex_buf := ?b, ex_todo := []\<rparr>"
  let ?e3 = "?e2\<lparr>ex_buf := ?c, ex_cons := Checking, ex_got := [5]\<rparr>"
  let ?e5 = "\<lparr>ex_buf = ?c, ex_todo = [], ex_exited = True, ex_cons = Blocked, ex_got = [5]\<rparr>"
  have "example_step (example_start [0, 0, 0] [5]) ?e1" by (rule enter) (simp_all add: example_start_def)
  moreover have "example_step ?e1 ?e2"
    using produce [of ?e1 5 "[]" 0 ?b] by (simp add: example_start_def ringbuf_init_def rb_eval)
  moreover have "example_step ?e2 ?e3"
    using receive [of ?e2 0 5 ?c] by (simp add: example_start_def ringbuf_dequeue_blocking_def rb_eval)
  moreover have "example_step ?e3 (?e3\<lparr>ex_cons := Blocked\<rparr>)" by (rule enter) (simp_all add: example_start_def)
  moreover have "example_step (?e3\<lparr>ex_cons := Blocked\<rparr>) ?e5"
    using joined [of "?e3\<lparr>ex_cons := Blocked\<rparr>"] by (simp add: example_start_def)
  ultimately have "example_run (Suc (Suc (Suc (Suc (Suc 0))))) (example_start [0, 0, 0] [5]) ?e5"
    by (blast intro: example_run.intros)
  moreover have "\<not> example_step ?e5 f" for f
    by (simp add: blocked_step ringbuf_dequeue_blocking_def rb_eval)
  ultimately show ?thesis by (intro exI [of _ ?e5]) (simp add: eval_nat_numeral)
qed

section \<open>The two tests of a single thread\<close>

text \<open>
  \<^verbatim>\<open>test_overflow\<close> and \<^verbatim>\<open>test_underflow\<close>, on five cells of characters: the lines that \<^verbatim>\<open>dequeue_and_print\<close> prints.
\<close>

definition dequeue_and_print :: "char ringbuf \<Rightarrow> string \<times> char ringbuf" where
  "dequeue_and_print r =
     (case ringbuf_dequeue (rb_os_ok 0) r of (rc, out, r') \<Rightarrow>
        (if rc < 0 then ''Underflow'' else ''Got '' @ (case out of None \<Rightarrow> [] | Some c \<Rightarrow> [c]), r'))"

fun enqueue_each :: "char ringbuf \<Rightarrow> string \<Rightarrow> char ringbuf" where
  "enqueue_each r [] = r"
| "enqueue_each r (c # cs) = enqueue_each (snd (ringbuf_enqueue (rb_os_ok 0) r c)) cs"

fun print_each :: "nat \<Rightarrow> char ringbuf \<Rightarrow> string list \<times> char ringbuf" where
  "print_each 0 r = ([], r)"
| "print_each (Suc n) r =
     (case dequeue_and_print r of (s, r1) \<Rightarrow> (case print_each n r1 of (ss, r2) \<Rightarrow> (s # ss, r2)))"

definition test_overflow :: "string list \<times> char ringbuf" where
  "test_overflow = print_each 1 (enqueue_each (ringbuf_init 5 (replicate 5 (CHR 0x00))) ''01234567'')"

definition test_underflow :: "string list \<times> char ringbuf" where
  "test_underflow = print_each 4 (enqueue_each (ringbuf_init 5 (replicate 5 (CHR 0x00))) ''012'')"

text \<open>What \<open>n\<close> calls print, by the contents: the entries in order, then underflows.\<close>

lemma print_each_contents:
  assumes "rb_shape r"
  shows "fst (print_each n r) =
    map (\<lambda>c. ''Got '' @ [c]) (take n (contents r)) @ replicate (n - length (contents r)) ''Underflow''"
  using assms
proof (induction n arbitrary: r)
  case (Suc n)
  obtain rc out r' where d: "ringbuf_dequeue (rb_os_ok 0) r = (rc, out, r')" by (metis prod_cases3)
  note s = dequeue_shape [OF Suc.prems d] and rc = dequeue_result [OF Suc.prems d]
  show ?case
  proof (cases "contents r")
    case Nil
    then show ?thesis using Suc.IH [of r'] s rc d by (auto simp: dequeue_and_print_def split: prod.split)
  next
    case (Cons c cs)
    then have "out = Some c" "contents r' = cs" using s(3,4) by (cases out; simp)+
    then show ?thesis using Suc.IH [OF s(1)] Cons rc d by (auto simp: dequeue_and_print_def split: prod.split)
  qed
qed simp

text \<open>Four of the eight entries are left, and the oldest of them comes first.\<close>

lemma overflow_prints: "fst test_overflow = [''Got 4'']"
  by (simp add: test_overflow_def dequeue_and_print_def ringbuf_init_def rb_eval)

lemma underflow_prints: "fst test_underflow = [''Got 0'', ''Got 1'', ''Got 2'', ''Underflow'']"
  by (simp add: test_underflow_def dequeue_and_print_def ringbuf_init_def rb_eval numeral_eq_Suc)

end
