(* ===== verification/Crc16.thy ===== *)
theory Crc16
  imports Cvos_Prelude
begin

text \<open>
  The three checksum routines: \<^verbatim>\<open>CRC16_CRCCCITT\<close> of \<^verbatim>\<open>vos.c\<close> (on signed \<^verbatim>\<open>char\<close>), its private copy
  \<^verbatim>\<open>_SumCRC16\<close> of \<^verbatim>\<open>msg.c\<close> (on \<^verbatim>\<open>unsigned char\<close>) and the byte-split \<^verbatim>\<open>utl_CalcCRC16\<close> of \<^verbatim>\<open>utils.c\<close>.
  The locale \<open>checksum\<close> is what the framing code relies on: a byte-wise state that changes
  injectively, so that no change of a single byte goes unnoticed.
\<close>

section \<open>Byte-wise checksums\<close>

locale checksum =
  fixes step :: "'s \<Rightarrow> u8 \<Rightarrow> 's"
  assumes step_inj_state: "step s b = step t b \<Longrightarrow> s = t"
    and step_inj_byte: "step s a = step s b \<Longrightarrow> a = b"
begin

lemma fold_inj_state: "foldl step s bs = foldl step t bs \<Longrightarrow> s = t"
  by (induction bs arbitrary: s t) (auto dest: step_inj_state)

lemma detects_byte:
  assumes "a \<noteq> b"
  shows "foldl step s (xs @ a # ys) \<noteq> foldl step s (xs @ b # ys)"
proof
  assume "foldl step s (xs @ a # ys) = foldl step s (xs @ b # ys)"
  then have "step (foldl step s xs) a = step (foldl step s xs) b"
    by (auto dest: fold_inj_state)
  with assms show False by (auto dest: step_inj_byte)
qed

lemma detects_update:
  assumes "k < length bs" "bs ! k \<noteq> b"
  shows "foldl step s (bs[k := b]) \<noteq> foldl step s bs"
  using detects_byte [OF assms(2), of s "take k bs" "drop (Suc k) bs"] assms(1)
  by (simp add: id_take_nth_drop [symmetric] upd_conv_take_nth_drop)

end

section \<open>CRC-CCITT\<close>

definition sum_bit :: "u8 \<Rightarrow> nat \<Rightarrow> u16 \<Rightarrow> u16" where
  "sum_bit b j wCRC =
     (let wTemp = ((push_bit j (ucast b) :: u16) AND 0x80) XOR drop_bit 8 (wCRC AND 0x8000);
          wCRC' = push_bit 1 wCRC
      in if wTemp \<noteq> 0 then wCRC' XOR 0x1021 else wCRC')"

definition sum_byte :: "u16 \<Rightarrow> u8 \<Rightarrow> u16" where
  "sum_byte wCRC b = fold (sum_bit b) [0..<8] wCRC"

definition SumCRC16 :: "u8 list \<Rightarrow> u16" where
  "SumCRC16 bs = foldl sum_byte 0xffff bs"

text \<open>The same loop on \<^verbatim>\<open>const char *\<close>: the byte is sign-extended before the shift.\<close>

definition ccitt_bit :: "u8 \<Rightarrow> nat \<Rightarrow> u16 \<Rightarrow> u16" where
  "ccitt_bit b j wCRC =
     (let wTemp = ((push_bit j (scast b) :: u16) AND 0x80) XOR drop_bit 8 (wCRC AND 0x8000);
          wCRC' = push_bit 1 wCRC
      in if wTemp \<noteq> 0 then wCRC' XOR 0x1021 else wCRC')"

definition CRC16_CRCCCITT :: "u8 list \<Rightarrow> u16" where
  "CRC16_CRCCCITT bs = foldl (\<lambda>c b. fold (ccitt_bit b) [0..<8] c) 0xffff bs"

section \<open>The shift register behind it\<close>

definition lfsr :: "u16 \<Rightarrow> u16" where
  "lfsr c = (if bit c 15 then push_bit 1 c XOR 0x1021 else push_bit 1 c)"

lemma bit_0x1021: "bit (0x1021 :: u16) n \<longleftrightarrow> n = 0 \<or> n = 5 \<or> n = 12"
proof -
  have "(0x1021 :: u16) = push_bit 0 1 OR push_bit 5 1 OR push_bit 12 1" by simp
  then show ?thesis by (simp only: bit_or_iff bit_push_bit_iff bit_1_iff) auto
qed

lemma lfsr_0 [simp]: "lfsr 0 = 0"
  by (simp add: lfsr_def)

lemma word_eq_0_bits: "(w :: 'a::len word) = 0 \<longleftrightarrow> (\<forall>n. \<not> bit w n)"
  by (auto intro: bit_word_eqI)

lemma bit_push16: "bit (push_bit k a :: u16) n \<longleftrightarrow> k \<le> n \<and> n < 16 \<and> bit a (n - k)"
  by (subst bit_push_bit_iff) auto

lemma bit_lfsr:
  "bit (lfsr c) n \<longleftrightarrow>
     (n \<noteq> 0 \<and> n < 16 \<and> bit c (n - 1)) \<noteq> (bit c 15 \<and> (n = 0 \<or> n = 5 \<or> n = 12))"
proof -
  have "bit (push_bit 1 c) n \<longleftrightarrow> n \<noteq> 0 \<and> n < 16 \<and> bit c (n - 1)"
    by (subst bit_push_bit_iff) auto
  then show ?thesis by (simp only: lfsr_def bit_xor_iff bit_0x1021 split: if_split) auto
qed

lemma lfsr_xor: "lfsr (a XOR b) = lfsr a XOR lfsr b"
  by (rule bit_word_eqI) (auto simp: bit_lfsr bit_xor_iff)

lemma xor_eq_0: "(a :: 'a::len word) XOR b = 0 \<Longrightarrow> a = b"
  by (metis xor.assoc xor.right_neutral xor_self_eq xor.left_neutral)

lemma lfsr_eq_0: "lfsr c = 0 \<Longrightarrow> c = 0"
proof (rule bit_word_eqI)
  fix n
  assume 0: "lfsr c = 0" and n: "n < LENGTH(16)"
  have bits: "\<not> bit (lfsr c) k" for k using 0 by simp
  have top: "\<not> bit c 15" using bits [of 0] by (simp add: bit_lfsr)
  show "bit c n = bit (0 :: u16) n"
    using bits [of "Suc n"] top n by (cases "n = 15") (auto simp: bit_lfsr)
qed

lemma lfsr_inj: "lfsr a = lfsr b \<Longrightarrow> a = b"
  by (rule xor_eq_0, rule lfsr_eq_0) (simp add: lfsr_xor)

definition lfsrs :: "nat \<Rightarrow> u16 \<Rightarrow> u16" where
  "lfsrs n = lfsr ^^ n"

lemma lfsrs_0 [simp]: "lfsrs 0 c = c"
  by (simp add: lfsrs_def)

lemma lfsrs_Suc: "lfsrs (Suc n) c = lfsr (lfsrs n c)"
  by (simp add: lfsrs_def)

lemma lfsrs_add: "lfsrs (m + n) c = lfsrs m (lfsrs n c)"
  by (simp add: lfsrs_def funpow_add)

lemma lfsrs_zero [simp]: "lfsrs n 0 = 0"
  by (induction n) (simp_all add: lfsrs_Suc)

lemma lfsrs_xor: "lfsrs n (a XOR b) = lfsrs n a XOR lfsrs n b"
  by (induction n) (simp_all add: lfsrs_Suc lfsr_xor)

lemma lfsrs_inj: "lfsrs n a = lfsrs n b \<Longrightarrow> a = b"
  by (induction n) (auto simp: lfsrs_Suc dest: lfsr_inj)

text \<open>While the top bits are clear the register only shifts.\<close>

lemma lfsrs_byte: "n \<le> 8 \<Longrightarrow> lfsrs n (ucast (b :: u8)) = push_bit n (ucast b)"
proof (induction n)
  case (Suc n)
  have "\<not> bit (push_bit n (ucast b) :: u16) 15"
    using Suc.prems by (auto simp: bit_push_bit_iff bit_ucast_iff dest: bit_imp_le_length)
  then have "lfsr (push_bit n (ucast b)) = push_bit (Suc n) (ucast b)"
    by (intro bit_word_eqI) (simp only: bit_lfsr bit_push16 bit_ucast_iff, auto dest: bit_imp_le_length)
  then show ?case using Suc by (simp add: lfsrs_Suc)
qed simp

text \<open>One byte of the loop is eight shifts of the state with the byte added at the top.\<close>

lemma sum_bit_lfsr:
  assumes "j < 8"
  shows "sum_bit b j c XOR push_bit (9 + j) (ucast b) = lfsr (c XOR push_bit (8 + j) (ucast b))"
proof -
  have wb: "bit ((push_bit j (ucast b) :: u16) AND 0x80) n \<longleftrightarrow> n = 7 \<and> bit b (7 - j)" for n
  proof -
    have "(0x80 :: u16) = push_bit 7 1" by simp
    then show ?thesis using assms
      by (simp only: bit_and_iff bit_push_bit_iff bit_ucast_iff bit_1_iff) auto
  qed
  have wc: "bit (drop_bit 8 (c AND 0x8000)) n \<longleftrightarrow> n = 7 \<and> bit c 15" for n
  proof -
    have e: "(0x8000 :: u16) = push_bit 15 1" by simp
    show ?thesis unfolding e by (simp only: bit_drop_bit_eq comp_def bit_and_iff bit_push16 bit_1_iff) auto
  qed
  let ?w = "((push_bit j (ucast b) :: u16) AND 0x80) XOR drop_bit 8 (c AND 0x8000)"
  have bw: "bit ?w n \<longleftrightarrow> n = 7 \<and> (bit b (7 - j) \<noteq> bit c 15)" for n
    unfolding bit_xor_iff wb wc by blast
  have w: "?w \<noteq> 0 \<longleftrightarrow> (bit b (7 - j) \<noteq> bit c 15)"
    unfolding word_eq_0_bits bw by blast
  have sb: "bit (sum_bit b j c) n \<longleftrightarrow> (n \<noteq> 0 \<and> n < 16 \<and> bit c (n - 1)) \<noteq>
      (bit b (7 - j) \<noteq> bit c 15 \<and> (n = 0 \<or> n = 5 \<or> n = 12))" for n
  proof -
    have "bit (push_bit 1 c) n \<longleftrightarrow> n \<noteq> 0 \<and> n < 16 \<and> bit c (n - 1)"
      by (subst bit_push_bit_iff) auto
    then show ?thesis by (simp only: sum_bit_def Let_def w bit_xor_iff bit_0x1021 split: if_split) auto
  qed
  have top: "bit (push_bit (8 + j) (ucast b) :: u16) 15 \<longleftrightarrow> bit b (7 - j)"
    using assms by (auto simp: bit_push_bit_iff bit_ucast_iff)
  have sh: "bit (push_bit (9 + j) (ucast b) :: u16) n \<longleftrightarrow>
      n \<noteq> 0 \<and> n < 16 \<and> bit (push_bit (8 + j) (ucast b) :: u16) (n - 1)" for n
    by (auto simp: bit_push_bit_iff bit_ucast_iff)
  show ?thesis
    by (rule bit_word_eqI) (auto simp only: bit_lfsr bit_xor_iff sb sh top)
qed

lemma sum_byte_lfsrs: "sum_byte c b = lfsrs 8 (c XOR push_bit 8 (ucast b))"
proof -
  have "fold (sum_bit b) [0..<n] c XOR push_bit (8 + n) (ucast b) =
      lfsrs n (c XOR push_bit 8 (ucast b))" if "n \<le> 8" for n
    using that
  proof (induction n)
    case (Suc n)
    then show ?case
      using sum_bit_lfsr [of n b "fold (sum_bit b) [0..<n] c"] by (simp add: lfsrs_Suc)
  qed simp
  moreover have "push_bit (8 + 8) (ucast b :: u16) = 0"
    by (rule bit_word_eqI) (simp only: bit_push16, simp)
  ultimately show ?thesis unfolding sum_byte_def by (metis order_refl xor.right_neutral)
qed

lemma xor_cancel: "(a :: 'a::len word) XOR c = b XOR c \<Longrightarrow> a = b"
  "(c :: 'a::len word) XOR a = c XOR b \<Longrightarrow> a = b"
  by (metis xor.assoc xor.commute xor.right_neutral xor_self_eq)+

lemma high_byte_inj: "push_bit 8 (ucast (a :: u8)) = (push_bit 8 (ucast (b :: u8)) :: u16) \<Longrightarrow> a = b"
proof (rule bit_word_eqI)
  fix n
  assume "push_bit 8 (ucast a) = (push_bit 8 (ucast b) :: u16)" and n: "n < LENGTH(8)"
  then have "bit (push_bit 8 (ucast a) :: u16) (8 + n) = bit (push_bit 8 (ucast b) :: u16) (8 + n)"
    by simp
  then show "bit a n = bit b n" using n by (simp only: bit_push16 bit_ucast_iff) auto
qed

interpretation ccitt: checksum sum_byte
  by unfold_locales
    (auto simp: sum_byte_lfsrs dest!: lfsrs_inj dest: xor_cancel high_byte_inj)

lemma foldl_two_bytes:
  "foldl sum_byte s [a, b] = lfsrs 16 (s XOR (push_bit 8 (ucast a) XOR ucast b))"
proof -
  have "lfsrs 16 (s XOR (push_bit 8 (ucast a) XOR ucast b)) =
      lfsrs 8 (lfsrs 8 (s XOR push_bit 8 (ucast a)) XOR lfsrs 8 (ucast b))"
    using lfsrs_add [of 8 8] by (simp add: lfsrs_xor xor.assoc)
  then show ?thesis by (simp add: sum_byte_lfsrs lfsrs_byte)
qed

lemma split_u16: "push_bit 8 (ucast (ucast (drop_bit 8 c) :: u8)) XOR ucast (ucast c :: u8) = (c :: u16)"
  by (rule bit_word_eqI)
    (simp only: bit_xor_iff bit_push16 bit_ucast_iff bit_drop_bit_eq comp_def, auto)

lemma two_bytes_inj:
  fixes a b c d :: u8
  assumes "push_bit 8 (ucast a) XOR ucast b = (push_bit 8 (ucast c) XOR ucast d :: u16)"
  shows "a = c \<and> b = d"
proof -
  have bits: "bit (push_bit 8 (ucast (x :: u8)) XOR ucast (y :: u8) :: u16) n \<longleftrightarrow>
      (if n < 8 then bit y n else n < 16 \<and> bit x (n - 8))" for x y n
    by (auto simp: bit_xor_iff bit_push16 bit_ucast_iff dest: bit_imp_le_length)
  have "bit a n = bit c n" if "n < 8" for n
    using assms bits [of a b "n + 8"] bits [of c d "n + 8"] that by simp
  moreover have "bit b n = bit d n" if "n < 8" for n
    using assms bits [of a b n] bits [of c d n] that by simp
  ultimately show ?thesis by (auto intro: bit_word_eqI)
qed

lemma signed_same: "ccitt_bit = sum_bit"
proof -
  have "(push_bit j (scast b) :: u16) AND 0x80 = push_bit j (ucast b) AND 0x80" for b :: u8 and j
  proof (rule bit_word_eqI)
    fix n
    have e: "(0x80 :: u16) = push_bit 7 1" by simp
    show "bit ((push_bit j (scast b) :: u16) AND 0x80) n = bit (push_bit j (ucast b) AND 0x80 :: u16) n"
      unfolding e by (simp only: bit_and_iff bit_push16 bit_1_iff bit_ucast_iff bit_signed_iff) auto
  qed
  then show ?thesis by (simp add: fun_eq_iff ccitt_bit_def sum_bit_def)
qed

section \<open>The byte-split CRC of \<^verbatim>\<open>utils.c\<close>\<close>

definition calc_bit :: "u8 \<times> u8 \<Rightarrow> u8 \<times> u8" where
  "calc_bit = (\<lambda>(CRC16Hi, CRC16Lo).
     let SaveHi = CRC16Hi; SaveLo = CRC16Lo;
         Hi = drop_bit 1 CRC16Hi;
         Lo = drop_bit 1 CRC16Lo;
         Lo' = (if SaveHi AND 1 = 1 then Lo OR 0x80 else Lo)
     in if SaveLo AND 1 = 1 then (Hi XOR 0xA0, Lo' XOR 0x01) else (Hi, Lo'))"

definition calc_byte :: "u8 \<times> u8 \<Rightarrow> u8 \<Rightarrow> u8 \<times> u8" where
  "calc_byte = (\<lambda>(hi, lo) b. (calc_bit ^^ 8) (hi, lo XOR b))"

definition utl_CalcCRC16 :: "u8 list \<Rightarrow> u8 \<times> u8" where
  "utl_CalcCRC16 p = foldl calc_byte (0xFF, 0xFF) p"

text \<open>Its specification: the reflected 16-bit register with polynomial \<open>0xA001\<close>.\<close>

definition rlfsr :: "u16 \<Rightarrow> u16" where
  "rlfsr c = (if bit c 0 then drop_bit 1 c XOR 0xA001 else drop_bit 1 c)"

definition crc_modbus :: "u8 list \<Rightarrow> u16" where
  "crc_modbus p = foldl (\<lambda>c b. (rlfsr ^^ 8) (c XOR ucast b)) 0xFFFF p"

definition hilo :: "u8 \<times> u8 \<Rightarrow> u16" where
  "hilo = (\<lambda>(hi, lo). push_bit 8 (ucast hi) XOR ucast lo)"

lemma bit_hilo: "bit (hilo (x, y)) n \<longleftrightarrow> (if n < 8 then bit y n else n < 16 \<and> bit x (n - 8))"
  by (auto simp: hilo_def bit_xor_iff bit_push16 bit_ucast_iff dest: bit_imp_le_length)

lemma bit_0xA001: "bit (0xA001 :: u16) n \<longleftrightarrow> n = 0 \<or> n = 13 \<or> n = 15"
proof -
  have e: "(0xA001 :: u16) = push_bit 0 1 OR push_bit 13 1 OR push_bit 15 1" by simp
  show ?thesis unfolding e by (simp only: bit_or_iff bit_push16 bit_1_iff) auto
qed

lemma bit_rlfsr:
  "bit (rlfsr c) n \<longleftrightarrow> bit c (Suc n) \<noteq> (bit c 0 \<and> (n = 0 \<or> n = 13 \<or> n = 15))"
proof -
  have d: "bit (drop_bit 1 c) n \<longleftrightarrow> bit c (Suc n)"
    by (simp only: bit_drop_bit_eq comp_def) simp
  show ?thesis by (simp only: rlfsr_def bit_xor_iff bit_0xA001 d split: if_split) auto
qed

lemma bit_0_odd8: "(w :: u8) AND 1 = 1 \<longleftrightarrow> bit w 0"
  by (simp add: and_one_eq bit_0 odd_iff_mod_2_eq_one)

lemma bit_calc_bit:
  "bit (fst (calc_bit (hi, lo))) n \<longleftrightarrow> bit hi (Suc n) \<noteq> (bit lo 0 \<and> (n = 5 \<or> n = 7))"
  "bit (snd (calc_bit (hi, lo))) n \<longleftrightarrow>
     (bit lo (Suc n) \<or> bit hi 0 \<and> n = 7) \<noteq> (bit lo 0 \<and> n = 0)"
proof -
  have d: "bit (drop_bit 1 w) k \<longleftrightarrow> bit w (Suc k)" for w :: u8 and k
    by (simp only: bit_drop_bit_eq comp_def) simp
  have c80: "bit (0x80 :: u8) k \<longleftrightarrow> k = 7" for k
  proof -
    have e: "(0x80 :: u8) = push_bit 7 1" by simp
    show ?thesis unfolding e by (simp only: bit_push_bit_iff bit_1_iff) auto
  qed
  have cA0: "bit (0xA0 :: u8) k \<longleftrightarrow> k = 5 \<or> k = 7" for k
  proof -
    have e: "(0xA0 :: u8) = push_bit 5 1 OR push_bit 7 1" by simp
    show ?thesis unfolding e by (simp only: bit_or_iff bit_push_bit_iff bit_1_iff) auto
  qed
  have c1: "bit (0x01 :: u8) k \<longleftrightarrow> k = 0" for k by (simp add: bit_1_iff)
  show "bit (fst (calc_bit (hi, lo))) n \<longleftrightarrow> bit hi (Suc n) \<noteq> (bit lo 0 \<and> (n = 5 \<or> n = 7))"
    "bit (snd (calc_bit (hi, lo))) n \<longleftrightarrow>
       (bit lo (Suc n) \<or> bit hi 0 \<and> n = 7) \<noteq> (bit lo 0 \<and> n = 0)"
    by (simp_all only: calc_bit_def Let_def prod.case bit_0_odd8 fst_conv snd_conv bit_xor_iff
        bit_or_iff d c80 cA0 c1 split: if_split) blast+
qed

lemma hilo_calc_bit: "hilo (calc_bit p) = rlfsr (hilo p)"
proof -
  obtain hi lo where p: "p = (hi, lo)" by (cases p)
  have out: "\<not> bit hi k" "\<not> bit lo k" if "8 \<le> k" for k
    using that by (auto dest: bit_imp_le_length)
  have h: "bit (hilo q) k \<longleftrightarrow> (if k < 8 then bit (snd q) k else k < 16 \<and> bit (fst q) (k - 8))" for q k
    by (cases q) (simp add: bit_hilo)
  have "bit (hilo (calc_bit p)) n = bit (rlfsr (hilo p)) n" if n: "n < 16" for n
  proof -
    consider "n < 7" | "n = 7" | "8 \<le> n" "n < 15" | "n = 15" using n by linarith
    then show ?thesis
    proof cases
      case 3
      then have "Suc n - 8 = Suc (n - 8)" by simp
      then show ?thesis using 3 by (auto simp: p h bit_rlfsr bit_calc_bit)
    qed (auto simp: p h bit_rlfsr bit_calc_bit out)
  qed
  then show ?thesis by (intro bit_word_eqI) simp
qed

lemma rlfsr_xor: "rlfsr (a XOR b) = rlfsr a XOR rlfsr b"
  by (rule bit_word_eqI) (auto simp: bit_rlfsr bit_xor_iff)

lemma rlfsr_inj: "rlfsr a = rlfsr b \<Longrightarrow> a = b"
proof (rule xor_eq_0, rule bit_word_eqI)
  fix n
  assume "rlfsr a = rlfsr b"
  then have "rlfsr (a XOR b) = 0" by (simp add: rlfsr_xor)
  then have bits: "\<not> bit (rlfsr (a XOR b)) k" for k by simp
  have 0: "\<not> bit (a XOR b) 0" using bits [of 15] by (auto simp: bit_rlfsr dest: bit_imp_le_length)
  then show "bit (a XOR b) n = bit (0 :: u16) n"
    using bits [of "n - 1"] by (cases n) (auto simp: bit_rlfsr)
qed

lemma rlfsrs_inj: "(rlfsr ^^ n) a = (rlfsr ^^ n) b \<Longrightarrow> a = b"
  by (induction n) (auto dest: rlfsr_inj)

lemma hilo_inj: "hilo p = hilo q \<Longrightarrow> p = q"
  by (cases p, cases q) (auto simp: hilo_def dest: two_bytes_inj)

lemma hilo_calc_bits: "hilo ((calc_bit ^^ n) p) = (rlfsr ^^ n) (hilo p)"
  by (induction n) (simp_all add: hilo_calc_bit)

lemma hilo_calc_byte: "hilo (calc_byte p b) = (rlfsr ^^ 8) (hilo p XOR ucast b)"
proof -
  obtain hi lo where p: "p = (hi, lo)" by (cases p)
  have "hilo (hi, lo XOR b) = hilo (hi, lo) XOR ucast b"
    by (rule bit_word_eqI) (auto simp: bit_hilo bit_xor_iff bit_ucast_iff dest: bit_imp_le_length)
  then show ?thesis by (simp only: p calc_byte_def prod.case hilo_calc_bits)
qed

lemma ucast_byte_inj: "ucast (a :: u8) = (ucast b :: u16) \<Longrightarrow> a = b"
  using hilo_inj [of "(0, a)" "(0, b)"] by (simp add: hilo_def)

interpretation modbus: checksum calc_byte
proof
  fix s t :: "u8 \<times> u8" and b
  assume "calc_byte s b = calc_byte t b"
  then have "(rlfsr ^^ 8) (hilo s XOR ucast b) = (rlfsr ^^ 8) (hilo t XOR ucast b)"
    using hilo_calc_byte [of s b] hilo_calc_byte [of t b] by simp
  then show "s = t" by (blast dest: rlfsrs_inj xor_cancel(1) hilo_inj)
next
  fix s :: "u8 \<times> u8" and a b
  assume "calc_byte s a = calc_byte s b"
  then have "(rlfsr ^^ 8) (hilo s XOR ucast a) = (rlfsr ^^ 8) (hilo s XOR ucast b)"
    using hilo_calc_byte [of s a] hilo_calc_byte [of s b] by simp
  then show "a = b" by (blast dest: rlfsrs_inj xor_cancel(2) ucast_byte_inj)
qed

lemma calc_foldl: "hilo (foldl calc_byte p bs) = foldl (\<lambda>c b. (rlfsr ^^ 8) (c XOR ucast b)) (hilo p) bs"
  by (induction bs arbitrary: p) (simp_all only: foldl.simps hilo_calc_byte)

section \<open>Properties\<close>

text \<open>
  The two copies of the CRC-CCITT loop agree (the sign extension of \<^verbatim>\<open>char\<close> in
  \<^verbatim>\<open>CRC16_CRCCCITT\<close> does not matter), and a message followed by its own checksum, high byte
  first, has checksum 0: the routine is the remainder of a polynomial division.
\<close>

lemma crc_ccitt_residue:
  "CRC16_CRCCCITT bs = SumCRC16 bs \<and>
   SumCRC16 (bs @ [ucast (drop_bit 8 (SumCRC16 bs)), ucast (SumCRC16 bs)]) = 0"
proof -
  have "SumCRC16 (bs @ [ucast (drop_bit 8 (SumCRC16 bs)), ucast (SumCRC16 bs)]) =
      foldl sum_byte (SumCRC16 bs) [ucast (drop_bit 8 (SumCRC16 bs)), ucast (SumCRC16 bs)]"
    by (simp only: SumCRC16_def foldl_append)
  also have "\<dots> = 0" by (simp only: foldl_two_bytes split_u16 xor_self_eq lfsrs_zero)
  finally show ?thesis
    by (simp add: CRC16_CRCCCITT_def SumCRC16_def signed_same sum_byte_def [abs_def])
qed

text \<open>
  C39: CRC-CCITT detects every burst of at most two adjacent bytes: two messages that differ in
  one pair of neighbouring bytes, and nowhere else, have different checksums.
\<close>

theorem crc_ccitt_detects_burst:
  assumes "[a, b] \<noteq> [c, d]"
  shows "SumCRC16 (xs @ [a, b] @ ys) \<noteq> SumCRC16 (xs @ [c, d] @ ys)"
proof
  assume "SumCRC16 (xs @ [a, b] @ ys) = SumCRC16 (xs @ [c, d] @ ys)"
  then have "foldl sum_byte (foldl sum_byte 0xffff xs) [a, b] =
      foldl sum_byte (foldl sum_byte 0xffff xs) [c, d]"
    unfolding SumCRC16_def foldl_append by (rule ccitt.fold_inj_state)
  then have "push_bit 8 (ucast a) XOR ucast b = (push_bit 8 (ucast c) XOR ucast d :: u16)"
    unfolding foldl_two_bytes by (rule xor_cancel(2) [OF lfsrs_inj])
  with assms two_bytes_inj show False by auto
qed

theorem crc_ccitt_detects_burst_witness: "SumCRC16 [1, 2, 3, 4] \<noteq> SumCRC16 [1, 5, 6, 4]"
  using crc_ccitt_detects_burst [of 2 3 5 6 "[1]" "[4]"] by simp

text \<open>
  C40: \<^verbatim>\<open>utl_CalcCRC16\<close>, which shifts two separate bytes and carries a bit between them by hand,
  computes the standard reflected 16-bit CRC with polynomial \<open>0xA001\<close> (Modbus), high and low
  byte of it being its two results.
\<close>

theorem calc_crc16_is_modbus: "hilo (utl_CalcCRC16 p) = crc_modbus p"
proof -
  have "hilo (0xFF, 0xFF) = 0xFFFF" by (simp add: hilo_def)
  then show ?thesis by (simp only: utl_CalcCRC16_def crc_modbus_def calc_foldl)
qed

end
