(* ===== verification/Frame_Codec.thy ===== *)
theory Frame_Codec
  imports Cvos_Prelude
begin

text \<open>
  The contract of a self-delimiting frame format: a decoder recovers the message from the frame
  and from whatever bytes follow it. What the users of a byte stream rely on is derived here once:
  no frame is a prefix of another, and a stream of frames has one reading only.
\<close>

locale frame_codec =
  fixes enc :: "'m \<Rightarrow> u8 list" and dec :: "u8 list \<Rightarrow> 'm option" and ok :: "'m \<Rightarrow> bool"
  assumes dec_enc: "ok m \<Longrightarrow> dec (enc m @ r) = Some m"
    and enc_nonempty: "ok m \<Longrightarrow> enc m \<noteq> []"
begin

lemma same_start:
  assumes "ok m" "ok m'" "enc m @ r = enc m' @ r'"
  shows "m = m' \<and> r = r'"
proof -
  have "Some m = Some m'" using dec_enc [OF assms(1), of r] dec_enc [OF assms(2), of r'] assms(3) by simp
  then show ?thesis using assms(3) by simp
qed

lemma prefix_free:
  assumes "ok m" "ok m'" "enc m' = enc m @ r"
  shows "m' = m \<and> r = []"
  using same_start [OF assms(2,1), of "[]" r] assms(3) by simp

lemma stream_unique:
  assumes "list_all ok ms" "list_all ok ms'" "concat (map enc ms) = concat (map enc ms')"
  shows "ms = ms'"
  using assms
proof (induction ms arbitrary: ms')
  case Nil
  then show ?case by (cases ms') (auto dest: enc_nonempty)
next
  case (Cons m ms)
  then obtain m' ns where ms': "ms' = m' # ns" by (cases ms') (auto dest: enc_nonempty)
  with Cons.prems have "m = m' \<and> concat (map enc ms) = concat (map enc ns)"
    by (intro same_start) simp_all
  with Cons ms' show ?case by simp
qed

end

end
