(* ===== verification/Msg.thy ===== *)
theory Msg
  imports Crc16 Frame_Codec
begin

text \<open>
  \<^verbatim>\<open>msg.c\<close>: the text frame (\<^verbatim>\<open>@@\<close>, version, body, checksum when the version is \<^verbatim>\<open>'2'\<close>, \<^verbatim>\<open>##\<close>),
  the binary frame (\<^verbatim>\<open>0xAA\<close>, version, serial number, length, body, checksum when the version is
  2). Pointers that the code tests against \<^verbatim>\<open>NULL\<close> are options; a buffer is its
  list of bytes. A body string is given without its terminator and contains no NUL.
\<close>

section \<open>Text frames\<close>

abbreviation at_sign :: u8 where "at_sign \<equiv> 0x40"
abbreviation hash_sign :: u8 where "hash_sign \<equiv> 0x23"
abbreviation ver_two :: u8 where "ver_two \<equiv> 0x32"

definition crc_bytes :: "u16 \<Rightarrow> u8 list" where
  "crc_bytes c = [ucast (drop_bit 8 c AND 0xFF), ucast (c AND 0xFF)]"

definition MSG_PackMsg ::
  "u8 \<Rightarrow> u8 list option \<Rightarrow> u8 list option \<Rightarrow> (int \<times> u8 list option) cres" where
  "MSG_PackMsg ver body MsgBuf =
     (case (body, MsgBuf) of
        (Some b, Some m) \<Rightarrow>
          cbind (buf_write m 0 ([at_sign, at_sign, ver] @ b @ [0])) (\<lambda>m1.
          let len = length b in
          if ver = ver_two then
            cbind (buf_write m1 (len + 3) (crc_bytes (SumCRC16 b) @ [hash_sign, hash_sign]))
              (\<lambda>m2. Inr (int len + 7, Some m2))
          else
            cbind (buf_write m1 (len + 3) [hash_sign, hash_sign])
              (\<lambda>m2. Inr (int len + 5, Some m2)))
      | _ \<Rightarrow> Inr (-1, MsgBuf))"

text \<open>
  What \<^verbatim>\<open>MSG_UnPackMsg\<close> leaves behind: its result, the version when it was stored, and the
  body buffer. \<^verbatim>\<open>len\<close> is an \<^verbatim>\<open>int\<close> that becomes an unsigned count in the calls of \<^verbatim>\<open>_SumCRC16\<close>
  (32 bits) and of \<^verbatim>\<open>strncpy\<close> (64 bits).
\<close>

record unpacked =
  up_ret :: int
  up_ver :: "u8 option"
  up_body :: "u8 list"

definition MSG_UnPackMsg ::
  "bool \<Rightarrow> u8 list option \<Rightarrow> u8 list option \<Rightarrow> unpacked cres" where
  "MSG_UnPackMsg ver_nonnull body MsgBuf =
     (case (body, MsgBuf) of
        (Some b, Some m) \<Rightarrow>
          if \<not> ver_nonnull then Inr \<lparr>up_ret = -1, up_ver = None, up_body = b\<rparr> else
          let fail = (\<lambda>rc. Inr \<lparr>up_ret = rc, up_ver = None, up_body = b\<rparr>);
              copy = (\<lambda>protocol len.
                cbind (buf_strncpy b (drop 3 m) (nat (len mod 2 ^ 64))) (\<lambda>b'.
                Inr \<lparr>up_ret = len, up_ver = Some protocol, up_body = b'\<rparr>))
          in
          cbind (buf_read m 0) (\<lambda>c0.
          if c0 \<noteq> at_sign then fail (-2) else
          cbind (buf_read m 1) (\<lambda>c1.
          if c1 \<noteq> at_sign then fail (-2) else
          cbind (buf_read m 2) (\<lambda>protocol.
          cbind (buf_strlen m) (\<lambda>slen.
          if protocol = ver_two then
            let len = int slen - 7 in
            cbind (buf_slice m 3 (nat (len mod 2 ^ 32))) (\<lambda>bs.
            cbind (buf_read m (nat (len + 3))) (\<lambda>hi.
            cbind (buf_read m (nat (len + 4))) (\<lambda>lo.
            let sum = SumCRC16 bs;
                crc16 = push_bit 8 (ucast hi) OR ucast lo
            in if sum \<noteq> crc16 then fail (-3) else copy protocol len)))
          else copy protocol (int slen - 5)))))
      | (b, _) \<Rightarrow> Inr \<lparr>up_ret = -1, up_ver = None, up_body = (case b of None \<Rightarrow> [] | Some b' \<Rightarrow> b')\<rparr>)"

section \<open>Binary frames\<close>

definition MSG_PackHex ::
  "u8 \<Rightarrow> u8 \<Rightarrow> u8 list option \<Rightarrow> u32 \<Rightarrow> u8 list option \<Rightarrow> (u32 \<times> u8 list option) cres" where
  "MSG_PackHex ver sn body len MsgBuf =
     (case (body, MsgBuf) of
        (Some b, Some m) \<Rightarrow>
          cbind (buf_slice b 0 (unat len)) (\<lambda>bs.
          cbind (buf_write m 0 ([0xAA, ver, sn, ucast len] @ bs)) (\<lambda>m1.
          if ver = 2 then
            cbind (buf_write m1 (unat (len + 4)) (crc_bytes (SumCRC16 bs)))
              (\<lambda>m2. Inr (len + 4 + 2, Some m2))
          else Inr (len + 4, Some m1)))
      | _ \<Rightarrow> Inr (0, MsgBuf))"

record unpacked_hex =
  uh_ret :: int
  uh_ver :: "u8 option"
  uh_sn :: "u8 option"
  uh_body :: "u8 list"

text \<open>The version and the serial number are stored before the checksum is looked at.\<close>

definition MSG_UnPackHex ::
  "bool \<Rightarrow> bool \<Rightarrow> u8 list option \<Rightarrow> u8 list option \<Rightarrow> unpacked_hex cres" where
  "MSG_UnPackHex ver_nonnull sn_nonnull body MsgBuf =
     (case (body, MsgBuf) of
        (Some b, Some m) \<Rightarrow>
          if \<not> (ver_nonnull \<and> sn_nonnull)
          then Inr \<lparr>uh_ret = -1, uh_ver = None, uh_sn = None, uh_body = b\<rparr> else
          cbind (buf_read m 0) (\<lambda>c0.
          if c0 \<noteq> 0xAA then Inr \<lparr>uh_ret = -2, uh_ver = None, uh_sn = None, uh_body = b\<rparr> else
          cbind (buf_read m 1) (\<lambda>protocol.
          cbind (buf_read m 2) (\<lambda>sn.
          cbind (buf_read m 3) (\<lambda>l.
          let len = unat l;
              copy = cbind (buf_slice m 4 len) (\<lambda>bs.
                cbind (buf_write b 0 bs) (\<lambda>b'.
                Inr \<lparr>uh_ret = int len, uh_ver = Some protocol, uh_sn = Some sn, uh_body = b'\<rparr>))
          in
          if protocol = 2 then
            cbind (buf_slice m 4 len) (\<lambda>bs.
            cbind (buf_read m (len + 4)) (\<lambda>hi.
            cbind (buf_read m (len + 5)) (\<lambda>lo.
            if SumCRC16 bs \<noteq> push_bit 8 (ucast hi) OR ucast lo
            then Inr \<lparr>uh_ret = -3, uh_ver = Some protocol, uh_sn = Some sn, uh_body = b\<rparr>
            else copy)))
          else copy))))
      | (b, _) \<Rightarrow> Inr \<lparr>uh_ret = -1, uh_ver = None, uh_sn = None,
                    uh_body = (case b of None \<Rightarrow> [] | Some b' \<Rightarrow> b')\<rparr>)"

section \<open>What a packed frame looks like\<close>

lemma length_crc_bytes [simp]: "length (crc_bytes c) = 2"
  by (simp add: crc_bytes_def)

lemma crc_bytes_join:
  "crc_bytes c = [hi, lo] \<Longrightarrow> push_bit 8 (ucast hi) OR ucast lo = c"
proof -
  assume "crc_bytes c = [hi, lo]"
  then have e: "hi = ucast (drop_bit 8 c AND 0xFF)" "lo = ucast (c AND 0xFF)"
    by (simp_all add: crc_bytes_def)
  have m: "bit (0xFF :: u16) n \<longleftrightarrow> n < 8" for n
  proof -
    have "(0xFF :: u16) = mask 8" by (simp add: mask_eq_exp_minus_1)
    then show ?thesis by (simp only: bit_mask_iff) auto
  qed
  show ?thesis unfolding e
    by (rule bit_word_eqI)
      (simp only: bit_or_iff bit_push16 bit_ucast_iff bit_and_iff bit_drop_bit_eq comp_def m, auto)
qed

lemma crc_bytes_obtain:
  obtains hi lo where "crc_bytes c = [hi, lo]" "push_bit 8 (ucast hi) OR ucast lo = c"
  using crc_bytes_join [of c] by (auto simp: crc_bytes_def)

definition text_frame :: "u8 \<Rightarrow> u8 list \<Rightarrow> u8 list" where
  "text_frame ver b =
     [at_sign, at_sign, ver] @ b @ (if ver = ver_two then crc_bytes (SumCRC16 b) else []) @
     [hash_sign, hash_sign]"

lemma length_text_frame:
  "length (text_frame ver b) = length b + (if ver = ver_two then 7 else 5)"
  by (simp add: text_frame_def)

lemma PackMsg_Inr:
  assumes "MSG_PackMsg ver (Some b) (Some m) = Inr (n, Some m')"
  shows "n = int (length (text_frame ver b)) \<and> length m' = length m \<and>
    m' = text_frame ver b @ drop (length (text_frame ver b)) m"
proof -
  let ?pre = "[at_sign, at_sign, ver] @ b"
  let ?tail = "(if ver = ver_two then crc_bytes (SumCRC16 b) else []) @ [hash_sign, hash_sign]"
  obtain m1 where m1: "length (?pre @ [0]) \<le> length m" "m1 = (?pre @ [0]) @ drop (length (?pre @ [0])) m"
    and m2: "buf_write m1 (length b + 3) ?tail = Inr m'"
    and n: "n = int (length (text_frame ver b))"
    using assms
    by (auto simp: MSG_PackMsg_def cbind_Inr_iff buf_write_Inr Let_def length_text_frame
        split: if_splits)
  have "take (length b + 3) m1 = ?pre" using m1 by (simp add: eval_nat_numeral)
  moreover have "drop (length b + 3 + length ?tail) m1 = drop (length b + 3 + length ?tail) m"
    using m1(2) by (simp add: eval_nat_numeral)
  moreover have "length m1 = length m" using m1 by simp
  ultimately have "m' = ?pre @ ?tail @ drop (length b + 3 + length ?tail) m"
    "length b + 3 + length ?tail \<le> length m"
    using m2 by (auto simp: buf_write_Inr)
  then show ?thesis using n by (auto simp: text_frame_def eval_nat_numeral)
qed

lemma text_frame_nonzero:
  assumes "0 \<notin> set b" "ver \<noteq> 0" "ver = ver_two \<longrightarrow> 0 \<notin> set (crc_bytes (SumCRC16 b))"
  shows "0 \<notin> set (text_frame ver b)"
  using assms by (auto simp: text_frame_def)

lemma text_frame_reads:
  assumes "m = text_frame ver b @ r"
  shows "buf_read m 0 = Inr at_sign" "buf_read m (Suc 0) = Inr at_sign" "buf_read m 2 = Inr ver"
    and "buf_slice m 3 (length b) = Inr b" and "take (length b) (drop 3 m) = b"
    and "ver = ver_two \<Longrightarrow> crc_bytes (SumCRC16 b) = [hi, lo] \<Longrightarrow>
      buf_read m (length b + 3) = Inr hi \<and> buf_read m (length b + 4) = Inr lo"
  using assms
  by (auto simp: text_frame_def buf_read_def buf_slice_def nth_append eval_nat_numeral)

lemma strncpy_body:
  assumes "0 \<notin> set b" "take (length b) s = b" "length b \<le> length b0"
  shows "buf_strncpy b0 s (length b) = Inr (b @ drop (length b) b0)"
proof -
  have "takeWhile (\<lambda>x. x \<noteq> 0) b = b"
    unfolding takeWhile_eq_all_conv using assms(1) by metis
  moreover have "length b \<le> length s" using assms(2) by (metis length_take min.cobounded1)
  ultimately show ?thesis using assms(2,3) by (simp only: buf_strncpy_def Let_def) simp
qed

lemma int_mod_small: "int n < k \<Longrightarrow> nat (int n mod k) = n"
  by simp

lemma UnPackMsg_frame:
  assumes m: "m = text_frame ver b @ 0 # r" and b: "0 \<notin> set b" "length b < 2 ^ 31" "ver \<noteq> 0"
    and crc: "ver = ver_two \<longrightarrow> 0 \<notin> set (crc_bytes (SumCRC16 b))" and b0: "length b \<le> length b0"
  shows "MSG_UnPackMsg True (Some b0) (Some m) =
    Inr \<lparr>up_ret = int (length b), up_ver = Some ver, up_body = b @ drop (length b) b0\<rparr>"
proof -
  obtain hi lo where hl: "crc_bytes (SumCRC16 b) = [hi, lo]"
    "push_bit 8 (ucast hi) OR ucast lo = SumCRC16 b" by (rule crc_bytes_obtain)
  have reads: "buf_read m 0 = Inr at_sign" "buf_read m 1 = Inr at_sign" "buf_read m 2 = Inr ver"
    "buf_slice m 3 (length b) = Inr b"
    "ver = ver_two \<Longrightarrow> buf_read m (length b + 3) = Inr hi"
    "ver = ver_two \<Longrightarrow> buf_read m (length b + 4) = Inr lo"
    using text_frame_reads [OF m] hl(1) by auto
  have sl: "buf_strlen m = Inr (length (text_frame ver b))"
    unfolding m by (rule buf_strlen_append) (rule text_frame_nonzero [OF b(1,3) crc])
  have cp: "buf_strncpy b0 (drop 3 m) (length b) = Inr (b @ drop (length b) b0)"
    by (rule strncpy_body [OF b(1) text_frame_reads(5) [OF m] b0])
  have n: "nat (int (length b) mod 2 ^ 64) = length b" "nat (int (length b) mod 2 ^ 32) = length b"
    using b(2) by (simp_all add: nat_mod_distrib)
  have p: "nat (int (length b) + 3) = length b + 3" "nat (int (length b) + 4) = length b + 4" by simp_all
  show ?thesis
    by (cases "ver = ver_two")
      (simp_all only: MSG_UnPackMsg_def prod.case option.case reads sl cp n p hl(2) cbind.simps
        Let_def length_text_frame not_True_eq_False if_False if_True simp_thms of_nat_add
        of_nat_numeral add_diff_cancel_right')
qed

lemma strlen_short:
  assumes "m = pre @ 0 # suf"
  shows "\<exists>n. buf_strlen m = Inr n \<and> n \<le> length pre"
proof -
  have "length (takeWhile (\<lambda>b. b \<noteq> 0) m) \<le> length pre" unfolding assms by (induction pre) auto
  moreover have "0 \<in> set m" using assms by simp
  ultimately show ?thesis by (auto simp: buf_strlen_def)
qed

lemma crc_zero_short:
  assumes m: "m = text_frame ver_two b @ r" and z: "0 \<in> set (crc_bytes (SumCRC16 b))"
  shows "\<exists>n. buf_strlen m = Inr n \<and> n < length b + 7"
proof -
  obtain xs ys where c: "crc_bytes (SumCRC16 b) = xs @ 0 # ys" using split_list [OF z] by auto
  then have "length (xs @ 0 # ys) = 2" by (metis length_crc_bytes)
  then have l: "length xs < 2" by simp
  have "m = ([at_sign, at_sign, ver_two] @ b @ xs) @ 0 # (ys @ [hash_sign, hash_sign] @ r)"
    unfolding m text_frame_def by (simp add: c)
  from strlen_short [OF this] l show ?thesis by auto
qed

lemma UnPackMsg_two_ret:
  assumes "MSG_UnPackMsg True (Some b0) (Some m) = Inr u" "buf_strlen m = Inr n"
    "buf_read m 2 = Inr ver_two"
  shows "up_ret u = int n - 7 \<or> up_ret u < 0"
proof (rule ccontr)
  assume "\<not> ?thesis"
  with assms show False
    by (auto simp: MSG_UnPackMsg_def cbind_Inr_iff Let_def split: if_splits)
qed

text \<open>
  the text frame of a body that \<^verbatim>\<open>MSG_PackMsg\<close> builds in a zeroed buffer is read back by
  \<^verbatim>\<open>MSG_UnPackMsg\<close> as that body and version exactly when no byte of its checksum is zero: a zero
  checksum byte ends the string that \<^verbatim>\<open>strlen\<close> measures, and such frames are lost.
\<close>

lemma text_frame_roundtrip:
  assumes "MSG_PackMsg ver (Some b) (Some (replicate k 0)) = Inr (n, Some m)" "nat n < k"
    and "0 \<notin> set b" "length b < 2 ^ 31" "ver \<noteq> 0" "length b \<le> length b0"
  shows "(\<exists>u. MSG_UnPackMsg True (Some b0) (Some m) = Inr u \<and> up_ret u = int (length b) \<and>
            up_ver u = Some ver \<and> take (length b) (up_body u) = b)
         \<longleftrightarrow> (ver = ver_two \<longrightarrow> 0 \<notin> set (crc_bytes (SumCRC16 b)))"
proof -
  let ?l = "length (text_frame ver b)"
  have f: "n = int ?l" "m = text_frame ver b @ drop ?l (replicate k 0)"
    using PackMsg_Inr [OF assms(1)] by simp_all
  have "drop ?l (replicate k 0) = 0 # (replicate (k - Suc ?l) 0 :: u8 list)"
    using assms(2) f(1) by (simp add: Suc_diff_Suc flip: replicate_Suc)
  then have m: "m = text_frame ver b @ 0 # replicate (k - Suc ?l) 0" using f(2) by simp
  show ?thesis (is "?L \<longleftrightarrow> ?R")
  proof
    assume ?R
    from UnPackMsg_frame [OF m assms(3,4,5) this assms(6)] show ?L by simp
  next
    assume ?L
    then obtain u where u: "MSG_UnPackMsg True (Some b0) (Some m) = Inr u" "up_ret u = int (length b)"
      by blast
    show ?R
    proof (rule ccontr)
      assume "\<not> ?R"
      then have v: "ver = ver_two" and z: "0 \<in> set (crc_bytes (SumCRC16 b))" by auto
      obtain j where j: "buf_strlen m = Inr j" "j < length b + 7"
        using crc_zero_short [OF m [unfolded v] z] by blast
      have "buf_read m 2 = Inr ver_two" using text_frame_reads(3) [OF m] v by simp
      from UnPackMsg_two_ret [OF u(1) j(1) this] j(2) u(2) show False by auto
    qed
  qed
qed

lemma text_frame_roundtrip_witness:
  "\<not> (\<exists>u. MSG_UnPackMsg True (Some [0]) (Some [0x40, 0x40, 0x32, 0x0E, 0x00, 0x3E, 0x23, 0x23, 0, 0])
        = Inr u \<and> up_ret u = 1 \<and> up_ver u = Some 0x32 \<and> take 1 (up_body u) = [0x0E])"
proof -
  have c: "SumCRC16 [0x0E] = 0x003E" by code_simp
  have p: "MSG_PackMsg 0x32 (Some [0x0E]) (Some (replicate 10 0)) =
      Inr (8, Some [0x40, 0x40, 0x32, 0x0E, 0x00, 0x3E, 0x23, 0x23, 0, 0])"
    by code_simp
  have z: "0 \<in> set (crc_bytes (0x003E :: u16))" by code_simp
  show ?thesis
    using text_frame_roundtrip [OF p, of "[0]"] z by (simp add: c)
qed

lemma neg_mod: "x < 0 \<Longrightarrow> - k \<le> x \<Longrightarrow> x mod k = x + (k :: int)"
  by (metis add.commute add_0 add_less_cancel_left le_add_diff_inverse2 mod_add_self2 mod_pos_pos_trivial
      add_diff_cancel_left' diff_minus_eq_add diff_ge_0_iff_ge)

text \<open>
  a received string that starts like a text frame but is shorter than the framing around
  an empty body (7 characters for version \<^verbatim>\<open>'2'\<close>, 5 otherwise) is not rejected: the length
  becomes negative, is taken as an unsigned count, and \<^verbatim>\<open>MSG_UnPackMsg\<close> runs out of its buffers.
\<close>

lemma text_frame_truncated:
  assumes "m = [at_sign, at_sign] @ s @ 0 # r" "0 \<notin> set s"
    and "length s < (if take 1 s = [ver_two] then 5 else 3)"
    and "length m < 2 ^ 31" "length b0 < 2 ^ 31"
  shows "MSG_UnPackMsg True (Some b0) (Some m) = Inl Out_Of_Bounds"
proof -
  have sl: "buf_strlen m = Inr (length s + 2)"
    using buf_strlen_append [of "[at_sign, at_sign] @ s" r] assms(1,2) by simp
  have rd: "buf_read m 0 = Inr at_sign" "buf_read m 1 = Inr at_sign"
    "buf_read m 2 = Inr (hd (s @ [0]))"
    using assms(1) by (cases s; simp add: buf_read_def)+
  have two: "hd (s @ [0]) = ver_two \<longleftrightarrow> take 1 s = [ver_two]" by (cases s) auto
  show ?thesis
  proof (cases "take 1 s = [ver_two]")
    case True
    then have "int (length s + 2) - 7 < 0" using assms(3) by simp
    then have "(int (length s + 2) - 7) mod 2 ^ 32 = int (length s + 2) - 7 + 2 ^ 32"
      by (rule neg_mod) simp
    then have "length m < 3 + nat ((int (length s + 2) - 7) mod 2 ^ 32)" using assms(4) by simp
    then have "buf_slice m 3 (nat ((int (length s + 2) - 7) mod 2 ^ 32)) = Inl Out_Of_Bounds"
      by (simp add: buf_slice_def)
    with True two show ?thesis
      by (simp only: MSG_UnPackMsg_def Let_def prod.case option.case rd sl cbind.simps simp_thms if_False if_True
          not_True_eq_False)
  next
    case False
    then have "int (length s + 2) - 5 < 0" using assms(3) by simp
    then have "(int (length s + 2) - 5) mod 2 ^ 64 = int (length s + 2) - 5 + 2 ^ 64"
      by (rule neg_mod) simp
    then have "length b0 < nat ((int (length s + 2) - 5) mod 2 ^ 64)" using assms(5) by simp
    then have "buf_strncpy b0 (drop 3 m) (nat ((int (length s + 2) - 5) mod 2 ^ 64)) = Inl Out_Of_Bounds"
      by (simp add: buf_strncpy_def)
    with False two show ?thesis
      by (simp only: MSG_UnPackMsg_def Let_def prod.case option.case rd sl cbind.simps simp_thms if_False if_True
          not_True_eq_False)
  qed
qed

lemma text_frame_truncated_witness:
  "MSG_UnPackMsg True (Some [0, 0, 0, 0]) (Some [0x40, 0x40, 0x31, 0x23, 0]) = Inl Out_Of_Bounds"
  by (rule text_frame_truncated [of _ "[0x31, 0x23]" "[]"]) simp_all

section \<open>Binary frames: what is sent, and what is read back\<close>

definition hex_frame :: "u8 \<Rightarrow> u8 \<Rightarrow> u8 list \<Rightarrow> u8 list" where
  "hex_frame ver sn b =
     [0xAA, ver, sn, of_nat (length b)] @ b @ (if ver = 2 then crc_bytes (SumCRC16 b) else [])"

lemma PackHex_Inr:
  assumes "MSG_PackHex ver sn (Some b) len (Some m) = Inr (n, Some m')" "unat len < 2 ^ 32 - 6"
  shows "m' = hex_frame ver sn (take (unat len) b) @ drop (unat n) m \<and> unat len \<le> length b \<and>
    unat n = length (hex_frame ver sn (take (unat len) b))"
proof -
  let ?bs = "take (unat len) b"
  have u: "unat (len + 4) = unat len + 4" "unat (len + 6) = unat len + 6" "len + 4 + 2 = len + 6"
    using assms(2) by (simp_all add: unat_plus_simple [THEN iffD1] word_le_nat_alt unat_word_ariths)
  obtain m1 where l: "unat len \<le> length b" and m1: "unat len + 4 \<le> length m"
      "m1 = [0xAA, ver, sn, ucast len] @ ?bs @ drop (unat len + 4) m"
    and m2: "if ver = 2 then buf_write m1 (unat len + 4) (crc_bytes (SumCRC16 ?bs)) = Inr m' \<and> n = len + 6
      else m' = m1 \<and> n = len + 4"
    using assms(1)
    by (auto simp: MSG_PackHex_def cbind_Inr_iff buf_slice_def buf_write_Inr Let_def u add.commute
        eval_nat_numeral split: if_splits)
  have "m1 = ([0xAA, ver, sn, ucast len] @ ?bs) @ drop (unat len + 4) m" using m1(2) by simp
  moreover have pl: "length ([0xAA, ver, sn, ucast len] @ ?bs) = unat len + 4" using l by simp
  ultimately have t: "take (unat len + 4) m1 = [0xAA, ver, sn, ucast len] @ ?bs"
    "drop (unat len + 4) m1 = drop (unat len + 4) m"
    by (metis append_eq_conv_conj)+
  then have d: "drop (unat len + 4 + 2) m1 = drop (unat len + 4 + 2) m"
    by (metis drop_drop add.commute)
  have lb: "length ?bs = unat len" using l by simp
  show ?thesis
  proof (cases "ver = 2")
    case True
    with m2 have w: "buf_write m1 (unat len + 4) (crc_bytes (SumCRC16 ?bs)) = Inr m'" and n: "n = len + 6"
      by simp_all
    from w have "m' = ([0xAA, ver, sn, ucast len] @ ?bs) @ crc_bytes (SumCRC16 ?bs) @
        drop (unat len + 4 + 2) m"
      by (simp only: buf_write_Inr length_crc_bytes t(1) d)
    then show ?thesis using True l lb n u(2) by (simp add: hex_frame_def add.commute)
  next
    case False
    with m2 have "m' = m1" "n = len + 4" by simp_all
    then show ?thesis using False m1(2) l lb u(1) by (simp add: hex_frame_def eval_nat_numeral)
  qed
qed

lemma UnPackHex_frame:
  assumes m: "m = [0xAA, ver, sn, l] @ b @ r" and l: "length b = unat l" and b0: "length b \<le> length b0"
    and crc: "ver = 2 \<longrightarrow> (\<exists>r'. r = crc_bytes c @ r')"
  shows "MSG_UnPackHex True True (Some b0) (Some m) =
    (if ver = 2 \<and> SumCRC16 b \<noteq> c
     then Inr \<lparr>uh_ret = -3, uh_ver = Some ver, uh_sn = Some sn, uh_body = b0\<rparr>
     else Inr \<lparr>uh_ret = int (length b), uh_ver = Some ver, uh_sn = Some sn,
               uh_body = b @ drop (length b) b0\<rparr>)"
proof -
  have rd: "buf_read m 0 = Inr 0xAA" "buf_read m 1 = Inr ver" "buf_read m 2 = Inr sn"
    "buf_read m 3 = Inr l" "buf_slice m 4 (unat l) = Inr b"
    using m l by (simp_all add: buf_read_def buf_slice_def)
  have w: "buf_write b0 0 b = Inr (b @ drop (length b) b0)" using b0 by (simp add: buf_write_def)
  show ?thesis
  proof (cases "ver = 2")
    case True
    obtain hi lo where hl: "crc_bytes c = [hi, lo]" "push_bit 8 (ucast hi) OR ucast lo = c"
      by (rule crc_bytes_obtain)
    obtain r' where "m = ([0xAA, ver, sn, l] @ b) @ [hi, lo] @ r'" using crc True m hl(1) by auto
    moreover have "length ([0xAA, ver, sn, l] @ b) = unat l + 4" using l by simp
    ultimately have "m ! (unat l + 4) = hi" "m ! (unat l + 5) = lo" "unat l + 5 < length m"
      by (auto simp: nth_append)
    then have "buf_read m (unat l + 4) = Inr hi" "buf_read m (unat l + 5) = Inr lo"
      by (simp_all add: buf_read_def)
    then show ?thesis
      using True by (simp add: MSG_UnPackHex_def rd rd(2) [unfolded One_nat_def] Let_def w hl(2) l)
  next
    case False
    then show ?thesis
      by (simp add: MSG_UnPackHex_def rd rd(2) [unfolded One_nat_def] Let_def w l)
  qed
qed

text \<open>
  C34: what \<^verbatim>\<open>MSG_PackHex\<close> packs, \<^verbatim>\<open>MSG_UnPackHex\<close> returns: version, serial number and the first
  \<^verbatim>\<open>len\<close> bytes of the body when \<^verbatim>\<open>len\<close> is at most 255. For a longer body without checksum only the
  first \<^verbatim>\<open>len mod 256\<close> bytes come back, since the frame has one length byte and the packer does not
  check.
\<close>

theorem hex_frame_roundtrip:
  assumes "MSG_PackHex ver sn (Some b) len (Some m) = Inr (n, Some m')" "unat len < 2 ^ 32 - 6"
    and "unat len \<le> 255 \<or> ver \<noteq> 2" "unat len \<le> length b0"
  shows "MSG_UnPackHex True True (Some b0) (Some m') =
    Inr \<lparr>uh_ret = int (unat len mod 256), uh_ver = Some ver, uh_sn = Some sn,
         uh_body = take (unat len mod 256) b @ drop (unat len mod 256) b0\<rparr>"
proof -
  let ?k = "unat len mod 256" and ?b = "take (unat len) b"
  have f: "m' = hex_frame ver sn ?b @ drop (unat n) m" and l: "unat len \<le> length b"
    using PackHex_Inr [OF assms(1,2)] by simp_all
  have lb: "length ?b = unat len" using l by simp
  have k: "?k \<le> unat len" by simp
  have u: "unat (of_nat (unat len) :: u8) = ?k" by (simp only: unat_of_nat) simp
  have tb: "?b = take ?k b @ drop ?k ?b" using k by (metis append_take_drop_id min_def take_take)
  have full: "ver = 2 \<Longrightarrow> ?k = unat len" using assms(3) by auto
  have "m' = [0xAA, ver, sn, of_nat (unat len)] @ take ?k b @ drop ?k ?b @
      (if ver = 2 then crc_bytes (SumCRC16 ?b) else []) @ drop (unat n) m"
    using f lb tb by (simp add: hex_frame_def del: of_nat_unat)
  from UnPackHex_frame [OF this, of b0 "SumCRC16 ?b"] show ?thesis
    using u l k full assms(4) by (auto simp del: of_nat_unat)
qed

theorem hex_frame_roundtrip_witness:
  "MSG_UnPackHex True True (Some [0, 0, 9]) (Some (hex_frame 2 7 [1, 2] @ [0])) =
    Inr \<lparr>uh_ret = 2, uh_ver = Some 2, uh_sn = Some 7, uh_body = [1, 2, 9]\<rparr>"
proof -
  have "MSG_PackHex 2 7 (Some [1, 2, 3]) 2 (Some (replicate 9 0)) =
      Inr (8, Some (hex_frame 2 7 [1, 2] @ [0]))" by code_simp
  from hex_frame_roundtrip [OF this, of "[0, 0, 9]"] show ?thesis by simp
qed

lemma crc_bytes_exist: "\<exists>c. crc_bytes c = [hi, lo]"
proof -
  let ?c = "push_bit 8 (ucast hi) XOR ucast lo :: u16"
  obtain h l where hl: "crc_bytes ?c = [h, l]" "push_bit 8 (ucast h) OR ucast l = ?c"
    by (rule crc_bytes_obtain)
  have "push_bit 8 (ucast h) OR ucast l = (push_bit 8 (ucast h) XOR ucast l :: u16)"
    by (rule bit_word_eqI)
      (simp only: bit_or_iff bit_xor_iff bit_push16 bit_ucast_iff, auto dest: bit_imp_le_length)
  with hl(2) two_bytes_inj [of h l hi lo] have "[h, l] = [hi, lo]" by simp
  with hl(1) show ?thesis by metis
qed

lemma hex_frame_corrupt_parts:
  assumes "length b \<le> 255" "4 \<le> i" "i < length b + 6" "x \<noteq> hex_frame 2 sn b ! i"
  shows "\<exists>b' c. (hex_frame 2 sn b)[i := x] = [0xAA, 2, sn, of_nat (length b)] @ b' @ crc_bytes c \<and>
    length b' = length b \<and> SumCRC16 b' \<noteq> c"
proof -
  let ?h = "[0xAA, 2, sn, of_nat (length b)]" and ?c = "SumCRC16 b"
  have fr: "hex_frame 2 sn b = ?h @ b @ crc_bytes ?c" by (simp add: hex_frame_def)
  have "i = length ?h + (i - 4)" "i - 4 < length b + 2" using assms(2,3) by simp_all
  then obtain j where j: "i = length ?h + j" "j < length b + 2" by blast
  show ?thesis
  proof (cases "j < length b")
    case True
    have "(?h @ b @ crc_bytes ?c)[i := x] = ?h @ b[j := x] @ crc_bytes ?c"
      unfolding j(1) list_update_append using True by simp
    moreover have "b ! j \<noteq> x" using assms(4) True unfolding fr j(1) by (simp add: nth_append)
    then have "SumCRC16 (b[j := x]) \<noteq> ?c"
      unfolding SumCRC16_def by (rule ccitt.detects_update [OF True])
    ultimately show ?thesis unfolding fr by (metis length_list_update)
  next
    case False
    let ?k = "j - length b"
    have k: "?k < 2" using j(2) False by simp
    have "(?h @ b @ crc_bytes ?c)[i := x] = ?h @ b @ (crc_bytes ?c)[?k := x]"
      unfolding j(1) list_update_append using False by simp
    moreover have ne: "crc_bytes ?c ! ?k \<noteq> x" using assms(4) False unfolding fr j(1) by (simp add: nth_append)
    have "length ((crc_bytes ?c)[?k := x]) = Suc (Suc 0)" by simp
    then obtain hi lo where "(crc_bytes ?c)[?k := x] = [hi, lo]"
      unfolding length_Suc_conv length_0_conv by blast
    then obtain c where c: "crc_bytes c = (crc_bytes ?c)[?k := x]" using crc_bytes_exist by metis
    have "?c \<noteq> c" using c ne k by (metis length_crc_bytes nth_list_update_eq)
    ultimately show ?thesis unfolding fr using c by metis
  qed
qed

text \<open>
  C9: changing any one byte of the body or of the checksum of a version 2 binary frame makes
  \<^verbatim>\<open>MSG_UnPackHex\<close> reject it with -3 and leave the caller's body buffer as it was (the version
  and the serial number have been stored by then).
\<close>

theorem hex_frame_corruption_rejected:
  assumes "length b \<le> 255" "4 \<le> i" "i < length b + 6" "x \<noteq> hex_frame 2 sn b ! i"
    and "length b \<le> length b0"
  shows "MSG_UnPackHex True True (Some b0) (Some ((hex_frame 2 sn b)[i := x] @ r)) =
    Inr \<lparr>uh_ret = -3, uh_ver = Some 2, uh_sn = Some sn, uh_body = b0\<rparr>"
proof -
  obtain b' c where p: "(hex_frame 2 sn b)[i := x] = [0xAA, 2, sn, of_nat (length b)] @ b' @ crc_bytes c"
    "length b' = length b" "SumCRC16 b' \<noteq> c"
    using hex_frame_corrupt_parts [OF assms(1-4)] by blast
  then have "(hex_frame 2 sn b)[i := x] @ r = [0xAA, 2, sn, of_nat (length b)] @ b' @ crc_bytes c @ r"
    by simp
  from UnPackHex_frame [OF this, of b0 c] show ?thesis
    using p(2,3) assms(1,5) by (simp add: unat_of_nat)
qed

theorem hex_frame_corruption_rejected_witness:
  "MSG_UnPackHex True True (Some [5, 5]) (Some ((hex_frame 2 7 [1, 2])[4 := 9] @ [])) =
    Inr \<lparr>uh_ret = -3, uh_ver = Some 2, uh_sn = Some 7, uh_body = [5, 5]\<rparr>"
  by (rule hex_frame_corruption_rejected) (simp_all add: hex_frame_def)

section \<open>Streams of binary frames\<close>

text \<open>The bytes a sender puts on the wire: the first \<^verbatim>\<open>MSG_PackHex\<close> bytes of a zeroed buffer.\<close>

definition hex_sent :: "u8 \<times> u8 \<times> u8 list \<Rightarrow> u8 list" where
  "hex_sent = (\<lambda>(ver, sn, b).
     case MSG_PackHex ver sn (Some b) (of_nat (length b)) (Some (replicate (length b + 6) 0)) of
       Inr (n, Some m) \<Rightarrow> take (unat n) m
     | _ \<Rightarrow> [])"

text \<open>A receiver: \<^verbatim>\<open>MSG_UnPackHex\<close> at the head of the stream, with a body buffer of 255 bytes.\<close>

definition hex_read :: "u8 list \<Rightarrow> (u8 \<times> u8 \<times> u8 list) option" where
  "hex_read m =
     (case MSG_UnPackHex True True (Some (replicate 255 0)) (Some m) of
        Inr u \<Rightarrow> (case (uh_ver u, uh_sn u) of
            (Some v, Some sn) \<Rightarrow> if uh_ret u < 0 then None else Some (v, sn, take (nat (uh_ret u)) (uh_body u))
          | _ \<Rightarrow> None)
      | Inl _ \<Rightarrow> None)"

abbreviation hex_msg :: "u8 \<times> u8 \<times> u8 list \<Rightarrow> bool" where
  "hex_msg \<equiv> \<lambda>(ver, sn, b). length b \<le> 255"

lemma PackHex_total:
  assumes "length b \<le> 255" "length b + 6 \<le> length m"
  shows "\<exists>n m'. MSG_PackHex ver sn (Some b) (of_nat (length b)) (Some m) = Inr (n, Some m')"
proof -
  have u: "unat (of_nat (length b) :: u32) = length b" using assms(1) by (simp add: unat_of_nat)
  have "unat (of_nat (length b) + 4 :: u32) = length b + 4" using assms(1) u by (simp add: unat_word_ariths)
  then show ?thesis using assms u
    by (auto simp: MSG_PackHex_def buf_slice_def buf_write_def Let_def)
qed

lemma hex_sent_frame: "length b \<le> 255 \<Longrightarrow> hex_sent (ver, sn, b) = hex_frame ver sn b"
proof -
  assume l: "length b \<le> 255"
  then have u: "unat (of_nat (length b) :: u32) = length b" by (simp add: unat_of_nat)
  obtain n m' where p: "MSG_PackHex ver sn (Some b) (of_nat (length b)) (Some (replicate (length b + 6) 0))
      = Inr (n, Some m')" using PackHex_total [OF l, of "replicate (length b + 6) 0" ver sn] by auto
  from PackHex_Inr [OF this] u l show ?thesis by (simp add: hex_sent_def p)
qed

interpretation hex: frame_codec hex_sent hex_read hex_msg
proof
  fix m :: "u8 \<times> u8 \<times> u8 list" and r
  assume ok: "hex_msg m"
  obtain ver sn b where m: "m = (ver, sn, b)" by (cases m)
  have "hex_frame ver sn b @ r = [0xAA, ver, sn, of_nat (length b)] @ b @
      (if ver = 2 then crc_bytes (SumCRC16 b) else []) @ r"
    by (simp add: hex_frame_def)
  from UnPackHex_frame [OF this, of "replicate 255 0" "SumCRC16 b"]
  show "hex_read (hex_sent m @ r) = Some m"
    using ok by (simp add: hex_read_def hex_sent_frame m unat_of_nat)
next
  fix m :: "u8 \<times> u8 \<times> u8 list"
  assume "hex_msg m"
  then show "hex_sent m \<noteq> []" by (cases m) (simp add: hex_sent_frame hex_frame_def)
qed

text \<open>
  C35: binary frames are self-delimiting: \<^verbatim>\<open>MSG_UnPackHex\<close> at the start of a stream reads the
  message whose frame \<^verbatim>\<open>MSG_PackHex\<close> put there, whatever bytes follow it, and two sequences of
  messages (bodies of at most 255 bytes, any versions) whose packed frames give the same bytes
  are the same sequence.
\<close>

theorem hex_stream_unique:
  assumes "list_all (\<lambda>(ver, sn, b). length b \<le> 255) ms"
    and "list_all (\<lambda>(ver, sn, b). length b \<le> 255) ms'"
    and "concat (map hex_sent ms) = concat (map hex_sent ms')"
  shows "ms = ms' \<and> (ms \<noteq> [] \<longrightarrow> hex_read (concat (map hex_sent ms)) = Some (hd ms))"
  using hex.stream_unique [OF assms] assms(1) by (cases ms) (auto simp: hex.dec_enc)

theorem hex_stream_unique_witness:
  "hex_read (concat (map hex_sent [(1, 2, [3]), (2, 3, [])])) = Some (1, 2, [3])"
  using hex_stream_unique [of "[(1, 2, [3]), (2, 3, [])]" "[(1, 2, [3]), (2, 3, [])]"] by simp

end
