(* ===== verification/Msg_Queue.thy ===== *)
theory Msg_Queue
  imports Cvos_Prelude
begin

text \<open>
  \<^verbatim>\<open>msg.c\<close>: the allocation of queue keys and the System V message queues behind the
  \<^verbatim>\<open>MSG_Que...\<close> calls. The kernel's part is an explicit state: which key names which queue, the
  messages of each queue in the order they were sent, how many bytes a queue takes, and
  \<^verbatim>\<open>errno\<close>. Every call of the code holds \<^verbatim>\<open>gMsgThrdLock\<close> for its system calls, so a call is one
  step. \<^verbatim>\<open>MsgPrint\<close> only logs.
\<close>

section \<open>Queue keys\<close>

record msg_ids =
  gIpcIdBase :: u32
  gIpcId :: u32

definition msg_ids0 :: msg_ids where
  "msg_ids0 = \<lparr>gIpcIdBase = 0, gIpcId = 0\<rparr>"

text \<open>\<open>ftok_res\<close> is what \<^verbatim>\<open>ftok (".", ipckey)\<close> returns.\<close>

definition MSG_GetIpcId :: "u32 \<Rightarrow> msg_ids \<Rightarrow> u32 \<times> msg_ids" where
  "MSG_GetIpcId ftok_res s =
     (let s' = (if gIpcIdBase s = 0 then \<lparr>gIpcIdBase = ftok_res, gIpcId = ftok_res\<rparr>
                else s\<lparr>gIpcId := gIpcId s + 1\<rparr>)
      in (gIpcId s', s'))"

fun get_ids :: "u32 list \<Rightarrow> msg_ids \<Rightarrow> u32 list" where
  "get_ids [] s = []"
| "get_ids (f # fs) s = (let (i, s') = MSG_GetIpcId f s in i # get_ids fs s')"

lemma get_ids_running:
  "gIpcIdBase s \<noteq> 0 \<Longrightarrow> get_ids fs s = map (\<lambda>k. gIpcId s + of_nat (Suc k)) [0..<length fs]"
proof (induction fs arbitrary: s)
  case (Cons f fs)
  then show ?case
    by (simp add: MSG_GetIpcId_def Let_def upt_conv_Cons map_Suc_upt [symmetric] comp_def add.assoc
        del: upt_Suc)
qed simp

section \<open>The kernel's queues\<close>

record kernel =
  k_keys :: "u32 \<Rightarrow> int option"
  k_ques :: "int \<Rightarrow> (int \<times> u8 list) list option"
  k_next :: int
  k_max :: int
  k_qbytes :: nat
  k_errno :: int

definition k_fail :: "int \<Rightarrow> kernel \<Rightarrow> int \<times> kernel" where
  "k_fail e k = (-1, k\<lparr>k_errno := e\<rparr>)"

text \<open>A new queue is created for the key 0 (\<^verbatim>\<open>IPC_PRIVATE\<close>) and for an unknown key with \<^verbatim>\<open>IPC_CREAT\<close>.\<close>

definition k_new :: "u32 \<Rightarrow> kernel \<Rightarrow> int \<times> kernel" where
  "k_new key k =
     (if k_max k \<le> k_next k then k_fail 28 k
      else (k_next k, k\<lparr>k_keys := (if key = 0 then k_keys k else (k_keys k)(key \<mapsto> k_next k)),
                        k_ques := (k_ques k)(k_next k \<mapsto> []), k_next := k_next k + 1\<rparr>))"

definition k_msgget :: "u32 \<Rightarrow> bool \<Rightarrow> kernel \<Rightarrow> int \<times> kernel" where
  "k_msgget key creat k =
     (if key = 0 then k_new key k
      else case k_keys k key of
        Some q \<Rightarrow> (q, k)
      | None \<Rightarrow> if creat then k_new key k else k_fail 2 k)"

definition k_msgsnd :: "int \<Rightarrow> int \<times> u8 list \<Rightarrow> kernel \<Rightarrow> int \<times> kernel" where
  "k_msgsnd q msg k =
     (case k_ques k q of
        None \<Rightarrow> k_fail 22 k
      | Some ms \<Rightarrow>
          if fst msg < 1 \<or> k_qbytes k < length (snd msg) then k_fail 22 k
          else if k_qbytes k < sum_list (map (length \<circ> snd) ms) + length (snd msg) then k_fail 11 k
          else (0, k\<lparr>k_ques := (k_ques k)(q \<mapsto> ms @ [msg])\<rparr>))"

definition k_msgrcv :: "int \<Rightarrow> nat \<Rightarrow> kernel \<Rightarrow> int \<times> (int \<times> u8 list) option \<times> kernel" where
  "k_msgrcv q sz k =
     (case k_ques k q of
        None \<Rightarrow> (-1, None, k\<lparr>k_errno := 22\<rparr>)
      | Some [] \<Rightarrow> (-1, None, k\<lparr>k_errno := 42\<rparr>)
      | Some ((t, bs) # ms) \<Rightarrow>
          (int (length (take sz bs)), Some (t, take sz bs), k\<lparr>k_ques := (k_ques k)(q \<mapsto> ms)\<rparr>))"

definition k_rmid :: "int \<Rightarrow> kernel \<Rightarrow> int \<times> kernel" where
  "k_rmid q k =
     (case k_ques k q of
        None \<Rightarrow> k_fail 22 k
      | Some _ \<Rightarrow> (0, k\<lparr>k_keys := (\<lambda>key. if k_keys k key = Some q then None else k_keys k key),
                       k_ques := (k_ques k)(q := None)\<rparr>))"

section \<open>The calls of msg.c\<close>

definition MSG_QueCreate :: "u32 \<Rightarrow> kernel \<Rightarrow> int \<times> kernel" where
  "MSG_QueCreate IpcId k =
     (let (QueId, k') = k_msgget IpcId True k
      in (if QueId < 0 then - k_errno k' else QueId, k'))"

definition MSG_QueRevMsg :: "int \<Rightarrow> u32 \<Rightarrow> kernel \<Rightarrow> int \<times> (int \<times> u8 list) option \<times> kernel" where
  "MSG_QueRevMsg QueId MsgBodyLen k =
     (if QueId < 0 then (-1, None, k)
      else let (ret, msg, k') = k_msgrcv QueId (unat MsgBodyLen) k
           in (if ret < 0 then - k_errno k' else ret, msg, k'))"

definition MSG_QueDestroy :: "int \<Rightarrow> kernel \<Rightarrow> int \<times> kernel" where
  "MSG_QueDestroy QueId k =
     (if QueId < 0 then (-1, k)
      else let (rc, k') = k_rmid QueId k
           in (if rc = -1 then - k_errno k' else 0, k'))"

definition MSG_QueSndMsg :: "u32 \<Rightarrow> int \<times> u8 list \<Rightarrow> kernel \<Rightarrow> int \<times> kernel" where
  "MSG_QueSndMsg IpcId msg k =
     (let (QueId, k1) = k_msgget IpcId False k in
      if QueId < 0 then (- k_errno k1, k1)
      else
        let (ret, k2) = k_msgsnd QueId msg k1;
            (_, k3) = k_rmid QueId k2
        in (if ret < 0 then - k_errno k3 else ret, k3))"

text \<open>
  The message to the keeper: the process id (an \<^verbatim>\<open>int\<close>, little endian), the name and the start
  script, in the 2048 bytes of the message text, of which the \<^verbatim>\<open>memset\<close> clears the 1024 that
  \<^verbatim>\<open>MSG_S\<close> has; 84 bytes of it are sent. \<open>mText\<close> is what the stack held before.
\<close>

definition MSG_AppSendtoKeeper ::
  "u8 list \<Rightarrow> int \<Rightarrow> u32 \<Rightarrow> u8 list \<Rightarrow> u8 list \<Rightarrow> kernel \<Rightarrow> (int \<times> kernel) cres" where
  "MSG_AppSendtoKeeper mText mType AppPid AppName AppStartScript k =
     cbind (buf_write mText 0 (replicate 1024 0)) (\<lambda>t0.
     cbind (buf_write t0 0 (map (\<lambda>i. ucast (drop_bit (8 * i) AppPid)) [0..<4])) (\<lambda>t1.
     cbind (buf_strlen AppName) (\<lambda>n.
     cbind (buf_write t1 4 (take (n + 1) AppName)) (\<lambda>t2.
     cbind (buf_strlen AppStartScript) (\<lambda>n'.
     cbind (buf_write t2 20 (take (n' + 1) AppStartScript)) (\<lambda>t3.
     cbind (buf_slice t3 0 84) (\<lambda>sent.
     Inr (MSG_QueSndMsg 0x221234 (mType, sent) k))))))))"

section \<open>Properties\<close>

definition kernel_wf :: "kernel \<Rightarrow> bool" where
  "kernel_wf k \<longleftrightarrow> 0 \<le> k_next k \<and> k_errno k \<ge> 0 \<and>
     (\<forall>key q. k_keys k key = Some q \<longrightarrow> 0 \<le> q \<and> q < k_next k \<and> k_ques k q \<noteq> None) \<and>
     (\<forall>q. k_ques k q \<noteq> None \<longrightarrow> 0 \<le> q \<and> q < k_next k) \<and>
     (\<forall>key key' q. k_keys k key = Some q \<longrightarrow> k_keys k key' = Some q \<longrightarrow> key = key')"

lemma msgsnd_keys: "k_msgsnd q msg k = (r, k') \<Longrightarrow>
    k_keys k' = k_keys k \<and> (k_ques k q \<noteq> None \<longrightarrow> k_ques k' q \<noteq> None)"
  by (auto simp: k_msgsnd_def k_fail_def split: option.splits if_splits)

lemma QueSnd_gone:
  assumes "k_keys k key = Some q" "0 \<le> q" "k_ques k q \<noteq> None" "key \<noteq> 0"
  shows "k_ques (snd (MSG_QueSndMsg key msg k)) q = None \<and> k_keys (snd (MSG_QueSndMsg key msg k)) key = None"
proof -
  obtain r k2 where s: "k_msgsnd q msg k = (r, k2)" by (cases "k_msgsnd q msg k") auto
  have "k_keys k2 key = Some q" "k_ques k2 q \<noteq> None" using msgsnd_keys [OF s] assms by auto
  then show ?thesis using assms s
    by (auto simp: MSG_QueSndMsg_def k_msgget_def k_rmid_def split: option.splits)
qed

text \<open>
  With a nonzero base from \<^verbatim>\<open>ftok\<close>, the calls of \<^verbatim>\<open>MSG_GetIpcId\<close> return the base and then
  one more each time, whatever \<^verbatim>\<open>ftok\<close> would return later, and up to 2^32 calls return
  different keys.
\<close>

lemma ipc_ids_distinct:
  assumes "f \<noteq> 0" "length fs < 2 ^ 32"
  shows "get_ids (f # fs) msg_ids0 = map (\<lambda>k. f + of_nat k) [0..<Suc (length fs)] \<and>
         distinct (get_ids (f # fs) msg_ids0)"
proof -
  have "get_ids (f # fs) msg_ids0 = f # map (\<lambda>k. f + of_nat (Suc k)) [0..<length fs]"
    using assms(1) by (simp add: MSG_GetIpcId_def msg_ids0_def Let_def get_ids_running del: of_nat_Suc)
  also have "\<dots> = map (\<lambda>k. f + of_nat k) [0..<Suc (length fs)]"
    by (simp add: upt_conv_Cons map_Suc_upt [symmetric] del: upt_Suc)
  finally have e: "get_ids (f # fs) msg_ids0 = map (\<lambda>k. f + of_nat k) [0..<Suc (length fs)]" .
  have "inj_on (\<lambda>k. f + of_nat k) {0..<Suc (length fs)}"
  proof (rule inj_onI)
    fix x y
    assume xy: "x \<in> {0..<Suc (length fs)}" "y \<in> {0..<Suc (length fs)}" "f + of_nat x = f + of_nat y"
    then have "unat (of_nat x :: u32) = unat (of_nat y :: u32)" by simp
    then have "x mod 2 ^ 32 = y mod 2 ^ 32" by (simp only: unat_of_nat) simp
    with xy assms(2) show "x = y" by simp
  qed
  then show ?thesis unfolding e by (simp add: distinct_map del: upt_Suc)
qed

lemma ipc_ids_distinct_witness: "distinct (get_ids [7, 9, 9] msg_ids0)"
  using ipc_ids_distinct [of 7 "[9, 9]"] by simp

text \<open>
  \<^verbatim>\<open>MSG_QueSndMsg\<close> never delivers: whatever it returns, 0 included, the queue it sent to is
  removed before it returns, a receive on the receiver's queue identifier then fails with
  \<^verbatim>\<open>-EINVAL\<close>, and a queue that the receiver creates again for the key holds no message.
\<close>

lemma queue_send_not_delivered:
  assumes "kernel_wf k" "k_keys k IpcId = Some q" "IpcId \<noteq> 0"
  shows "let (ret, k') = MSG_QueSndMsg IpcId msg k in
     fst (MSG_QueRevMsg q n k') = -22 \<and> fst (snd (MSG_QueRevMsg q n k')) = None \<and>
     (k_next k' < k_max k' \<longrightarrow>
       (let (q', k'') = MSG_QueCreate IpcId k' in fst (MSG_QueRevMsg q' n k'') = -42))"
proof -
  obtain ret k' where s: "MSG_QueSndMsg IpcId msg k = (ret, k')" by (cases "MSG_QueSndMsg IpcId msg k") auto
  have q: "0 \<le> q" "k_ques k q \<noteq> None" "0 \<le> k_next k" using assms(1,2) by (auto simp: kernel_wf_def)
  have g: "k_ques k' q = None" "k_keys k' IpcId = None" using QueSnd_gone [OF assms(2) q(1,2) assms(3), of msg] s by auto
  have "k_next k' = k_next k" using s q(1) assms(2,3)
    by (auto simp: MSG_QueSndMsg_def k_msgget_def k_msgsnd_def k_rmid_def k_fail_def Let_def
        split: option.splits if_splits prod.splits)
  then have n: "0 \<le> k_next k'" using q(3) by simp
  show ?thesis
    using g q(1) n assms(3) by (auto simp: s MSG_QueRevMsg_def k_msgrcv_def MSG_QueCreate_def k_msgget_def k_new_def)
qed

lemma queue_send_not_delivered_witness:
  "let k = \<lparr>k_keys = Map.empty(5 \<mapsto> 0), k_ques = Map.empty(0 \<mapsto> []), k_next = 1, k_max = 8,
            k_qbytes = 100, k_errno = 0\<rparr>;
       (ret, k') = MSG_QueSndMsg 5 (1, [65]) k
   in ret = 0 \<and> fst (MSG_QueRevMsg 0 10 k') = -22"
proof -
  let ?k = "\<lparr>k_keys = Map.empty(5 \<mapsto> 0), k_ques = Map.empty(0 \<mapsto> []), k_next = 1, k_max = 8,
            k_qbytes = 100, k_errno = 0\<rparr>"
  have "kernel_wf ?k" by (auto simp: kernel_wf_def split: if_splits)
  from queue_send_not_delivered [OF this, of 5 0 "(1, [65])" 10]
  show ?thesis
    by (simp add: MSG_QueSndMsg_def k_msgget_def k_msgsnd_def k_rmid_def Let_def split: prod.splits)
qed

end
