(* ===== verification/Cfg_Text.thy ===== *)
theory Cfg_Text
  imports Cvos_Prelude
begin

text \<open>
  The text level of \<^verbatim>\<open>cfgfile.c\<close>: the character classes, \<^verbatim>\<open>_cfg_getline\<close>, \<^verbatim>\<open>_cfg_skipwhite\<close>,
  \<^verbatim>\<open>rtrim\<close>, \<^verbatim>\<open>remove_quotes\<close>, the body of the loop of \<^verbatim>\<open>_cfg_parse\<close> for one line, and the decimal
  numbers of \<^verbatim>\<open>sprintf\<close> and \<^verbatim>\<open>atoi\<close>. A C string is the list of its characters without the
  terminator; the image of a file is a list that may contain NUL characters.
\<close>

section \<open>Character classes\<close>

abbreviation NUL :: char where "NUL \<equiv> CHR 0x00"
abbreviation TAB :: char where "TAB \<equiv> CHR 0x09"
abbreviation LF :: char where "LF \<equiv> CHR 0x0A"

text \<open>The C string in a buffer.\<close>

definition buf_string :: "string \<Rightarrow> string cres" where
  "buf_string buf = (if NUL \<in> set buf then Inr (takeWhile (\<lambda>c. c \<noteq> NUL) buf) else Inl Out_Of_Bounds)"

text \<open>\<^verbatim>\<open>strchr\<close> finds the terminator of its string too: NUL is white and ends a line.\<close>

definition iswhite :: "char \<Rightarrow> bool" where
  "iswhite c \<longleftrightarrow> c = CHR 0x0C \<or> c = TAB \<or> c = CHR '' '' \<or> c = NUL"

definition iseolchar :: "char \<Rightarrow> bool" where
  "iseolchar c \<longleftrightarrow> c = LF \<or> c = CHR 0x0D \<or> c = CHR 0x1A \<or> c = NUL"

definition c_isspace :: "char \<Rightarrow> bool" where
  "c_isspace c \<longleftrightarrow> c = CHR '' '' \<or> c = TAB \<or> c = LF \<or> c = CHR 0x0B \<or> c = CHR 0x0C \<or> c = CHR 0x0D"

definition iscomment :: "char \<Rightarrow> bool" where
  "iscomment c \<longleftrightarrow> c = CHR '';'' \<or> c = CHR ''#''"

definition isquote :: "char \<Rightarrow> bool" where
  "isquote c \<longleftrightarrow> c = CHR 0x22 \<or> c = CHR 0x27"

section \<open>Lines\<close>

definition cfg_skipwhite :: "string \<Rightarrow> string" where
  "cfg_skipwhite s = dropWhile (\<lambda>c. c \<noteq> NUL \<and> iswhite c) s"

definition trim_end :: "(char \<Rightarrow> bool) \<Rightarrow> string \<Rightarrow> string" where
  "trim_end P s = rev (dropWhile P (rev s))"

text \<open>
  The result, the line and what is left of the image. The line that an end-of-line character
  closes loses its trailing white space; the last one of an image does not. The end of the list
  is the NUL that \<^verbatim>\<open>cfg_refresh\<close> appends; a NUL before it is not passed.
\<close>

definition cfg_getline :: "string \<Rightarrow> bool \<times> string \<times> string" where
  "cfg_getline cp =
     (let start = dropWhile (\<lambda>c. c \<noteq> NUL \<and> iseolchar c) cp;
          line = takeWhile (\<lambda>c. c \<noteq> NUL \<and> \<not> iseolchar c) start
      in case dropWhile (\<lambda>c. c \<noteq> NUL \<and> \<not> iseolchar c) start of
           [] \<Rightarrow> (line \<noteq> [], line, [])
         | c # rest \<Rightarrow>
             if c = NUL then (line \<noteq> [], line, c # rest)
             else (trim_end iswhite line \<noteq> [], trim_end iswhite line, rest))"

text \<open>Whether \<^verbatim>\<open>rtrim\<close> returns a pointer, and the string it leaves.\<close>

definition rtrim :: "string \<Rightarrow> bool \<times> string" where
  "rtrim str = (let s = trim_end c_isspace str in (s \<noteq> [], s))"

definition remove_quotes :: "string \<Rightarrow> string option" where
  "remove_quotes s =
     (let w = dropWhile (\<lambda>c. c = CHR 0x27 \<or> c = CHR 0x22) s
      in if w = [] then None
         else Some (takeWhile (\<lambda>c. c \<noteq> CHR 0x22) (takeWhile (\<lambda>c. c \<noteq> CHR 0x27) w)))"

section \<open>One line of the image\<close>

text \<open>
  The scan of a value: \<open>q\<close> is \<^verbatim>\<open>inString\<close> (NUL for 0) and \<open>prev\<close> is \<^verbatim>\<open>lp[-1]\<close>. A comment
  starts outside quotes after white space.
\<close>

fun value_scan :: "char \<Rightarrow> char \<Rightarrow> string \<Rightarrow> string \<times> string option" where
  "value_scan q prev [] = ([], None)"
| "value_scan q prev (c # cs) =
     (if q \<noteq> NUL then
        (let (v, k) = value_scan (if c = q then NUL else q) c cs in (c # v, k))
      else if isquote c then
        (let (v, k) = value_scan c c cs in (c # v, k))
      else if iscomment c \<and> iswhite prev then ([], Some cs)
      else (let (v, k) = value_scan q c cs in (c # v, k)))"

record line_item =
  li_section :: "string option"
  li_id :: "string option"
  li_value :: "string option"
  li_comment :: "string option"

text \<open>
  Before the value stands the NUL that replaced \<^verbatim>\<open>=\<close>, or white space: \<^verbatim>\<open>iswhite\<close> holds of both.
  A comment trims the value before it.
\<close>

definition scan_value :: "string \<Rightarrow> string \<times> string option" where
  "scan_value lp =
     (let (v, k) = value_scan NUL NUL lp
      in (if k = None then v else snd (rtrim v), k))"

text \<open>\<open>None\<close>: the line stores no entry (the \<^verbatim>\<open>continue\<close>s of the loop).\<close>

definition cfg_parse_line :: "string \<Rightarrow> line_item option" where
  "cfg_parse_line line =
     (let isContinue = (line \<noteq> [] \<and> iswhite (hd line));
          lp = (if isContinue then cfg_skipwhite line else line)
      in if lp \<noteq> [] \<and> hd lp = CHR ''['' then
           (let section = cfg_skipwhite (tl lp)
            in if CHR '']'' \<notin> set section then None
               else
                 (let (ok, name) = rtrim (takeWhile (\<lambda>c. c \<noteq> CHR '']'') section);
                      lp' = cfg_skipwhite (tl (dropWhile (\<lambda>c. c \<noteq> CHR '']'') section))
                  in if \<not> ok then None
                     else Some \<lparr>li_section = Some name, li_id = None, li_value = None,
                            li_comment = (if lp' \<noteq> [] \<and> iscomment (hd lp') then Some (tl lp') else None)\<rparr>))
         else if lp \<noteq> [] \<and> hd lp = CHR '';'' then
           Some \<lparr>li_section = None, li_id = None, li_value = None, li_comment = Some (tl lp)\<rparr>
         else if isContinue then
           (let (v, k) = scan_value lp
            in Some \<lparr>li_section = None, li_id = None, li_value = Some v, li_comment = k\<rparr>)
         else if CHR ''='' \<notin> set lp then None
         else
           (let name = snd (rtrim (takeWhile (\<lambda>c. c \<noteq> CHR ''='') lp));
                (v, k) = scan_value (cfg_skipwhite (tl (dropWhile (\<lambda>c. c \<noteq> CHR ''='') lp)))
            in Some \<lparr>li_section = None, li_id = Some name, li_value = Some v, li_comment = k\<rparr>))"

section \<open>Decimal numbers\<close>

definition digit_char :: "nat \<Rightarrow> char" where
  "digit_char d = char_of (48 + d)"

fun nat_digits :: "nat \<Rightarrow> string" where
  "nat_digits n = (if n < 10 then [digit_char n] else nat_digits (n div 10) @ [digit_char (n mod 10)])"

declare nat_digits.simps [simp del]

text \<open>\<^verbatim>\<open>%d\<close> and \<^verbatim>\<open>%ld\<close>.\<close>

definition dec :: "int \<Rightarrow> string" where
  "dec i = (if i < 0 then CHR ''-'' # nat_digits (nat (- i)) else nat_digits (nat i))"

definition isdigit_char :: "char \<Rightarrow> bool" where
  "isdigit_char c \<longleftrightarrow> 48 \<le> (of_char c :: nat) \<and> (of_char c :: nat) \<le> 57"

definition digits_val :: "string \<Rightarrow> nat" where
  "digits_val s = foldl (\<lambda>n c. 10 * n + (of_char c - 48)) 0 s"

text \<open>
  \<^verbatim>\<open>atoi\<close> is \<^verbatim>\<open>(int) strtol (s, NULL, 10)\<close>: the value is clamped to a 64-bit \<^verbatim>\<open>long\<close> and its
  low 32 bits are taken.
\<close>

definition clamp_long :: "int \<Rightarrow> int" where
  "clamp_long i = max (- (2 ^ 63)) (min (2 ^ 63 - 1) i)"

definition c_strtol :: "string \<Rightarrow> int" where
  "c_strtol s =
     (let s1 = dropWhile c_isspace s;
          neg = (s1 \<noteq> [] \<and> hd s1 = CHR ''-'');
          s2 = (if s1 \<noteq> [] \<and> (hd s1 = CHR ''-'' \<or> hd s1 = CHR ''+'') then tl s1 else s1);
          n = int (digits_val (takeWhile isdigit_char s2))
      in clamp_long (if neg then - n else n))"

definition to_int32 :: "int \<Rightarrow> int" where
  "to_int32 i = (i + 2 ^ 31) mod 2 ^ 32 - 2 ^ 31"

definition c_atoi :: "string \<Rightarrow> int" where
  "c_atoi s = to_int32 (c_strtol s)"

text \<open>\<^verbatim>\<open>%x\<close> of a 32-bit value.\<close>

definition hex_char :: "nat \<Rightarrow> char" where
  "hex_char d = char_of (if d < 10 then 48 + d else 87 + d)"

fun hex_digits :: "nat \<Rightarrow> string" where
  "hex_digits n = (if n < 16 then [hex_char n] else hex_digits (n div 16) @ [hex_char (n mod 16)])"

declare hex_digits.simps [simp del]

section \<open>Facts\<close>

lemma of_char_digit: "d < 10 \<Longrightarrow> of_char (digit_char d) = 48 + d"
  unfolding digit_char_def by (subst of_char_of) simp

lemma isdigit_digit: "d < 10 \<Longrightarrow> isdigit_char (digit_char d)"
  by (simp add: isdigit_char_def of_char_digit)

lemma nat_digits_digits: "\<forall>c \<in> set (nat_digits n). isdigit_char c"
  by (induction n rule: nat_digits.induct) (subst nat_digits.simps, auto simp: isdigit_digit)

lemma nat_digits_ne: "nat_digits n \<noteq> []"
  by (subst nat_digits.simps) simp

lemma nat_digits_length: "length (nat_digits n) \<le> Suc k \<longleftrightarrow> n < 10 ^ Suc k"
proof (induction k arbitrary: n)
  case 0
  then show ?case using nat_digits_ne [of "n div 10"] by (simp add: nat_digits.simps [of n] Suc_le_eq)
next
  case (Suc k)
  show ?case
  proof (cases "n < 10")
    case True
    then have "n < 10 ^ Suc (Suc k)" by (rule less_le_trans) simp
    with True show ?thesis by (simp add: nat_digits.simps [of n])
  next
    case False
    then have "length (nat_digits n) = Suc (length (nat_digits (n div 10)))" by (simp add: nat_digits.simps [of n])
    moreover have "n div 10 < 10 ^ Suc k \<longleftrightarrow> n < 10 ^ Suc (Suc k)"
      by (simp add: div_less_iff_less_mult mult.commute)
    ultimately show ?thesis using Suc [of "n div 10"] by simp
  qed
qed

lemma digits_val_append: "digits_val (s @ [c]) = 10 * digits_val s + (of_char c - 48)"
  by (simp add: digits_val_def)

lemma digits_val_nat: "digits_val (nat_digits n) = n"
proof (induction n rule: nat_digits.induct)
  case (1 n)
  then show ?case
    by (cases "n < 10")
      (simp_all add: nat_digits.simps [of n] digits_val_append of_char_digit, simp add: digits_val_def of_char_digit)
qed

lemma takeWhile_all: "\<forall>x \<in> set xs. P x \<Longrightarrow> takeWhile P xs = xs"
  by (simp add: takeWhile_eq_all_conv)

lemma isdigit_not:
  "isdigit_char c \<Longrightarrow> \<not> c_isspace c" "isdigit_char c \<Longrightarrow> c \<noteq> CHR ''-''"
  "isdigit_char c \<Longrightarrow> c \<noteq> CHR ''+''" "isdigit_char c \<Longrightarrow> \<not> iswhite c" "isdigit_char c \<Longrightarrow> \<not> iseolchar c"
  "isdigit_char c \<Longrightarrow> \<not> iscomment c" "isdigit_char c \<Longrightarrow> \<not> isquote c" "isdigit_char c \<Longrightarrow> c \<noteq> NUL"
  by (auto simp: isdigit_char_def c_isspace_def iswhite_def iseolchar_def iscomment_def isquote_def)

lemma strtol_dec:
  assumes "- (2 ^ 63) \<le> i" "i < 2 ^ 63"
  shows "c_strtol (dec i) = i"
proof -
  have d: "dropWhile c_isspace (nat_digits n) = nat_digits n" for n
    using nat_digits_digits [of n] nat_digits_ne [of n] isdigit_not(1)
    by (cases "nat_digits n") auto
  have t: "takeWhile isdigit_char (nat_digits n) = nat_digits n" for n
    by (rule takeWhile_all [OF nat_digits_digits])
  have h: "hd (nat_digits n) \<noteq> CHR ''-'' \<and> hd (nat_digits n) \<noteq> CHR ''+''" for n
    using nat_digits_digits [of n] nat_digits_ne [of n] isdigit_not(2,3) by (metis list.set_sel(1))
  have m: "\<not> c_isspace (CHR ''-'')" by (simp add: c_isspace_def)
  show ?thesis
  proof (cases "i < 0")
    case True
    then show ?thesis using assms
      by (simp add: c_strtol_def dec_def m t digits_val_nat clamp_long_def Let_def)
  next
    case False
    then show ?thesis using assms h
      by (simp add: c_strtol_def dec_def d t digits_val_nat clamp_long_def Let_def nat_digits_ne)
  qed
qed

lemma atoi_dec: "- (2 ^ 31) \<le> i \<Longrightarrow> i < 2 ^ 31 \<Longrightarrow> c_atoi (dec i) = i"
  by (simp add: c_atoi_def strtol_dec to_int32_def)

end
