(* ===== verification/Cfg_Table.thy ===== *)
theory Cfg_Table
  imports Cfg_Text
begin

text \<open>
  The in-memory configuration of \<^verbatim>\<open>cfgfile.c\<close>: the table of entries with its capacity, the
  cursor of the compatibility layer, and the operations that read the table (\<^verbatim>\<open>cfg_rewind\<close>,
  \<^verbatim>\<open>cfg_nextentry\<close>, \<^verbatim>\<open>cfg_find\<close>) or change it (\<^verbatim>\<open>_cfg_poolalloc\<close>, \<^verbatim>\<open>cfg_storeentry\<close>,
  \<^verbatim>\<open>_cfg_parse\<close>, \<^verbatim>\<open>cfg_write\<close>). A pointer into the table is an index. The word \<^verbatim>\<open>flags\<close> of the
  configuration is its three parts: \<open>f_valid\<close> (\<^verbatim>\<open>CFG_VALID\<close>), \<open>f_eof\<close> (\<^verbatim>\<open>CFG_EOF\<close>) and \<open>f_type\<close>, the
  low four bits. \<^verbatim>\<open>malloc\<close> and \<^verbatim>\<open>strdup\<close> are taken to succeed.
\<close>

section \<open>State\<close>

record cfg_entry = line_item +
  e_flags :: u16

abbreviation FREE_SECTION :: u16 where "FREE_SECTION \<equiv> 0x8000"
abbreviation FREE_ID :: u16 where "FREE_ID \<equiv> 0x4000"
abbreviation FREE_VALUE :: u16 where "FREE_VALUE \<equiv> 0x2000"
abbreviation FREE_COMMENT :: u16 where "FREE_COMMENT \<equiv> 0x1000"

record tconfig =
  fileName :: string
  dirty :: bool
  image :: "string option"
  img_size :: nat
  mtime :: nat
  maxEntries :: nat
  entries :: "cfg_entry list"
  cursor :: nat
  cur_section :: "string option"
  cur_id :: "string option"
  cur_value :: "string option"
  f_valid :: bool
  f_eof :: bool
  f_type :: nat

abbreviation (input) CFG_SECTION :: nat where "CFG_SECTION \<equiv> 1"
abbreviation (input) CFG_DEFINE :: nat where "CFG_DEFINE \<equiv> 2"
abbreviation (input) CFG_CONTINUE :: nat where "CFG_CONTINUE \<equiv> 3"

text \<open>\<^verbatim>\<open>calloc\<close> and \<^verbatim>\<open>cfg_freeimage\<close> zero everything but the file name.\<close>

definition tconfig0 :: "string \<Rightarrow> tconfig" where
  "tconfig0 name =
     \<lparr>fileName = name, dirty = False, image = None, img_size = 0, mtime = 0, maxEntries = 0,
      entries = [], cursor = 0, cur_section = None, cur_id = None, cur_value = None,
      f_valid = False, f_eof = False, f_type = 0\<rparr>"

definition cfg_freeimage :: "tconfig \<Rightarrow> tconfig" where
  "cfg_freeimage p = tconfig0 (fileName p)"

section \<open>The pool of entries\<close>

text \<open>
  Room for one more entry (the only count the code asks for): whether the table moved, and the
  new capacity. \<^verbatim>\<open>sizeof (TCFGENTRY)\<close> is 40 (four pointers, flags and padding on a 64-bit machine).
\<close>

definition cfg_poolalloc :: "tconfig \<Rightarrow> bool \<times> tconfig" where
  "cfg_poolalloc p =
     (if length (entries p) + 1 > maxEntries p
      then (True, p\<lparr>maxEntries := (if maxEntries p \<noteq> 0 then 1 + maxEntries p + maxEntries p div 2
                                   else 1 + 4096 div 40)\<rparr>)
      else (False, p))"

text \<open>
  With \<open>dynamic\<close> the strings are copied and owned; the copy of the comment is a copy of the
  value, as in the code. The function returns 0.
\<close>

definition cfg_storeentry ::
  "tconfig \<Rightarrow> string option \<Rightarrow> string option \<Rightarrow> string option \<Rightarrow> string option \<Rightarrow> bool \<Rightarrow> tconfig cres" where
  "cfg_storeentry p section key value comment dynamic =
     (let p1 = snd (cfg_poolalloc p) in
      if dynamic then
        (if comment \<noteq> None \<and> value = None then Inl Null_Deref
         else
           let comment' = (if comment \<noteq> None then value else None);
               flags = (if section \<noteq> None then FREE_SECTION else 0) OR
                       (if key \<noteq> None then FREE_ID else 0) OR
                       (if value \<noteq> None then FREE_VALUE else 0) OR
                       (if comment' \<noteq> None then FREE_COMMENT else 0)
           in Inr (p1\<lparr>entries := entries p1 @
                [\<lparr>li_section = section, li_id = key, li_value = value, li_comment = comment', e_flags = flags\<rparr>]\<rparr>))
      else Inr (p1\<lparr>entries := entries p1 @
             [\<lparr>li_section = section, li_id = key, li_value = value, li_comment = comment, e_flags = 0\<rparr>]\<rparr>))"

section \<open>Parsing the image\<close>

text \<open>
  The loop over the image. A NUL inside the image is where \<^verbatim>\<open>_cfg_getline\<close> stops: the next round
  starts at the same place in the same state, so the loop never ends.
\<close>

function cfg_parse_loop :: "string \<Rightarrow> tconfig \<Rightarrow> tconfig cres" where
  "cfg_parse_loop img p =
     (if img = [] then Inr p
      else
        let (ok, line, rest) = cfg_getline img in
        if \<not> length rest < length img then Inl Diverges
        else if \<not> ok then cfg_parse_loop rest p
        else
          case cfg_parse_line line of
            None \<Rightarrow> cfg_parse_loop rest p
          | Some it \<Rightarrow>
              cbind (cfg_storeentry p (li_section it) (li_id it) (li_value it) (li_comment it) False)
                (\<lambda>p'. cfg_parse_loop rest p'))"
  by pat_completeness auto
termination by (relation "measure (length \<circ> fst)") auto

declare cfg_parse_loop.simps [simp del]

definition cfg_parse :: "tconfig \<Rightarrow> tconfig cres" where
  "cfg_parse p =
     (if f_valid p then Inr p
      else cbind (cfg_parse_loop (case image p of None \<Rightarrow> [] | Some s \<Rightarrow> s) p)
             (\<lambda>p'. Inr (p'\<lparr>f_valid := True\<rparr>)))"

section \<open>The cursor\<close>

definition cfg_rewind :: "tconfig \<Rightarrow> int \<times> tconfig" where
  "cfg_rewind p =
     (if \<not> f_valid p then (-1, p)
      else (0, p\<lparr>f_valid := True, f_eof := False, f_type := 0, cursor := 0\<rparr>))"

fun next_scan :: "cfg_entry list \<Rightarrow> tconfig \<Rightarrow> int \<times> tconfig" where
  "next_scan [] p = (-1, p\<lparr>f_eof := True\<rparr>)"
| "next_scan (e # es) p =
     (let p1 = p\<lparr>cursor := cursor p + 1\<rparr> in
      if li_section e \<noteq> None then (0, p1\<lparr>cur_section := li_section e, f_type := CFG_SECTION\<rparr>)
      else if li_value e \<noteq> None then
        (if li_id e \<noteq> None
         then (0, p1\<lparr>cur_value := li_value e, cur_id := li_id e, f_type := CFG_DEFINE\<rparr>)
         else (0, p1\<lparr>cur_value := li_value e, f_type := CFG_CONTINUE\<rparr>))
      else next_scan es p1)"

definition cfg_nextentry :: "tconfig \<Rightarrow> int \<times> tconfig" where
  "cfg_nextentry p =
     (if \<not> f_valid p \<or> f_eof p then (-1, p)
      else next_scan (drop (cursor p) (entries p)) (p\<lparr>f_type := 0, cur_id := None, cur_value := None\<rparr>))"

lemma next_scan_progress:
  "next_scan es p = (rc, p') \<Longrightarrow>
     entries p' = entries p \<and> (rc = 0 \<longrightarrow> cursor p < cursor p' \<and> cursor p' \<le> cursor p + length es)"
proof (induction es arbitrary: p)
  case (Cons e es)
  show ?case
  proof (cases "li_section e = None \<and> li_value e = None")
    case True
    with Cons.prems have "next_scan es (p\<lparr>cursor := cursor p + 1\<rparr>) = (rc, p')" by (simp add: Let_def)
    from Cons.IH [OF this] show ?thesis by auto
  next
    case False
    with Cons.prems show ?thesis by (auto simp: Let_def split: if_splits)
  qed
qed auto

lemma nextentry_entries: "cfg_nextentry p = (rc, p') \<Longrightarrow> entries p' = entries p"
  by (auto simp: cfg_nextentry_def split: if_splits dest: next_scan_progress)

lemma nextentry_measure:
  assumes "cfg_nextentry p = (0, p')"
  shows "length (entries p') - cursor p' < length (entries p) - cursor p"
proof -
  let ?q = "p\<lparr>f_type := 0, cur_id := None, cur_value := None\<rparr>"
  have "next_scan (drop (cursor p) (entries p)) ?q = (0, p')"
    using assms by (auto simp: cfg_nextentry_def split: if_splits)
  from next_scan_progress [OF this] show ?thesis by auto
qed

function cfg_find_loop ::
  "string option \<Rightarrow> string option \<Rightarrow> bool \<Rightarrow> tconfig \<Rightarrow> (int \<times> tconfig) cres" where
  "cfg_find_loop section key atsection p =
     (let (rc, p1) = cfg_nextentry p in
      if rc \<noteq> 0 then Inr (-1, p1)
      else if atsection then
        (if f_type p1 = CFG_SECTION then Inr (-1, p1)
         else if f_type p1 = CFG_DEFINE then
           (case remove_quotes (the (cur_id p1)) of
              None \<Rightarrow> cfg_find_loop section key True p1
            | Some szId \<Rightarrow>
                (case key of
                   None \<Rightarrow> Inl Null_Deref
                 | Some i \<Rightarrow> if szId = i then Inr (0, p1) else cfg_find_loop section key True p1))
         else cfg_find_loop section key True p1)
      else if f_type p1 = CFG_SECTION then
        (case section of
           None \<Rightarrow> Inl Null_Deref
         | Some s \<Rightarrow>
             if the (cur_section p1) = s
             then (if key = None then Inr (0, p1) else cfg_find_loop section key True p1)
             else cfg_find_loop section key False p1)
      else cfg_find_loop section key (section = None) p1)"
  by pat_completeness auto
termination
  by (relation "measure (\<lambda>(s, i, a, p). length (entries p) - cursor p)")
    (auto dest: sym [THEN nextentry_measure])

declare cfg_find_loop.simps [simp del]

definition cfg_find :: "tconfig \<Rightarrow> string option \<Rightarrow> string option \<Rightarrow> (int \<times> tconfig) cres" where
  "cfg_find p section key =
     (if \<not> f_valid p then Inr (-1, p) else cfg_find_loop section key False (snd (cfg_rewind p)))"

function cfg_next_section :: "tconfig \<Rightarrow> int \<times> tconfig" where
  "cfg_next_section p =
     (let (rc, p1) = cfg_nextentry p in
      if rc \<noteq> 0 then (-1, p1)
      else if f_type p1 = CFG_SECTION then (0, p1)
      else cfg_next_section p1)"
  by pat_completeness auto
termination
  by (relation "measure (\<lambda>p. length (entries p) - cursor p)") (auto dest: sym [THEN nextentry_measure])

declare cfg_next_section.simps [simp del]

section \<open>What a search finds\<close>

text \<open>
  The contract of a lookup: the value of the first definition with that name (quotes removed) in
  the first section of that name.
\<close>

fun in_section :: "string \<Rightarrow> cfg_entry list \<Rightarrow> string option" where
  "in_section k [] = None"
| "in_section k (e # es) =
     (if li_section e \<noteq> None then None
      else if li_value e \<noteq> None \<and> li_id e \<noteq> None \<and> remove_quotes (the (li_id e)) = Some k then li_value e
      else in_section k es)"

fun cfg_lookup :: "string \<Rightarrow> string \<Rightarrow> cfg_entry list \<Rightarrow> string option" where
  "cfg_lookup s k [] = None"
| "cfg_lookup s k (e # es) = (if li_section e = Some s then in_section k es else cfg_lookup s k es)"

definition blank :: "cfg_entry \<Rightarrow> bool" where
  "blank e \<longleftrightarrow> li_section e = None \<and> li_value e = None"

lemma in_section_blank: "list_all blank pre \<Longrightarrow> in_section k (pre @ es) = in_section k es"
  by (induction pre) (auto simp: blank_def)

lemma lookup_blank: "list_all blank pre \<Longrightarrow> cfg_lookup s k (pre @ es) = cfg_lookup s k es"
  by (induction pre) (auto simp: blank_def)

definition at_entry :: "tconfig \<Rightarrow> cfg_entry \<Rightarrow> bool" where
  "at_entry p e \<longleftrightarrow>
     (if li_section e \<noteq> None then f_type p = CFG_SECTION \<and> cur_section p = li_section e
      else cur_value p = li_value e \<and> cur_id p = li_id e \<and>
        f_type p = (if li_id e \<noteq> None then CFG_DEFINE else CFG_CONTINUE))"

definition reading :: "tconfig \<Rightarrow> bool" where
  "reading p \<longleftrightarrow> f_valid p \<and> \<not> f_eof p"

lemma next_scan_cases:
  assumes "drop (cursor p) (entries p) = es" "reading p" "cur_id p = None"
  shows "(list_all blank es \<and> (\<exists>p'. next_scan es p = (-1, p') \<and> entries p' = entries p \<and> f_valid p')) \<or>
    (\<exists>pre e post p'. es = pre @ e # post \<and> list_all blank pre \<and> \<not> blank e \<and> next_scan es p = (0, p') \<and>
       entries p' = entries p \<and> drop (cursor p') (entries p') = post \<and> reading p' \<and> at_entry p' e)"
  using assms
proof (induction es arbitrary: p)
  case Nil
  then show ?case by (auto simp: reading_def)
next
  case (Cons e es)
  have d: "drop (Suc (cursor p)) (entries p) = es" using Cons.prems(1) by (metis drop_Suc drop_tl list.sel(3))
  show ?case
  proof (cases "blank e")
    case True
    then have n: "next_scan (e # es) p = next_scan es (p\<lparr>cursor := Suc (cursor p)\<rparr>)"
      by (simp add: blank_def Let_def)
    have pr: "reading (p\<lparr>cursor := Suc (cursor p)\<rparr>)" using Cons.prems(2) by (simp add: reading_def)
    have dd: "drop (cursor (p\<lparr>cursor := Suc (cursor p)\<rparr>)) (entries (p\<lparr>cursor := Suc (cursor p)\<rparr>)) = es"
      using d by simp
    have "cur_id (p\<lparr>cursor := Suc (cursor p)\<rparr>) = None" using Cons.prems(3) by simp
    note IH = Cons.IH [OF dd pr this, folded n]
    show ?thesis
    proof (cases "list_all blank es")
      case all: True
      then have "\<nexists>pre e' post. es = pre @ e' # post \<and> list_all blank pre \<and> \<not> blank e'" by auto
      with IH have "\<exists>p'. next_scan (e # es) p = (-1, p') \<and> entries p' = entries p \<and> f_valid p'"
        by (auto simp del: next_scan.simps)
      with all True show ?thesis by (simp del: next_scan.simps)
    next
      case nall: False
      with IH obtain pre e' post p' where q: "es = pre @ e' # post" "list_all blank pre" "\<not> blank e'"
        "next_scan (e # es) p = (0, p')" "entries p' = entries p" "drop (cursor p') (entries p') = post"
        "reading p'" "at_entry p' e'" by (auto simp del: next_scan.simps)
      have "e # es = (e # pre) @ e' # post" "list_all blank (e # pre)" using q(1,2) True by simp_all
      with q(3-8) show ?thesis by blast
    qed
  next
    case False
    have "\<exists>p'. next_scan (e # es) p = (0, p') \<and> entries p' = entries p \<and> drop (cursor p') (entries p') = es \<and>
        reading p' \<and> at_entry p' e"
      using False d Cons.prems(2,3) by (auto simp: blank_def reading_def at_entry_def Let_def)
    then have "\<exists>pre e' post p'. e # es = pre @ e' # post \<and> list_all blank pre \<and> \<not> blank e' \<and>
        next_scan (e # es) p = (0, p') \<and> entries p' = entries p \<and> drop (cursor p') (entries p') = post \<and>
        reading p' \<and> at_entry p' e'"
      using False by (intro exI [of _ "[]"] exI [of _ e] exI [of _ es]) simp
    then show ?thesis by blast
  qed
qed

lemma nextentry_cases:
  assumes "reading p"
  obtains p' where "list_all blank (drop (cursor p) (entries p))" "cfg_nextentry p = (-1, p')"
      "entries p' = entries p" "f_valid p'"
  | pre e post p' where "drop (cursor p) (entries p) = pre @ e # post" "list_all blank pre" "\<not> blank e"
      "cfg_nextentry p = (0, p')" "entries p' = entries p" "drop (cursor p') (entries p') = post"
      "reading p'" "at_entry p' e"
proof -
  let ?q = "p\<lparr>f_type := 0, cur_id := None, cur_value := None\<rparr>"
  have n: "cfg_nextentry p = next_scan (drop (cursor p) (entries p)) ?q"
    using assms by (simp add: cfg_nextentry_def reading_def)
  have "drop (cursor ?q) (entries ?q) = drop (cursor p) (entries p)" "reading ?q" "cur_id ?q = None"
    using assms by (simp_all add: reading_def)
  from next_scan_cases [OF this] show ?thesis using that n by auto
qed

lemma find_loop_in:
  "reading p \<Longrightarrow>
   \<exists>rc p'. cfg_find_loop sec (Some k) True p = Inr (rc, p') \<and> entries p' = entries p \<and> f_valid p' \<and>
     (case in_section k (drop (cursor p) (entries p)) of
        None \<Rightarrow> rc = -1 | Some v \<Rightarrow> rc = 0 \<and> cur_value p' = Some v)"
proof (induction "length (entries p) - cursor p" arbitrary: p rule: less_induct)
  case less
  from less.prems show ?case
  proof (cases p rule: nextentry_cases)
    case (1 p')
    then show ?thesis using in_section_blank [of "drop (cursor p) (entries p)" k "[]"]
      by (subst cfg_find_loop.simps) simp
  next
    case (2 pre e post p')
    have i: "in_section k (drop (cursor p) (entries p)) = in_section k (e # post)"
      unfolding 2(1) by (rule in_section_blank [OF 2(2)])
    have IH: "\<exists>rc q. cfg_find_loop sec (Some k) True p' = Inr (rc, q) \<and> entries q = entries p' \<and> f_valid q \<and>
     (case in_section k post of None \<Rightarrow> rc = -1 | Some v \<Rightarrow> rc = 0 \<and> cur_value q = Some v)"
      using less.hyps [OF nextentry_measure [OF 2(4)] 2(7)] 2(6) by simp
    have v: "f_valid p'" using 2(7) by (simp add: reading_def)
    show ?thesis
      unfolding i using 2(3-5,8) IH v
      by (subst cfg_find_loop.simps)
        (auto simp: at_entry_def blank_def split: option.splits if_splits)
  qed
qed

lemma find_loop_out:
  "reading p \<Longrightarrow>
   \<exists>rc p'. cfg_find_loop (Some s) (Some k) False p = Inr (rc, p') \<and> entries p' = entries p \<and> f_valid p' \<and>
     (case cfg_lookup s k (drop (cursor p) (entries p)) of
        None \<Rightarrow> rc = -1 | Some v \<Rightarrow> rc = 0 \<and> cur_value p' = Some v)"
proof (induction "length (entries p) - cursor p" arbitrary: p rule: less_induct)
  case less
  from less.prems show ?case
  proof (cases p rule: nextentry_cases)
    case (1 p')
    then show ?thesis using lookup_blank [of "drop (cursor p) (entries p)" s k "[]"]
      by (subst cfg_find_loop.simps) simp
  next
    case (2 pre e post p')
    have i: "cfg_lookup s k (drop (cursor p) (entries p)) = cfg_lookup s k (e # post)"
      unfolding 2(1) by (rule lookup_blank [OF 2(2)])
    have IH: "\<exists>rc q. cfg_find_loop (Some s) (Some k) False p' = Inr (rc, q) \<and> entries q = entries p' \<and> f_valid q \<and>
     (case cfg_lookup s k post of None \<Rightarrow> rc = -1 | Some v \<Rightarrow> rc = 0 \<and> cur_value q = Some v)"
      using less.hyps [OF nextentry_measure [OF 2(4)] 2(7)] 2(6) by simp
    have IN: "\<exists>rc q. cfg_find_loop (Some s) (Some k) True p' = Inr (rc, q) \<and> entries q = entries p' \<and> f_valid q \<and>
     (case in_section k post of None \<Rightarrow> rc = -1 | Some v \<Rightarrow> rc = 0 \<and> cur_value q = Some v)"
      using find_loop_in [OF 2(7)] 2(6) by simp
    show ?thesis
      unfolding i using 2(3-5,8) IH IN
      by (subst cfg_find_loop.simps)
        (auto simp: at_entry_def blank_def split: option.splits if_splits)
  qed
qed

lemma cfg_find_lookup:
  assumes "f_valid p"
  shows "\<exists>rc p'. cfg_find p (Some s) (Some k) = Inr (rc, p') \<and> entries p' = entries p \<and> f_valid p' \<and>
     (case cfg_lookup s k (entries p) of None \<Rightarrow> rc = -1 | Some v \<Rightarrow> rc = 0 \<and> cur_value p' = Some v)"
proof -
  let ?q = "snd (cfg_rewind p)"
  have q: "reading ?q" "entries ?q = entries p" "cursor ?q = 0"
    using assms by (simp_all add: cfg_rewind_def reading_def)
  from find_loop_out [OF q(1), of s k] show ?thesis using assms q(2,3) by (simp add: cfg_find_def)
qed

section \<open>When the parser ends\<close>

lemma getline_split:
  assumes "cfg_getline img = (ok, line, rest)"
  shows "\<exists>pre. img = pre @ rest \<and> NUL \<notin> set pre \<and> (img \<noteq> [] \<and> hd img \<noteq> NUL \<longrightarrow> pre \<noteq> [])"
proof -
  let ?P = "\<lambda>c. c \<noteq> NUL \<and> iseolchar c" and ?Q = "\<lambda>c. c \<noteq> NUL \<and> \<not> iseolchar c"
  let ?st = "dropWhile ?P img"
  let ?pre = "takeWhile ?P img @ takeWhile ?Q ?st"
  have a: "img = ?pre @ dropWhile ?Q ?st" by simp
  have n: "NUL \<notin> set ?pre" by (auto dest: set_takeWhileD)
  have e: "img \<noteq> [] \<and> hd img \<noteq> NUL \<longrightarrow> ?pre \<noteq> []" by (cases img) auto
  show ?thesis
  proof (cases "dropWhile ?Q ?st")
    case Nil
    have r: "rest = []"
      using assms unfolding cfg_getline_def Let_def Nil by (simp only: list.case prod.inject)
    with a Nil have "img = ?pre @ rest" by metis
    with n e show ?thesis by blast
  next
    case (Cons c r)
    show ?thesis
    proof (cases "c = NUL")
      case True
      have "rest = c # r"
        using assms True unfolding cfg_getline_def Let_def Cons by (simp only: list.case prod.inject simp_thms if_True)
      with a Cons have "img = ?pre @ rest" by metis
      with n e show ?thesis by blast
    next
      case False
      have "rest = r"
        using assms False unfolding cfg_getline_def Let_def Cons by (simp only: list.case prod.inject simp_thms if_False)
      then have "img = (?pre @ [c]) @ rest" using a Cons
        by (metis append.assoc append_Cons append_Nil)
      moreover have "NUL \<notin> set (?pre @ [c])" using n False by auto
      ultimately show ?thesis by blast
    qed
  qed
qed

lemma getline_stuck:
  assumes "img \<noteq> []" "cfg_getline img = (ok, line, rest)"
  shows "length rest < length img \<longleftrightarrow> hd img \<noteq> NUL"
proof -
  obtain pre where p: "img = pre @ rest" "NUL \<notin> set pre" "img \<noteq> [] \<and> hd img \<noteq> NUL \<longrightarrow> pre \<noteq> []"
    using getline_split [OF assms(2)] by blast
  then show ?thesis using assms(1) by (cases pre) auto
qed

lemma storeentry_static:
  "cfg_storeentry p s k v c False = Inr (snd (cfg_poolalloc p)\<lparr>entries := entries p @
     [\<lparr>li_section = s, li_id = k, li_value = v, li_comment = c, e_flags = 0\<rparr>]\<rparr>)"
  by (simp add: cfg_storeentry_def Let_def cfg_poolalloc_def)

lemma parse_loop_ends:
  "if NUL \<in> set img then cfg_parse_loop img p = Inl Diverges else is_ok (cfg_parse_loop img p)"
proof (induction "length img" arbitrary: img p rule: less_induct)
  case less
  show ?case
  proof (cases "img = []")
    case True
    then show ?thesis by (simp add: cfg_parse_loop.simps)
  next
    case False
    obtain ok line rest where g: "cfg_getline img = (ok, line, rest)" by (cases "cfg_getline img")
    obtain pre where pr: "img = pre @ rest" "NUL \<notin> set pre" using getline_split [OF g] by blast
    show ?thesis
    proof (cases "hd img = NUL")
      case True
      then have "\<not> length rest < length img" "NUL \<in> set img"
        using getline_stuck [OF False g] False by (auto intro: hd_in_set simp: True [symmetric])
      then show ?thesis using False by (subst cfg_parse_loop.simps) (simp add: g)
    next
      case h: False
      then have l: "length rest < length img" using getline_stuck [OF False g] by simp
      have IH: "if NUL \<in> set rest then cfg_parse_loop rest q = Inl Diverges else is_ok (cfg_parse_loop rest q)"
        for q by (rule less.hyps [OF l])
      have m: "NUL \<in> set img \<longleftrightarrow> NUL \<in> set rest" using pr by auto
      have "cfg_parse_loop img p = (if \<not> ok then cfg_parse_loop rest p else
          (case cfg_parse_line line of None \<Rightarrow> cfg_parse_loop rest p | Some it \<Rightarrow>
             cbind (cfg_storeentry p (li_section it) (li_id it) (li_value it) (li_comment it) False)
               (\<lambda>p'. cfg_parse_loop rest p')))"
        using cfg_parse_loop.simps [of img p] False l g by simp
      then have "\<exists>q. cfg_parse_loop img p = cfg_parse_loop rest q"
        by (cases "cfg_parse_line line"; cases ok) (simp_all only: storeentry_static cbind.simps option.case, auto)
      then obtain q where "cfg_parse_loop img p = cfg_parse_loop rest q" by blast
      with IH [of q] show ?thesis unfolding m by metis
    qed
  qed
qed

end
