(* ===== verification/Cfg_Write.thy ===== *)
theory Cfg_Write
  imports Cfg_Table
begin

text \<open>
  \<^verbatim>\<open>cfg_write\<close> of \<^verbatim>\<open>cfgfile.c\<close> (update, insert and delete) and the numeric writers on top of it.
  Its pointers into the table are indices; reading before the table, after it, or through a
  pointer that \<^verbatim>\<open>_cfg_poolalloc\<close> has freed is a fault.
\<close>

section \<open>Operations\<close>

fun find_index :: "('a \<Rightarrow> bool) \<Rightarrow> 'a list \<Rightarrow> nat option" where
  "find_index P [] = None"
| "find_index P (x # xs) = (if P x then Some 0 else map_option Suc (find_index P xs))"

text \<open>\<^verbatim>\<open>iswhite (e2->comment[0])\<close> holds of an empty comment: its first character is the NUL.\<close>

definition block_comment :: "cfg_entry \<Rightarrow> bool" where
  "block_comment e \<longleftrightarrow>
     (case li_comment e of
        None \<Rightarrow> False
      | Some c \<Rightarrow> li_section e = None \<and> li_id e = None \<and> li_value e = None \<and>
          (let c0 = (if c = [] then NUL else hd c) in iswhite c0 \<or> iscomment c0))"

text \<open>
  \<^verbatim>\<open>e2 = e - 1; while (...) e2--; e = e2 + 1\<close>. \<open>None\<close>: the loop reads \<^verbatim>\<open>entries[-1]\<close>.
\<close>

fun move_up :: "cfg_entry list \<Rightarrow> nat \<Rightarrow> nat option" where
  "move_up es 0 = None"
| "move_up es (Suc i) = (if block_comment (es ! i) then move_up es i else Some (Suc i))"

text \<open>The update of the value of entry \<open>i\<close>: an owned value is freed, the new one is owned.\<close>

definition set_value :: "nat \<Rightarrow> string \<Rightarrow> tconfig \<Rightarrow> tconfig" where
  "set_value i v p =
     (let e = entries p ! i;
          e' = (if li_value e \<noteq> None \<and> e_flags e AND FREE_VALUE \<noteq> 0
                then e\<lparr>e_flags := e_flags e AND NOT FREE_VALUE\<rparr> else e)
      in p\<lparr>dirty := True,
           entries := (entries p)[i := e'\<lparr>li_value := Some v, e_flags := e_flags e' OR FREE_VALUE\<rparr>]\<rparr>)"

text \<open>
  The insertion before entry \<open>i\<close>. If the table moves, \<^verbatim>\<open>e\<close> still points into the freed one. The
  \<^verbatim>\<open>memmove\<close> counts one entry too many, since \<^verbatim>\<open>numEntries\<close> has grown already: the move writes
  one entry past the new end, which must still be inside the table.
\<close>

definition insert_entry :: "nat \<Rightarrow> string \<Rightarrow> string \<Rightarrow> tconfig \<Rightarrow> tconfig cres" where
  "insert_entry i key v p =
     (let (moved, p1) = cfg_poolalloc p in
      if moved then Inl Use_After_Free
      else if length (entries p) + 2 > maxEntries p1 then Inl Out_Of_Bounds
      else Inr (p1\<lparr>entries := take i (entries p) @
             [\<lparr>li_section = None, li_id = Some key, li_value = Some v, li_comment = None,
               e_flags = e_flags (entries p ! i) OR (FREE_ID OR FREE_VALUE)\<rparr>] @ drop i (entries p),
             dirty := True\<rparr>))"

text \<open>\<^verbatim>\<open>doDelete\<close>: delete from \<open>eSect\<close>, moved up over its comments, to before \<open>e\<close>.\<close>

definition do_delete :: "nat \<Rightarrow> nat \<Rightarrow> tconfig \<Rightarrow> tconfig cres" where
  "do_delete eSect e p =
     (case move_up (entries p) eSect of
        None \<Rightarrow> Inl Out_Of_Bounds
      | Some i \<Rightarrow> Inr (p\<lparr>entries := take i (entries p) @ drop e (entries p), dirty := True\<rparr>))"

text \<open>The first entry after position \<open>j\<close> that starts a section or satisfies \<open>P\<close>.\<close>

definition next_stop :: "(cfg_entry \<Rightarrow> bool) \<Rightarrow> nat \<Rightarrow> tconfig \<Rightarrow> nat option" where
  "next_stop P j p =
     map_option (\<lambda>d. Suc j + d) (find_index (\<lambda>e. li_section e \<noteq> None \<or> P e) (drop (Suc j) (entries p)))"

definition cfg_write ::
  "tconfig \<Rightarrow> string option \<Rightarrow> string option \<Rightarrow> string option \<Rightarrow> (int \<times> tconfig) cres" where
  "cfg_write p section key val =
     (if \<not> f_valid p then Inr (-1, p)
      else case section of
        None \<Rightarrow>
          (if key = None \<and> (\<exists>e \<in> set (entries p). li_id e \<noteq> None) then Inl Null_Deref
           else case find_index (\<lambda>e. li_id e \<noteq> None \<and> li_id e = key) (entries p) of
             Some i \<Rightarrow> (case val of
                 None \<Rightarrow> Inl Null_Deref
               | Some v \<Rightarrow> Inr (0, set_value i v p))
           | None \<Rightarrow> Inl (if maxEntries p = 0 then Null_Deref else Out_Of_Bounds))
      | Some s \<Rightarrow>
          (case find_index (\<lambda>e. li_section e = Some s) (entries p) of
             None \<Rightarrow>
               (if key = None \<or> val = None then Inr (0, p)
                else
                  cbind (cfg_storeentry p section None None None True) (\<lambda>p1.
                  cbind (cfg_storeentry p1 None key val None True) (\<lambda>p2.
                  Inr (0, p2\<lparr>dirty := True\<rparr>))))
           | Some j \<Rightarrow>
               (case key of
                  Some i \<Rightarrow>
                    (case val of
                       Some v \<Rightarrow>
                         (case next_stop (\<lambda>e. li_id e = Some i) j p of
                            Some n \<Rightarrow>
                              if li_section (entries p ! n) \<noteq> None
                              then cbind (insert_entry n i v p) (\<lambda>p'. Inr (0, p'))
                              else Inr (0, set_value n v p)
                          | None \<Rightarrow>
                              cbind (cfg_storeentry p None key val None True) (\<lambda>p1.
                              Inr (0, p1\<lparr>dirty := True\<rparr>)))
                     | None \<Rightarrow>
                         (case next_stop (\<lambda>e. li_id e = Some i) j p of
                            Some n \<Rightarrow>
                              if li_section (entries p ! n) \<noteq> None then Inr (0, p)
                              else cbind (do_delete n (n + 1) p) (\<lambda>p'. Inr (0, p'))
                          | None \<Rightarrow> Inr (0, p)))
                | None \<Rightarrow>
                    (let e = (case next_stop (\<lambda>_. False) j p of Some n \<Rightarrow> n | None \<Rightarrow> length (entries p))
                     in case move_up (entries p) e of
                          None \<Rightarrow> Inl Out_Of_Bounds
                        | Some e' \<Rightarrow> cbind (do_delete j e' p) (\<lambda>p'. Inr (0, p'))))))"

text \<open>\<^verbatim>\<open>sprintf\<close> into a buffer of \<open>n\<close> bytes.\<close>

definition sprintf_buf :: "nat \<Rightarrow> string \<Rightarrow> string cres" where
  "sprintf_buf n s = (if n \<le> length s then Inl Out_Of_Bounds else Inr s)"

definition cfg_writelong :: "tconfig \<Rightarrow> string option \<Rightarrow> string option \<Rightarrow> 64 word \<Rightarrow> (int \<times> tconfig) cres" where
  "cfg_writelong p section key val =
     cbind (sprintf_buf 16 (dec (sint val))) (\<lambda>t. cfg_write p section key (Some t))"

definition cfg_writeint :: "tconfig \<Rightarrow> string option \<Rightarrow> string option \<Rightarrow> u32 \<Rightarrow> (int \<times> tconfig) cres" where
  "cfg_writeint p section key val =
     cbind (sprintf_buf 16 (dec (sint val))) (\<lambda>t. cfg_write p section key (Some t))"

definition cfg_writeshort :: "tconfig \<Rightarrow> string option \<Rightarrow> string option \<Rightarrow> u16 \<Rightarrow> (int \<times> tconfig) cres" where
  "cfg_writeshort p section key val =
     cbind (sprintf_buf 16 (dec (uint val))) (\<lambda>t. cfg_write p section key (Some t))"

definition cfg_writebyte :: "tconfig \<Rightarrow> string option \<Rightarrow> string option \<Rightarrow> u8 \<Rightarrow> (int \<times> tconfig) cres" where
  "cfg_writebyte p section key val =
     cbind (sprintf_buf 16 (dec (uint val))) (\<lambda>t. cfg_write p section key (Some t))"

section \<open>Index searches\<close>

lemma find_index_None: "find_index P xs = None \<longleftrightarrow> (\<forall>x \<in> set xs. \<not> P x)"
  by (induction xs) auto

lemma find_index_Some:
  "find_index P xs = Some i \<Longrightarrow> i < length xs \<and> P (xs ! i) \<and> (\<forall>x \<in> set (take i xs). \<not> P x)"
  by (induction xs arbitrary: i) (auto split: if_splits simp: nth_Cons')

lemma find_index_split:
  assumes "find_index P xs = Some i"
  obtains pre x post where "xs = pre @ x # post" "length pre = i" "P x" "\<forall>y \<in> set pre. \<not> P y"
  using find_index_Some [OF assms] id_take_nth_drop [of i xs] by (metis length_take min.absorb4)

lemma move_up_le: "move_up es i = Some k \<Longrightarrow> k \<le> i \<and> 0 < k \<and> \<not> block_comment (es ! (k - 1)) \<and>
    (\<forall>j. k \<le> j \<and> j < i \<longrightarrow> block_comment (es ! j))"
  by (induction i) (auto split: if_splits simp: less_Suc_eq)

section \<open>The table as a store of definitions\<close>

text \<open>
  A write of one definition on the list of entries: what the found branches of \<^verbatim>\<open>cfg_write\<close> do
  to it. \<open>upd_in\<close> works on the entries after the section's header.
\<close>

definition new_def :: "u16 \<Rightarrow> string \<Rightarrow> string \<Rightarrow> cfg_entry" where
  "new_def fl k v = \<lparr>li_section = None, li_id = Some k, li_value = Some v, li_comment = None, e_flags = fl\<rparr>"

definition upd_value :: "string \<Rightarrow> cfg_entry \<Rightarrow> cfg_entry" where
  "upd_value v e =
     (let e' = (if li_value e \<noteq> None \<and> e_flags e AND FREE_VALUE \<noteq> 0
                then e\<lparr>e_flags := e_flags e AND NOT FREE_VALUE\<rparr> else e)
      in e'\<lparr>li_value := Some v, e_flags := e_flags e' OR FREE_VALUE\<rparr>)"

lemma upd_value_simps [simp]:
  "li_section (upd_value v e) = li_section e" "li_id (upd_value v e) = li_id e"
  "li_value (upd_value v e) = Some v" "li_comment (upd_value v e) = li_comment e"
  by (simp_all add: upd_value_def Let_def)

fun upd_in :: "string \<Rightarrow> string \<Rightarrow> cfg_entry list \<Rightarrow> cfg_entry list" where
  "upd_in k v [] = [new_def (FREE_ID OR FREE_VALUE) k v]"
| "upd_in k v (e # es) =
     (if li_section e \<noteq> None then new_def (e_flags e OR (FREE_ID OR FREE_VALUE)) k v # e # es
      else if li_id e = Some k then upd_value v e # es
      else e # upd_in k v es)"

fun upd_table :: "string \<Rightarrow> string \<Rightarrow> string \<Rightarrow> cfg_entry list \<Rightarrow> cfg_entry list" where
  "upd_table s k v [] =
     [\<lparr>li_section = Some s, li_id = None, li_value = None, li_comment = None, e_flags = FREE_SECTION\<rparr>,
      new_def (FREE_ID OR FREE_VALUE) k v]"
| "upd_table s k v (e # es) =
     (if li_section e = Some s then e # upd_in k v es else e # upd_table s k v es)"

lemma upd_in_stop:
  assumes "find_index (\<lambda>e. li_section e \<noteq> None \<or> li_id e = Some k) es = Some n"
  shows "upd_in k v es =
    (if li_section (es ! n) \<noteq> None
     then take n es @ [new_def (e_flags (es ! n) OR (FREE_ID OR FREE_VALUE)) k v] @ drop n es
     else es[n := upd_value v (es ! n)])"
  using assms by (induction es arbitrary: n) (auto split: if_splits)

lemma upd_in_end:
  "find_index (\<lambda>e. li_section e \<noteq> None \<or> li_id e = Some k) es = None \<Longrightarrow>
   upd_in k v es = es @ [new_def (FREE_ID OR FREE_VALUE) k v]"
  by (induction es) (auto split: if_splits)

lemma upd_table_found:
  "\<forall>e \<in> set pre. li_section e \<noteq> Some s \<Longrightarrow> li_section e = Some s \<Longrightarrow>
   upd_table s k v (pre @ e # post) = pre @ e # upd_in k v post"
  by (induction pre) auto

lemma upd_table_none:
  "\<forall>e \<in> set es. li_section e \<noteq> Some s \<Longrightarrow>
   upd_table s k v es = es @ upd_table s k v []"
  by (induction es) auto

lemma storeentry_dynamic:
  "cfg_storeentry p s k v None True = Inr (snd (cfg_poolalloc p)\<lparr>entries := entries p @
     [\<lparr>li_section = s, li_id = k, li_value = v, li_comment = None,
       e_flags = (if s \<noteq> None then FREE_SECTION else 0) OR (if k \<noteq> None then FREE_ID else 0) OR
                 (if v \<noteq> None then FREE_VALUE else 0)\<rparr>]\<rparr>)"
  by (simp add: cfg_storeentry_def Let_def cfg_poolalloc_def)

lemma poolalloc_same [simp]:
  "entries (snd (cfg_poolalloc p)) = entries p" "f_valid (snd (cfg_poolalloc p)) = f_valid p"
  "fileName (snd (cfg_poolalloc p)) = fileName p" "dirty (snd (cfg_poolalloc p)) = dirty p"
  by (simp_all add: cfg_poolalloc_def)

lemma set_value_entries:
  "entries (set_value i v p) = (entries p)[i := upd_value v (entries p ! i)]"
  by (simp add: set_value_def upd_value_def Let_def)

lemma insert_entry_Inr:
  "insert_entry i k v p = Inr p' \<Longrightarrow>
   entries p' = take i (entries p) @ [new_def (e_flags (entries p ! i) OR (FREE_ID OR FREE_VALUE)) k v] @
     drop i (entries p) \<and> dirty p' \<and> f_valid p' = f_valid p \<and> fileName p' = fileName p"
  by (auto simp: insert_entry_def cfg_poolalloc_def new_def_def split: if_splits)

lemma flags_kv: "(0 :: u16) OR FREE_ID OR FREE_VALUE = FREE_ID OR FREE_VALUE"
  "FREE_SECTION OR (0 :: u16) OR 0 = FREE_SECTION"
  by simp_all

text \<open>A write of a definition, when it does not fault, is \<open>upd_table\<close>.\<close>

lemma cfg_write_upd:
  assumes "f_valid p" "cfg_write p (Some s) (Some k) (Some v) = Inr (rc, p')"
  shows "rc = 0 \<and> entries p' = upd_table s k v (entries p) \<and> dirty p' \<and> f_valid p' \<and> fileName p' = fileName p"
proof (cases "find_index (\<lambda>e. li_section e = Some s) (entries p)")
  case None
  then have u: "upd_table s k v (entries p) = entries p @ upd_table s k v []"
    by (intro upd_table_none) (simp add: find_index_None)
  show ?thesis using assms None
    by (auto simp: cfg_write_def storeentry_dynamic new_def_def u)
next
  case (Some j)
  then obtain pre e post where es: "entries p = pre @ e # post" "length pre = j" "li_section e = Some s"
    "\<forall>y \<in> set pre. li_section y \<noteq> Some s" by (rule find_index_split)
  have u: "upd_table s k v (entries p) = pre @ e # upd_in k v post"
    unfolding es(1) by (rule upd_table_found [OF es(4,3)])
  have d: "drop (Suc j) (entries p) = post" using es(1,2) by simp
  let ?f = "find_index (\<lambda>e. li_section e \<noteq> None \<or> li_id e = Some k) post"
  show ?thesis
  proof (cases ?f)
    case None
    then have "next_stop (\<lambda>e. li_id e = Some k) j p = None" by (simp add: next_stop_def d)
    then show ?thesis using assms Some u es(1) upd_in_end [OF None]
      by (auto simp: cfg_write_def storeentry_dynamic new_def_def)
  next
    case (Some n)
    then have ns: "next_stop (\<lambda>e. li_id e = Some k) j p = Some (Suc j + n)" by (simp add: next_stop_def d)
    have n: "n < length post" using find_index_Some [OF Some] by simp
    have at: "entries p ! (Suc j + n) = post ! n" using d es by (simp add: nth_append)
    have tk: "take (Suc j + n) (entries p) = pre @ e # take n post"
      "drop (Suc j + n) (entries p) = drop n post" using es(1,2) by simp_all
    show ?thesis
    proof (cases "li_section (post ! n) = None")
      case True
      then have "cfg_write p (Some s) (Some k) (Some v) = Inr (0, set_value (Suc j + n) v p)"
        using assms(1) \<open>find_index _ (entries p) = Some j\<close> ns at by (simp add: cfg_write_def)
      moreover have "(entries p)[Suc j + n := x] = pre @ e # post[n := x]" for x
        using es(1,2) by (simp add: list_update_append)
      ultimately show ?thesis using assms u upd_in_stop [OF Some, of v] True at
        by (auto simp: set_value_entries) (simp_all add: set_value_def Let_def)
    next
      case False
      then have "cfg_write p (Some s) (Some k) (Some v) = cbind (insert_entry (Suc j + n) k v p) (\<lambda>p'. Inr (0, p'))"
        using assms(1) \<open>find_index _ (entries p) = Some j\<close> ns at by (simp add: cfg_write_def)
      then have "insert_entry (Suc j + n) k v p = Inr p'" "rc = 0"
        using assms(2) by (cases "insert_entry (Suc j + n) k v p"; simp)+
      from insert_entry_Inr [OF this(1), unfolded at tk] \<open>rc = 0\<close> show ?thesis
        using u upd_in_stop [OF Some, of v] False assms(1) by simp
    qed
  qed
qed

lemma cfg_write_ok:
  assumes "length (entries p) + 2 \<le> maxEntries p \<or> entries p = []"
  shows "is_ok (cfg_write p (Some s) (Some k) (Some v))"
proof -
  have "is_ok (cbind (insert_entry n k v p) (\<lambda>p'. Inr (0 :: int, p')))" if "entries p \<noteq> []" for n
    using assms that by (auto simp: insert_entry_def cfg_poolalloc_def)
  moreover have "entries p = [] \<Longrightarrow> next_stop P j p = None" for P j by (simp add: next_stop_def)
  ultimately show ?thesis
    by (cases "entries p = []") (auto simp: cfg_write_def storeentry_dynamic split: option.split)
qed

section \<open>The store contract\<close>

text \<open>
  What the users of a store of definitions rely on: a write is found, a write changes no other
  name, and a write keeps the invariant.
\<close>

locale kv_store =
  fixes lookup :: "'s \<Rightarrow> string \<Rightarrow> string \<Rightarrow> string option"
    and put :: "'s \<Rightarrow> string \<Rightarrow> string \<Rightarrow> string \<Rightarrow> 's \<Rightarrow> bool"
    and inv :: "'s \<Rightarrow> bool" and ok :: "string \<Rightarrow> string \<Rightarrow> string \<Rightarrow> bool"
  assumes put_inv: "inv st \<Longrightarrow> ok s k v \<Longrightarrow> put st s k v st' \<Longrightarrow> inv st'"
    and put_lookup: "inv st \<Longrightarrow> ok s k v \<Longrightarrow> put st s k v st' \<Longrightarrow>
      lookup st' a b = (if a = s \<and> b = k then Some v else lookup st a b)"
begin

inductive puts :: "'s \<Rightarrow> (string \<times> string \<times> string) list \<Rightarrow> 's \<Rightarrow> bool" where
  puts_Nil: "puts st [] st"
| puts_Cons: "ok s k v \<Longrightarrow> put st s k v st' \<Longrightarrow> puts st' ws st'' \<Longrightarrow> puts st ((s, k, v) # ws) st''"

lemma puts_inv: "puts st ws st' \<Longrightarrow> inv st \<Longrightarrow> inv st'"
  by (induction rule: puts.induct) (auto intro: put_inv)

text \<open>After any writes a lookup gives the last value written under the name, else the old one.\<close>

lemma puts_lookup:
  "puts st ws st' \<Longrightarrow> inv st \<Longrightarrow>
   lookup st' a b =
     (case map_of (rev (map (\<lambda>(s, k, v). ((s, k), v)) ws)) (a, b) of Some v \<Rightarrow> Some v | None \<Rightarrow> lookup st a b)"
proof (induction rule: puts.induct)
  case (puts_Cons s k v st st' ws st'')
  have "inv st'" using puts_Cons.prems puts_Cons.hyps by (blast intro: put_inv)
  from puts_Cons.IH [OF this] show ?case
    using put_lookup [OF puts_Cons.prems puts_Cons.hyps(1,2), of a b]
    by (auto simp: map_add_def split: option.splits)
qed simp

end

text \<open>Names without quotes, on which a search and a write agree.\<close>

definition plain_key :: "string \<Rightarrow> bool" where
  "plain_key k \<longleftrightarrow> remove_quotes k = Some k"

definition plain_entry :: "cfg_entry \<Rightarrow> bool" where
  "plain_entry e \<longleftrightarrow> (\<forall>i. li_id e = Some i \<longrightarrow> remove_quotes i = Some i \<or> remove_quotes i = None)"

lemma in_section_upd:
  assumes "plain_key k" "list_all plain_entry es"
  shows "in_section b (upd_in k v es) = (if b = k then Some v else in_section b es)"
  using assms by (induction es) (auto simp: plain_key_def plain_entry_def new_def_def)

lemma lookup_upd:
  assumes "plain_key k" "list_all plain_entry es"
  shows "cfg_lookup a b (upd_table s k v es) = (if a = s \<and> b = k then Some v else cfg_lookup a b es)"
  using assms(2)
proof (induction es)
  case Nil
  then show ?case using assms(1) by (auto simp: new_def_def plain_key_def)
next
  case (Cons e es)
  have "li_section e = Some a \<Longrightarrow> a \<noteq> s \<Longrightarrow> in_section b (upd_table s k v es) = in_section b es"
    by (induction es) (auto simp: new_def_def)
  moreover have "cfg_lookup a b (upd_in k v es) = cfg_lookup a b es"
    by (induction es) (auto simp: new_def_def)
  ultimately show ?case using Cons in_section_upd [OF assms(1), of es b v] by auto
qed

lemma plain_upd:
  assumes "plain_key k" "list_all plain_entry es"
  shows "list_all plain_entry (upd_table s k v es)"
proof -
  have "list_all plain_entry (upd_in k v es)" if "list_all plain_entry es" for es
    using that assms(1) by (induction es) (auto simp: plain_key_def plain_entry_def new_def_def)
  with assms show ?thesis
    by (induction es) (auto simp: plain_key_def plain_entry_def new_def_def)
qed

definition table_put :: "tconfig \<Rightarrow> string \<Rightarrow> string \<Rightarrow> string \<Rightarrow> tconfig \<Rightarrow> bool" where
  "table_put p s k v p' \<longleftrightarrow> cfg_write p (Some s) (Some k) (Some v) = Inr (0, p')"

definition table_inv :: "tconfig \<Rightarrow> bool" where
  "table_inv p \<longleftrightarrow> f_valid p \<and> list_all plain_entry (entries p)"

interpretation table: kv_store "\<lambda>p s k. cfg_lookup s k (entries p)" table_put table_inv "\<lambda>s k v. plain_key k"
proof
  fix p p' s k v
  assume "table_inv p" "plain_key k" "table_put p s k v p'"
  moreover from this have "entries p' = upd_table s k v (entries p) \<and> f_valid p'"
    using cfg_write_upd [of p s k v 0 p'] by (auto simp: table_inv_def table_put_def)
  ultimately show "table_inv p'"
    and "cfg_lookup a b (entries p') = (if a = s \<and> b = k then Some v else cfg_lookup a b (entries p))" for a b
    by (auto simp: table_inv_def plain_upd lookup_upd)
qed

section \<open>Properties\<close>

text \<open>A sequence of writes, stopped by the first fault.\<close>

fun write_all :: "tconfig \<Rightarrow> (string \<times> string \<times> string) list \<Rightarrow> tconfig cres" where
  "write_all p [] = Inr p"
| "write_all p ((s, k, v) # ws) =
     cbind (cfg_write p (Some s) (Some k) (Some v)) (\<lambda>(rc, p'). write_all p' ws)"

lemma write_all_puts:
  assumes "write_all p ws = Inr p'" "table_inv p" "list_all (\<lambda>(s, k, v). plain_key k) ws"
  shows "table.puts p ws p'"
  using assms
proof (induction ws arbitrary: p)
  case Nil
  then show ?case by (simp add: table.puts_Nil)
next
  case (Cons w ws)
  obtain s k v where w: "w = (s, k, v)" by (cases w)
  obtain rc q where q: "cfg_write p (Some s) (Some k) (Some v) = Inr (rc, q)" "write_all q ws = Inr p'"
    using Cons.prems(1) by (cases "cfg_write p (Some s) (Some k) (Some v)") (auto simp: w)
  have "f_valid p" using Cons.prems(2) by (simp add: table_inv_def)
  from cfg_write_upd [OF this q(1)] q(1) have put: "table_put p s k v q" by (simp add: table_put_def)
  have k: "plain_key k" using Cons.prems(3) by (simp add: w)
  have "table.puts q ws p'"
    using Cons.IH [OF q(2) table.put_inv [OF Cons.prems(2) k put]] Cons.prems(3) by simp
  from table.puts_Cons [OF k put this] show ?case unfolding w .
qed

text \<open>
  C4: a search returns what was written last. On a table whose keys have no quotes, after any
  sequence of \<^verbatim>\<open>cfg_write\<close> calls that does not fault, \<^verbatim>\<open>cfg_find\<close> of a section and a key finds the
  last value written under these names, and otherwise what it found before the writes.
\<close>

theorem cfg_find_last_write:
  assumes "table_inv p" "list_all (\<lambda>(s, k, v). plain_key k) ws" "write_all p ws = Inr p'"
  shows "\<exists>rc q. cfg_find p' (Some a) (Some b) = Inr (rc, q) \<and>
    (case (case map_of (rev (map (\<lambda>(s, k, v). ((s, k), v)) ws)) (a, b) of
             Some v \<Rightarrow> Some v | None \<Rightarrow> cfg_lookup a b (entries p)) of
       None \<Rightarrow> rc = -1
     | Some v \<Rightarrow> rc = 0 \<and> cur_value q = Some v)"
proof -
  note pts = write_all_puts [OF assms(3,1,2)]
  have "f_valid p'" using table.puts_inv [OF pts assms(1)] by (simp add: table_inv_def)
  from cfg_find_lookup [OF this, of a b] table.puts_lookup [OF pts assms(1), of a b]
  show ?thesis by auto
qed

theorem cfg_find_last_write_witness:
  "\<exists>p'. write_all ((tconfig0 ''f'')\<lparr>f_valid := True\<rparr>) [(''s'', ''k'', ''1''), (''s'', ''k'', ''2'')] = Inr p' \<and>
     (\<exists>rc q. cfg_find p' (Some ''s'') (Some ''k'') = Inr (rc, q) \<and> rc = 0 \<and> cur_value q = Some ''2'')"
proof -
  let ?p = "(tconfig0 ''f'')\<lparr>f_valid := True\<rparr>"
  have i: "table_inv ?p" by (simp add: table_inv_def tconfig0_def)
  have k: "list_all (\<lambda>(s, k, v). plain_key k) [(''s'', ''k'', ''1''), (''s'', ''k'', ''2'')]"
    by (simp add: plain_key_def remove_quotes_def)
  have "\<exists>p'. write_all ?p [(''s'', ''k'', ''1''), (''s'', ''k'', ''2'')] = Inr p'"
    by (simp add: cfg_write_def storeentry_dynamic tconfig0_def next_stop_def)
  then show ?thesis using cfg_find_last_write [OF i k, of _ "''s''" "''k''"] by auto
qed

text \<open>
  an insertion into a section that is not the last one faults when the table is full or has
  one free entry. With a full table \<^verbatim>\<open>_cfg_poolalloc\<close> moves the table and \<^verbatim>\<open>cfg_write\<close> goes on with
  a pointer into the freed one; with one free entry \<^verbatim>\<open>memmove\<close> writes one entry past the table's
  end. With two free entries or more the definition is inserted before the next section.
\<close>

lemma cfg_write_insert_faults:
  assumes "f_valid p" "entries p = pre @ e # mid @ e2 # post" "li_section e = Some s"
    and "\<forall>y \<in> set pre. li_section y \<noteq> Some s"
    and "\<forall>y \<in> set mid. li_section y = None \<and> li_id y \<noteq> Some k" "li_section e2 \<noteq> None"
    and "length (entries p) \<le> maxEntries p"
  shows "if length (entries p) = maxEntries p
    then cfg_write p (Some s) (Some k) (Some v) = Inl Use_After_Free
    else if length (entries p) + 1 = maxEntries p
    then cfg_write p (Some s) (Some k) (Some v) = Inl Out_Of_Bounds
    else \<exists>p'. cfg_write p (Some s) (Some k) (Some v) = Inr (0, p') \<and> dirty p' \<and>
      entries p' = pre @ e # mid @ new_def (e_flags e2 OR (FREE_ID OR FREE_VALUE)) k v # e2 # post"
proof -
  have f: "find_index P (xs @ y # ys) = Some (length xs)" if "P y" "\<forall>x \<in> set xs. \<not> P x"
    for P and xs ys :: "cfg_entry list" and y
    using that by (induction xs) auto
  have j: "find_index (\<lambda>e. li_section e = Some s) (entries p) = Some (length pre)"
    unfolding assms(2) by (rule f) (use assms(3,4) in auto)
  have "find_index (\<lambda>e. li_section e \<noteq> None \<or> li_id e = Some k) (mid @ e2 # post) = Some (length mid)"
    by (rule f) (use assms(5,6) in auto)
  then have n: "next_stop (\<lambda>e. li_id e = Some k) (length pre) p = Some (Suc (length pre) + length mid)"
    using assms(2) by (simp add: next_stop_def)
  have at: "entries p ! (Suc (length pre) + length mid) = e2" using assms(2) by (simp add: nth_append)
  have "take (Suc (length pre) + length mid) (entries p) = pre @ e # mid"
    "drop (Suc (length pre) + length mid) (entries p) = e2 # post" using assms(2) by simp_all
  moreover have "cfg_write p (Some s) (Some k) (Some v) =
      cbind (insert_entry (Suc (length pre) + length mid) k v p) (\<lambda>p'. Inr (0, p'))"
    using assms(1,6) j n at by (simp add: cfg_write_def)
  ultimately show ?thesis using at assms(7)
    by (auto simp: insert_entry_def cfg_poolalloc_def new_def_def)
qed

definition sect :: "string \<Rightarrow> cfg_entry" where
  "sect s = \<lparr>li_section = Some s, li_id = None, li_value = None, li_comment = None, e_flags = 0\<rparr>"

lemma cfg_write_insert_faults_witness:
  "cfg_write ((tconfig0 ''f'')\<lparr>f_valid := True, entries := [sect ''a'', sect ''b''], maxEntries := 2\<rparr>)
     (Some ''a'') (Some ''k'') (Some ''v'') = Inl Use_After_Free"
  using cfg_write_insert_faults [of "(tconfig0 ''f'')\<lparr>f_valid := True, entries := [sect ''a'', sect ''b''],
    maxEntries := 2\<rparr>" "[]" "sect ''a''" "[]" "sect ''b''" "[]" "''a''" "''k''" "''v''"]
  by (simp add: sect_def)

lemma in_section_shadow:
  assumes "\<forall>e \<in> set es. li_id e \<noteq> Some k" "in_section k es = Some old"
  shows "in_section k (upd_in k v es) = Some old"
  using assms by (induction es) (auto split: if_splits)

lemma lookup_shadow:
  assumes "\<forall>e \<in> set es. li_id e \<noteq> Some k" "cfg_lookup s k es = Some old"
  shows "cfg_lookup s k (upd_table s k v es) = Some old"
  using assms by (induction es) (auto split: if_splits simp: in_section_shadow)

text \<open>
  a key written with quotes in the file cannot be changed. \<^verbatim>\<open>cfg_find\<close> removes the quotes of
  the names it compares and \<^verbatim>\<open>cfg_write\<close> does not: when the definition that a search finds has a
  quoted name and no entry has the plain one, \<^verbatim>\<open>cfg_write\<close> reports success, adds a second
  definition, and the search still finds the old value.
\<close>

lemma cfg_quoted_key_stale:
  assumes "f_valid p" "\<forall>e \<in> set (entries p). li_id e \<noteq> Some k"
    and "cfg_lookup s k (entries p) = Some old"
    and "cfg_write p (Some s) (Some k) (Some v) = Inr (rc, p')"
  shows "rc = 0 \<and> (\<exists>q. cfg_find p' (Some s) (Some k) = Inr (0, q) \<and> cur_value q = Some old)"
proof -
  note w = cfg_write_upd [OF assms(1,4)]
  have "cfg_lookup s k (entries p') = Some old" using w lookup_shadow [OF assms(2,3)] by simp
  moreover have "f_valid p'" using w by simp
  ultimately show ?thesis using cfg_find_lookup [of p' s k] w by auto
qed

definition quoted_table :: tconfig where
  "quoted_table = (tconfig0 ''f'')\<lparr>f_valid := True, maxEntries := 103, entries := [sect ''s'',
     \<lparr>li_section = None, li_id = Some [CHR 0x22, CHR ''k'', CHR 0x22], li_value = Some ''1'',
      li_comment = None, e_flags = 0\<rparr>]\<rparr>"

lemma cfg_quoted_key_stale_witness:
  "\<exists>p' q. cfg_write quoted_table (Some ''s'') (Some ''k'') (Some ''2'') = Inr (0, p') \<and>
     cfg_find p' (Some ''s'') (Some ''k'') = Inr (0, q) \<and> cur_value q = Some ''1''"
proof -
  obtain rc p' where w: "cfg_write quoted_table (Some ''s'') (Some ''k'') (Some ''2'') = Inr (rc, p')"
    using cfg_write_ok [of quoted_table "''s''" "''k''" "''2''"]
    by (auto simp: is_ok_iff quoted_table_def)
  have "f_valid quoted_table" "\<forall>e \<in> set (entries quoted_table). li_id e \<noteq> Some ''k''"
    "cfg_lookup ''s'' ''k'' (entries quoted_table) = Some ''1''"
    by (simp_all add: quoted_table_def sect_def remove_quotes_def)
  from cfg_quoted_key_stale [OF this w] w show ?thesis by auto
qed

end
