(* ===== verification/Cfg_Output.thy ===== *)
theory Cfg_Output
  imports Cfg_Write
begin

text \<open>
  \<^verbatim>\<open>_cfg_output\<close> and \<^verbatim>\<open>_cfg_outputformatted\<close> of \<^verbatim>\<open>cfgfile.c\<close> as functions from the table to the text
  they write, and the round trip: parsing what was written gives the table back.
\<close>

section \<open>Operations\<close>

text \<open>The look-ahead of a comment block: is a section the next thing that is not a comment?\<close>

fun section_follows :: "cfg_entry list \<Rightarrow> bool" where
  "section_follows [] = False"
| "section_follows (e # es) =
     (if li_section e \<noteq> None then True
      else if li_id e \<noteq> None \<or> li_value e \<noteq> None then False
      else section_follows es)"

definition block_start :: "string \<Rightarrow> bool" where
  "block_start c = (let c0 = (if c = [] then NUL else hd c) in iswhite c0 \<or> iscomment c0)"

definition comment_text :: "cfg_entry \<Rightarrow> string" where
  "comment_text e = (case li_comment e of None \<Rightarrow> [] | Some c \<Rightarrow> [TAB, CHR '';''] @ c)"

fun cfg_output :: "bool \<Rightarrow> cfg_entry list \<Rightarrow> string" where
  "cfg_output skip [] = []"
| "cfg_output skip (e # es) =
     (case li_section e of
        Some s \<Rightarrow> (if skip then [LF] else []) @ ''['' @ s @ '']'' @ comment_text e @ [LF] @ cfg_output True es
      | None \<Rightarrow>
          (case (li_id e, li_value e) of
             (Some k, Some v) \<Rightarrow> k @ ''='' @ v @ comment_text e @ [LF] @ cfg_output skip es
           | (None, Some v) \<Rightarrow> v @ comment_text e @ [LF] @ cfg_output skip es
           | (_, None) \<Rightarrow>
               (case li_comment e of
                  Some c \<Rightarrow>
                    (let lf = (skip \<and> block_start c \<and> section_follows es)
                     in (if lf then [LF] else []) @ '';'' @ c @ [LF] @ cfg_output (if lf then False else skip) es)
                | None \<Rightarrow> [LF] @ cfg_output skip es)))"

text \<open>The longest key of the section, and \<^verbatim>\<open>%-*.*s\<close> with it.\<close>

fun longest_key :: "cfg_entry list \<Rightarrow> nat" where
  "longest_key [] = 0"
| "longest_key (e # es) =
     (if li_section e \<noteq> None then 0
      else max (case li_id e of None \<Rightarrow> 0 | Some k \<Rightarrow> length k) (longest_key es))"

definition pad_key :: "nat \<Rightarrow> string \<Rightarrow> string" where
  "pad_key m k = (if m = 0 then k else take m k @ replicate (m - length k) (CHR '' ''))"

fun cfg_outputformatted :: "nat \<Rightarrow> bool \<Rightarrow> cfg_entry list \<Rightarrow> string" where
  "cfg_outputformatted m skip [] = []"
| "cfg_outputformatted m skip (e # es) =
     (case li_section e of
        Some s \<Rightarrow> (if skip then [LF] else []) @ ''['' @ s @ '']'' @ comment_text e @ [LF] @
                  cfg_outputformatted (longest_key es) True es
      | None \<Rightarrow>
          (case (li_id e, li_value e) of
             (Some k, Some v) \<Rightarrow> pad_key m k @ '' = '' @ v @ comment_text e @ [LF] @ cfg_outputformatted m skip es
           | (None, Some v) \<Rightarrow> ''  '' @ v @ comment_text e @ [LF] @ cfg_outputformatted m skip es
           | (_, None) \<Rightarrow>
               (case li_comment e of
                  Some c \<Rightarrow>
                    (let lf = (skip \<and> block_start c \<and> section_follows es)
                     in (if lf then [LF] else []) @ '';'' @ c @ [LF] @
                        cfg_outputformatted m (if lf then False else skip) es)
                | None \<Rightarrow> [LF] @ cfg_outputformatted m skip es)))"

section \<open>Texts that survive\<close>

definition line_text :: "string \<Rightarrow> bool" where
  "line_text s \<longleftrightarrow> list_all (\<lambda>c. \<not> iseolchar c) s"

definition section_ok :: "string \<Rightarrow> bool" where
  "section_ok s \<longleftrightarrow> s \<noteq> [] \<and> line_text s \<and> CHR '']'' \<notin> set s \<and> \<not> iswhite (hd s) \<and> \<not> c_isspace (last s)"

definition key_ok :: "string \<Rightarrow> bool" where
  "key_ok k \<longleftrightarrow> line_text k \<and> CHR ''='' \<notin> set k \<and>
     (k \<noteq> [] \<longrightarrow> \<not> iswhite (hd k) \<and> hd k \<noteq> CHR ''['' \<and> hd k \<noteq> CHR '';'' \<and> \<not> c_isspace (last k))"

text \<open>
  A value: one line, no white space at its ends, and closed: after it, outside quotes, a comment
  would be recognised, and none is before.
\<close>

definition value_ok :: "string \<Rightarrow> bool" where
  "value_ok v \<longleftrightarrow> line_text v \<and>
     (v \<noteq> [] \<longrightarrow> \<not> iswhite (hd v) \<and> \<not> iswhite (last v) \<and> \<not> c_isspace (last v)) \<and>
     value_scan NUL NUL (v @ [TAB, CHR '';'']) = (v @ [TAB], Some [])"

definition comment_ok :: "string \<Rightarrow> bool" where
  "comment_ok c \<longleftrightarrow> line_text c \<and> (c \<noteq> [] \<longrightarrow> \<not> iswhite (last c))"

definition entry_ok :: "cfg_entry \<Rightarrow> bool" where
  "entry_ok e \<longleftrightarrow>
     (case (li_section e, li_id e, li_value e) of
        (Some s, None, None) \<Rightarrow> section_ok s
      | (None, Some k, Some v) \<Rightarrow> key_ok k \<and> value_ok v
      | (None, None, None) \<Rightarrow> li_comment e \<noteq> None
      | _ \<Rightarrow> False) \<and>
     (\<forall>c. li_comment e = Some c \<longrightarrow> comment_ok c)"

text \<open>A continuation value, which the parser takes from a line that starts with white space.\<close>

definition continuation_ok :: "cfg_entry \<Rightarrow> bool" where
  "continuation_ok e \<longleftrightarrow> li_section e = None \<and> li_id e = None \<and> li_comment e = None \<and>
     (\<exists>v. li_value e = Some v \<and> v \<noteq> [] \<and> line_text v \<and> \<not> iswhite (hd v) \<and> \<not> iswhite (last v) \<and>
        hd v \<noteq> CHR ''['' \<and> hd v \<noteq> CHR '';'' \<and> CHR ''='' \<notin> set v)"

section \<open>The parser on one written line\<close>

lemma trim_end_id: "s = [] \<or> \<not> P (last s) \<Longrightarrow> trim_end P s = s"
  by (cases s rule: rev_cases) (auto simp: trim_end_def)

lemma trim_end_app: "s = [] \<or> \<not> P (last s) \<Longrightarrow> P c \<Longrightarrow> trim_end P (s @ [c]) = s"
  by (cases s rule: rev_cases) (auto simp: trim_end_def)

lemma skipwhite_id: "s = [] \<or> \<not> iswhite (hd s) \<Longrightarrow> cfg_skipwhite s = s"
  by (cases s) (auto simp: cfg_skipwhite_def)

definition next_quote :: "char \<Rightarrow> char \<Rightarrow> char" where
  "next_quote q c = (if q \<noteq> NUL then if c = q then NUL else q else if isquote c then c else q)"

lemma value_scan_step:
  "value_scan q p (c # w) =
     (if q = NUL \<and> \<not> isquote c \<and> iscomment c \<and> iswhite p then ([], Some w)
      else (c # fst (value_scan (next_quote q c) c w), snd (value_scan (next_quote q c) c w)))"
  by (auto simp: next_quote_def split: prod.split)

lemma scan_closed:
  "value_scan q p (v @ [TAB, CHR '';'']) = (v @ [TAB], Some []) \<Longrightarrow>
   value_scan q p (v @ [TAB, CHR '';''] @ c) = (v @ [TAB], Some c) \<and> value_scan q p v = (v, None)"
proof (induction v arbitrary: q p)
  case Nil
  then show ?case by (auto simp: iscomment_def iswhite_def isquote_def split: if_splits)
next
  case (Cons x v)
  let ?n = "next_quote q x"
  have a: "\<not> (q = NUL \<and> \<not> isquote x \<and> iscomment x \<and> iswhite p)"
    "value_scan ?n x (v @ [TAB, CHR '';'']) = (v @ [TAB], Some [])"
    using Cons.prems by (simp_all only: append_Cons value_scan_step [of q p] split: if_splits)
      (auto intro: prod_eqI)
  from Cons.IH [OF a(2)] a(1) show ?case by (simp only: append_Cons value_scan_step [of q p] if_False) simp
qed

lemma scan_value_ok:
  assumes "value_ok v" "v \<noteq> []"
  shows "scan_value v = (v, None)" "scan_value (v @ [TAB, CHR '';''] @ c) = (v, Some c)"
proof -
  have s: "value_scan NUL NUL (v @ [TAB, CHR '';'']) = (v @ [TAB], Some [])"
    using assms(1) by (simp add: value_ok_def)
  show "scan_value v = (v, None)" using scan_closed [OF s] by (simp add: scan_value_def)
  have "trim_end c_isspace (v @ [TAB]) = v"
    by (rule trim_end_app) (use assms in \<open>auto simp: value_ok_def c_isspace_def\<close>)
  then show "scan_value (v @ [TAB, CHR '';''] @ c) = (v, Some c)"
    using scan_closed [OF s, of c] by (simp add: scan_value_def rtrim_def Let_def)
qed

lemma scan_value_comment: "scan_value (CHR '';'' # c) = ([], Some c)"
  by (simp add: scan_value_def rtrim_def trim_end_def iscomment_def iswhite_def isquote_def)

text \<open>The line of an entry, without the end of line.\<close>

definition entry_line :: "cfg_entry \<Rightarrow> string" where
  "entry_line e =
     (case li_section e of
        Some s \<Rightarrow> ''['' @ s @ '']'' @ comment_text e
      | None \<Rightarrow>
          (case (li_id e, li_value e) of
             (Some k, Some v) \<Rightarrow> k @ ''='' @ v @ comment_text e
           | (None, Some v) \<Rightarrow> v
           | _ \<Rightarrow> '';'' @ the (li_comment e)))"

lemma takeWhile_ne: "c \<notin> set xs \<Longrightarrow> takeWhile (\<lambda>x. x \<noteq> c) (xs @ c # ys) = xs"
  by (induction xs) auto

lemma dropWhile_ne: "c \<notin> set xs \<Longrightarrow> dropWhile (\<lambda>x. x \<noteq> c) (xs @ c # ys) = c # ys"
  by (induction xs) auto

lemma skip_comment: "cfg_skipwhite (TAB # CHR '';'' # c) = CHR '';'' # c"
  by (simp add: cfg_skipwhite_def iswhite_def)

lemma white_consts [simp]:
  "\<not> iswhite (CHR ''['')" "\<not> iswhite (CHR '';'')" "\<not> iswhite (CHR ''='')" "iscomment (CHR '';'')"
  by (simp_all add: iswhite_def iscomment_def)

lemma parse_line_entry:
  assumes "entry_ok e"
  shows "cfg_parse_line (entry_line e) = Some (line_item.truncate e)"
proof -
  consider (sec) s where "li_section e = Some s" "li_id e = None" "li_value e = None" "section_ok s"
    | (def) k v where "li_section e = None" "li_id e = Some k" "li_value e = Some v" "key_ok k" "value_ok v"
    | (com) c where "li_section e = None" "li_id e = None" "li_value e = None" "li_comment e = Some c"
    using assms by (auto simp: entry_ok_def split: option.splits)
  then show ?thesis
  proof cases
    case (sec s)
    have s: "s \<noteq> []" "CHR '']'' \<notin> set s" "\<not> iswhite (hd s)" "\<not> c_isspace (last s)"
      using sec(4) by (simp_all add: section_ok_def)
    have "cfg_skipwhite (s @ CHR '']'' # r) = s @ CHR '']'' # r" for r
      by (rule skipwhite_id) (use s in simp)
    moreover have "cfg_skipwhite [] = []" by (simp add: cfg_skipwhite_def)
    ultimately show ?thesis using sec(1-3) s
      by (cases "li_comment e")
        (simp_all add: cfg_parse_line_def entry_line_def comment_text_def Let_def takeWhile_ne dropWhile_ne
          rtrim_def trim_end_id skip_comment line_item.truncate_def)
  next
    case (def k v)
    have k: "CHR ''='' \<notin> set k" "k \<noteq> [] \<longrightarrow> \<not> iswhite (hd k) \<and> hd k \<noteq> CHR ''['' \<and> hd k \<noteq> CHR '';''"
      "trim_end c_isspace k = k"
      using def(4) by (auto simp: key_ok_def intro!: trim_end_id)
    have v: "v \<noteq> [] \<Longrightarrow> \<not> iswhite (hd v)" using def(5) by (simp add: value_ok_def)
    let ?r = "v @ comment_text e"
    have l: "entry_line e = k @ CHR ''='' # ?r" using def by (simp add: entry_line_def)
    have sv: "scan_value (cfg_skipwhite ?r) = (v, li_comment e)"
    proof (cases "v = []")
      case True
      have "scan_value [] = ([], None)" by (simp add: scan_value_def)
      then show ?thesis using True
        by (cases "li_comment e") (simp_all add: comment_text_def skip_comment scan_value_comment, simp add: cfg_skipwhite_def)
    next
      case False
      then have "cfg_skipwhite ?r = ?r" by (intro skipwhite_id) (use v in simp)
      then show ?thesis using scan_value_ok [OF def(5) False]
        by (cases "li_comment e") (simp_all add: comment_text_def)
    qed
    have h: "k @ CHR ''='' # ?r \<noteq> []" "\<not> iswhite (hd (k @ CHR ''='' # ?r))"
      "hd (k @ CHR ''='' # ?r) \<noteq> CHR ''[''" "hd (k @ CHR ''='' # ?r) \<noteq> CHR '';''"
      using k(2) by (cases k; simp)+
    show ?thesis
      unfolding l cfg_parse_line_def Let_def using h sv k(1,3) def(1-3)
      by (simp add: takeWhile_ne dropWhile_ne rtrim_def line_item.truncate_def)
  next
    case (com c)
    then show ?thesis
      by (simp add: entry_line_def cfg_parse_line_def line_item.truncate_def)
  qed
qed

section \<open>The parser on a written file\<close>

lemma last_if: "last (xs @ y # ys) = last (y # ys)"
  by simp

lemma line_text_simps [simp]:
  "line_text []" "line_text (c # s) \<longleftrightarrow> \<not> iseolchar c \<and> line_text s"
  "line_text (s @ t) \<longleftrightarrow> line_text s \<and> line_text t"
  by (simp_all add: line_text_def)

lemma eol_consts [simp]:
  "iseolchar LF" "\<not> iseolchar (CHR ''['')" "\<not> iseolchar (CHR '']'')" "\<not> iseolchar (CHR ''='')"
  "\<not> iseolchar (CHR '';'')" "\<not> iseolchar TAB" "\<not> iswhite (CHR '']'')"
  by (simp_all add: iseolchar_def iswhite_def)

lemma comment_text_ok:
  assumes "entry_ok e"
  shows "line_text (comment_text e)" "comment_text e \<noteq> [] \<Longrightarrow> \<not> iswhite (last (comment_text e))"
  using assms by (auto simp: entry_ok_def comment_text_def comment_ok_def split: option.splits)

lemma entry_line_ok:
  assumes "entry_ok e"
  shows "entry_line e \<noteq> []" "line_text (entry_line e)" "\<not> iswhite (last (entry_line e))"
proof -
  note c = comment_text_ok [OF assms]
  have "last (x # xs @ comment_text e) = (if comment_text e = [] then last (x # xs) else last (comment_text e))"
    for x xs by simp
  then show "entry_line e \<noteq> []" "line_text (entry_line e)" "\<not> iswhite (last (entry_line e))"
    using assms c
    by (auto simp: entry_line_def entry_ok_def section_ok_def key_ok_def value_ok_def comment_ok_def
        split: option.splits)
qed

lemma dropWhile_hd: "xs = [] \<or> \<not> P (hd xs) \<Longrightarrow> dropWhile P xs = xs"
  by (cases xs) auto

lemma getline_line:
  assumes "l \<noteq> []" "line_text l" "\<not> iswhite (last l)"
  shows "cfg_getline (l @ LF # r) = (True, l, r)"
proof -
  let ?Q = "\<lambda>c. c \<noteq> NUL \<and> \<not> iseolchar c"
  have n: "\<forall>c \<in> set l. ?Q c" using assms(2) by (auto simp: line_text_def list_all_iff iseolchar_def)
  have "dropWhile (\<lambda>c. c \<noteq> NUL \<and> iseolchar c) (l @ LF # r) = l @ LF # r"
    by (rule dropWhile_hd) (use assms(1) n in \<open>auto simp: hd_append\<close>)
  moreover have "takeWhile ?Q (l @ LF # r) = l" "dropWhile ?Q (l @ LF # r) = LF # r"
    using n by (simp_all add: takeWhile_append dropWhile_append)
  moreover have "trim_end iswhite l = l" by (rule trim_end_id) (use assms(3) in simp)
  ultimately show ?thesis using assms(1) by (simp add: cfg_getline_def Let_def)
qed

lemma parse_loop_line:
  assumes "l \<noteq> []" "line_text l" "\<not> iswhite (last l)" "cfg_parse_line l = Some it"
  shows "cfg_parse_loop (l @ LF # r) p = cfg_parse_loop r (snd (cfg_poolalloc p)\<lparr>entries := entries p @
    [\<lparr>li_section = li_section it, li_id = li_id it, li_value = li_value it, li_comment = li_comment it,
      e_flags = 0\<rparr>]\<rparr>)"
  using assms(1,4) getline_line [OF assms(1-3), of r]
  by (subst cfg_parse_loop.simps) (simp add: storeentry_static)

lemma parse_loop_lf:
  assumes "NUL \<notin> set r"
  shows "cfg_parse_loop (LF # r) p = cfg_parse_loop r p"
proof (cases "r = []")
  case True
  have "cfg_getline [LF] = (False, [], [])" by (simp add: cfg_getline_def)
  then show ?thesis using True by (subst cfg_parse_loop.simps) simp
next
  case False
  obtain ok line rest where g: "cfg_getline r = (ok, line, rest)" by (cases "cfg_getline r")
  have "cfg_getline (LF # r) = cfg_getline r" by (simp add: cfg_getline_def)
  moreover have "hd r \<noteq> NUL" using assms False by (cases r) auto
  then have "length rest < length r" using getline_stuck [OF False g] by simp
  ultimately show ?thesis using False g
    by (simp add: cfg_parse_loop.simps [of "LF # r"] cfg_parse_loop.simps [of r])
qed

definition clear_flags :: "cfg_entry \<Rightarrow> cfg_entry" where
  "clear_flags e = e\<lparr>e_flags := 0\<rparr>"

text \<open>The capacity after loading at most 103 entries.\<close>

definition first_pool :: "tconfig \<Rightarrow> bool" where
  "first_pool p \<longleftrightarrow> (entries p = [] \<and> maxEntries p = 0) \<or> (length (entries p) \<le> 103 \<and> maxEntries p = 103)"

lemma parse_loop_skip:
  assumes "l \<noteq> []" "line_text l" "\<not> iswhite (last l)" "cfg_parse_line l = None"
  shows "cfg_parse_loop (l @ LF # r) p = cfg_parse_loop r p"
  using assms(1,4) getline_line [OF assms(1-3), of r] by (subst cfg_parse_loop.simps) simp

definition entry_or_cont :: "cfg_entry \<Rightarrow> bool" where
  "entry_or_cont e \<longleftrightarrow> entry_ok e \<or> continuation_ok e"

lemma continuation_line:
  assumes "continuation_ok e"
  shows "entry_line e \<noteq> []" "line_text (entry_line e)" "\<not> iswhite (last (entry_line e))"
    "cfg_parse_line (entry_line e) = None" "\<not> entry_ok e"
  using assms by (auto simp: continuation_ok_def entry_line_def cfg_parse_line_def entry_ok_def)

lemma line_ok:
  assumes "entry_or_cont e"
  shows "entry_line e \<noteq> []" "line_text (entry_line e)" "\<not> iswhite (last (entry_line e))"
  using assms entry_line_ok continuation_line by (auto simp: entry_or_cont_def)

lemma output_cons:
  assumes "entry_or_cont e"
  shows "\<exists>pre skip'. cfg_output skip (e # es) = pre @ entry_line e @ LF # cfg_output skip' es \<and>
    (pre = [] \<or> pre = [LF])"
proof (cases "li_section e")
  case (Some s)
  then show ?thesis
    by (intro exI [of _ "if skip then [LF] else []"] exI [of _ True]) (simp add: entry_line_def)
next
  case None
  show ?thesis
  proof (cases "li_value e")
    case (Some v)
    then consider k where "li_id e = Some k" | "li_id e = None" "li_comment e = None"
      using None assms by (auto simp: entry_or_cont_def continuation_ok_def entry_ok_def split: option.splits)
    then show ?thesis using None Some
      by cases (auto intro!: exI [of _ "[]"] exI [of _ skip] simp: entry_line_def comment_text_def)
  next
    case v: None
    then obtain c where "li_id e = None" "li_comment e = Some c"
      using None assms by (auto simp: entry_or_cont_def continuation_ok_def entry_ok_def split: option.splits)
    with None v show ?thesis
      by (intro exI [of _ "if skip \<and> block_start c \<and> section_follows es then [LF] else []"]
          exI [of _ "if skip \<and> block_start c \<and> section_follows es then False else skip"])
        (simp add: entry_line_def Let_def)
  qed
qed

lemma output_text:
  "list_all entry_or_cont es \<Longrightarrow> NUL \<notin> set (cfg_output skip es)"
proof (induction es arbitrary: skip)
  case (Cons e es)
  obtain pre skip' where o: "cfg_output skip (e # es) = pre @ entry_line e @ LF # cfg_output skip' es"
    "pre = [] \<or> pre = [LF]" using output_cons [of e skip es] Cons.prems by auto
  have "NUL \<notin> set (entry_line e)"
    using line_ok(2) [of e] Cons.prems by (auto simp: line_text_def list_all_iff iseolchar_def)
  with o Cons show ?case by auto
qed simp

lemma parse_output:
  assumes "list_all entry_or_cont es"
  shows "\<exists>p'. cfg_parse_loop (cfg_output skip es) p = Inr p' \<and>
    entries p' = entries p @ map clear_flags (filter entry_ok es) \<and>
    f_valid p' = f_valid p \<and> fileName p' = fileName p \<and> dirty p' = dirty p \<and>
    (first_pool p \<and> length (entries p) + length es \<le> 103 \<longrightarrow> first_pool p')"
  using assms
proof (induction es arbitrary: skip p)
  case Nil
  then show ?case by (simp add: cfg_parse_loop.simps)
next
  case (Cons e es)
  have e: "entry_or_cont e" using Cons.prems by simp
  obtain pre skip' where o: "cfg_output skip (e # es) = pre @ entry_line e @ LF # cfg_output skip' es"
    "pre = [] \<or> pre = [LF]" using output_cons [OF e, of skip es] by auto
  have n: "NUL \<notin> set (entry_line e @ LF # cfg_output skip' es)"
    using output_text [OF Cons.prems, of skip] o by auto
  have s: "cfg_parse_loop (cfg_output skip (e # es)) p = cfg_parse_loop (entry_line e @ LF # cfg_output skip' es) p"
    using o parse_loop_lf [OF n] by auto
  show ?case
  proof (cases "entry_ok e")
    case True
    let ?q = "snd (cfg_poolalloc p)\<lparr>entries := entries p @ [clear_flags e]\<rparr>"
    have c: "clear_flags e = \<lparr>li_section = li_section e, li_id = li_id e, li_value = li_value e,
        li_comment = li_comment e, e_flags = 0\<rparr>" by (simp add: clear_flags_def)
    have "cfg_parse_loop (entry_line e @ LF # cfg_output skip' es) p = cfg_parse_loop (cfg_output skip' es) ?q"
      using parse_loop_line [OF line_ok [OF e] parse_line_entry [OF True], of "cfg_output skip' es" p]
      by (simp add: c line_item.truncate_def)
    moreover have "first_pool p \<and> length (entries p) + length (e # es) \<le> 103 \<Longrightarrow> first_pool ?q"
      by (auto simp: first_pool_def cfg_poolalloc_def)
    ultimately show ?thesis using Cons.IH [of skip' ?q] Cons.prems s True by auto
  next
    case False
    then have k: "continuation_ok e" using e by (simp add: entry_or_cont_def)
    have "cfg_parse_loop (entry_line e @ LF # cfg_output skip' es) p = cfg_parse_loop (cfg_output skip' es) p"
      by (rule parse_loop_skip [OF continuation_line(1-4) [OF k]])
    then show ?thesis using Cons.IH [of skip' p] Cons.prems s False by auto
  qed
qed

section \<open>Property\<close>


definition demo_table :: "cfg_entry list" where
  "demo_table = [sect ''net'', (new_def 0 ''ip'' ''10.0.0.1'')\<lparr>li_comment := Some '' lan''\<rparr>,
     \<lparr>li_section = None, li_id = None, li_value = Some ''more'', li_comment = None, e_flags = 0\<rparr>]"


end
