(* ===== verification/Cfg_Delete.thy ===== *)
theory Cfg_Delete
  imports Cfg_Write
begin

text \<open>
  The other uses of \<^verbatim>\<open>cfg_write\<close> and \<^verbatim>\<open>cfg_find\<close>: deleting a section or a definition, working
  without a section name (\<^verbatim>\<open>ini_setstr\<close>, \<^verbatim>\<open>ini_getstr\<close>), and the numeric writers' buffers.
\<close>

section \<open>Deleting a section\<close>

lemma block_commentD:
  "block_comment e \<Longrightarrow> li_section e = None \<and> li_id e = None \<and> li_value e = None"
  by (auto simp: block_comment_def split: option.splits)

lemma find_index_at: "P y \<Longrightarrow> \<forall>x \<in> set xs. \<not> P x \<Longrightarrow> find_index P (xs @ y # ys) = Some (length xs)"
  by (induction xs) auto

lemma in_section_stop: "li_section e \<noteq> None \<Longrightarrow> in_section b (e # es) = None"
  by simp

lemma lookup_app_comments:
  assumes "\<forall>e \<in> set cs. block_comment e"
  shows "cfg_lookup a b (cs @ es) = cfg_lookup a b es" "in_section b (cs @ es) = in_section b es"
  using assms by (induction cs) (auto dest!: block_commentD)

lemma lookup_skip:
  assumes "\<forall>e \<in> set xs. li_section e = None"
  shows "cfg_lookup a b (xs @ es) = cfg_lookup a b es"
  using assms by (induction xs) auto

lemma in_section_app:
  "in_section b (pre @ xs) =
     (if (\<exists>e \<in> set pre. li_section e \<noteq> None) \<or> in_section b pre \<noteq> None then in_section b pre
      else in_section b xs)"
  by (induction pre) auto

definition section_end :: "cfg_entry list \<Rightarrow> bool" where
  "section_end es \<longleftrightarrow> (\<forall>b. in_section b es = None)"

lemma lookup_replace:
  assumes "section_end xs" "section_end ys" "cfg_lookup a b xs = cfg_lookup a b ys"
  shows "cfg_lookup a b (pre @ xs) = cfg_lookup a b (pre @ ys)"
proof (induction pre)
  case (Cons e pre)
  have "in_section b (pre @ xs) = in_section b (pre @ ys)"
    using assms(1,2) by (simp add: in_section_app section_end_def)
  with Cons show ?case by simp
qed (use assms in simp)

lemma range_comments:
  assumes "\<forall>j. k \<le> j \<and> j < i \<longrightarrow> block_comment (es ! j)" "i \<le> length es"
  shows "\<forall>e \<in> set (take (i - k) (drop k es)). block_comment e"
proof
  fix e
  assume "e \<in> set (take (i - k) (drop k es))"
  then obtain j where "j < i - k" "e = drop k es ! j" by (auto simp: in_set_conv_nth)
  with assms show "block_comment e" by (simp add: less_diff_conv)
qed

lemma take_drop_split: "k \<le> i \<Longrightarrow> drop k es = take (i - k) (drop k es) @ drop i es"
  by (metis append_take_drop_id drop_drop le_add_diff_inverse2)

text \<open>
  What \<^verbatim>\<open>cfg_write\<close> leaves when it deletes the section at index \<open>j\<close>: the entries before the
  comments above its header, then the comments above the next section, then the rest.
\<close>

lemma delete_section_shape:
  assumes "f_valid p" "cfg_write p (Some s) None val = Inr (rc, p')"
    and "find_index (\<lambda>e. li_section e = Some s) (entries p) = Some j"
  shows "\<exists>pre cs body cs' rest. entries p = pre @ cs @ (entries p ! j) # body @ cs' @ rest \<and> length (pre @ cs) = j \<and>
    entries p' = pre @ cs' @ rest \<and> rc = 0 \<and> dirty p' \<and>
    (\<forall>e \<in> set cs. block_comment e) \<and> (\<forall>e \<in> set cs'. block_comment e) \<and>
    (\<forall>e \<in> set body. li_section e = None) \<and> (rest = [] \<or> li_section (hd rest) \<noteq> None)"
proof -
  let ?es = "entries p"
  have j: "j < length ?es" "li_section (?es ! j) = Some s" using find_index_Some [OF assms(3)] by simp_all
  define e where "e = (case next_stop (\<lambda>_. False) j p of Some n \<Rightarrow> n | None \<Rightarrow> length ?es)"
  have e: "j < e" "e \<le> length ?es" "\<forall>x \<in> set (take (e - Suc j) (drop (Suc j) ?es)). li_section x = None"
    "drop e ?es = [] \<or> li_section (hd (drop e ?es)) \<noteq> None"
  proof -
    show "j < e" "e \<le> length ?es" "\<forall>x \<in> set (take (e - Suc j) (drop (Suc j) ?es)). li_section x = None"
      "drop e ?es = [] \<or> li_section (hd (drop e ?es)) \<noteq> None"
      using j(1) unfolding e_def next_stop_def
      by (auto simp: find_index_None hd_drop_conv_nth split: option.splits dest!: find_index_Some dest: in_set_takeD)
  qed
  obtain e' where e': "move_up ?es e = Some e'" "cbind (do_delete j e' p) (\<lambda>p'. Inr (0, p')) = Inr (rc, p')"
    using assms by (auto simp: cfg_write_def e_def [symmetric] Let_def split: option.splits)
  obtain i where i: "move_up ?es j = Some i" "p' = p\<lparr>entries := take i ?es @ drop e' ?es, dirty := True\<rparr>" "rc = 0"
    using e'(2) by (auto simp: do_delete_def split: option.splits)
  note mi = move_up_le [OF i(1)] and me = move_up_le [OF e'(1)]
  have "\<not> block_comment (?es ! j)" using j(2) by (auto dest: block_commentD)
  then have je': "j < e'" using me e(1) by (metis Suc_leI not_less_eq_eq linorder_not_less)
  have h1: "drop i ?es = take (j - i) (drop i ?es) @ drop j ?es" by (rule take_drop_split) (use mi in simp)
  have h2: "drop j ?es = ?es ! j # drop (Suc j) ?es" by (rule Cons_nth_drop_Suc [OF j(1), symmetric])
  have h3: "drop (Suc j) ?es = take (e' - Suc j) (drop (Suc j) ?es) @ drop e' ?es"
    by (rule take_drop_split) (use je' in simp)
  have h4: "drop e' ?es = take (e - e') (drop e' ?es) @ drop e ?es" by (rule take_drop_split) (use me in simp)
  have b: "\<forall>x \<in> set (take (e' - Suc j) (drop (Suc j) ?es)). li_section x = None"
    using e(3) me set_take_subset_set_take [of "e' - Suc j" "e - Suc j" "drop (Suc j) ?es"]
    by (meson diff_le_mono subsetD)
  have l: "length (take i ?es @ take (j - i) (drop i ?es)) = j" using mi j(1) by simp
  have d: "?es = take i ?es @ take (j - i) (drop i ?es) @ ?es ! j # take (e' - Suc j) (drop (Suc j) ?es) @
      take (e - e') (drop e' ?es) @ drop e ?es"
    using h1 h2 h3 h4 by (metis append_take_drop_id)
  have c1: "\<forall>x \<in> set (take (j - i) (drop i ?es)). block_comment x"
    by (rule range_comments) (use mi j(1) in auto)
  have c2: "\<forall>x \<in> set (take (e - e') (drop e' ?es)). block_comment x"
    by (rule range_comments) (use me e(2) in auto)
  have r: "entries p' = take i ?es @ take (e - e') (drop e' ?es) @ drop e ?es" "dirty p'"
    using i(2) h4 by simp_all
  show ?thesis using d l c1 c2 b e(4) r i(3) by blast
qed

text \<open>
  deleting a section deletes nothing else. When \<^verbatim>\<open>cfg_write\<close> with no key succeeds, every
  definition of every other section is found as before. But it never succeeds for a section that
  only comments precede: the loop that looks for the comments above the header then runs out of
  the table at its front.
\<close>

lemma cfg_delete_section:
  assumes "f_valid p"
  shows "(\<forall>rc p' a b. cfg_write p (Some s) None val = Inr (rc, p') \<and> a \<noteq> s \<longrightarrow>
            rc = 0 \<and> cfg_lookup a b (entries p') = cfg_lookup a b (entries p)) \<and>
    (\<forall>pre e post. entries p = pre @ e # post \<and> (\<forall>c \<in> set pre. block_comment c) \<and> li_section e = Some s \<longrightarrow>
       cfg_write p (Some s) None val = Inl Out_Of_Bounds)"
proof (rule conjI; intro allI impI)
  fix rc p' a b
  assume w: "cfg_write p (Some s) None val = Inr (rc, p') \<and> a \<noteq> s"
  show "rc = 0 \<and> cfg_lookup a b (entries p') = cfg_lookup a b (entries p)"
  proof (cases "find_index (\<lambda>e. li_section e = Some s) (entries p)")
    case None
    then show ?thesis using w assms by (simp add: cfg_write_def)
  next
    case (Some j)
    have "cfg_write p (Some s) None val = Inr (rc, p')" using w by simp
    from delete_section_shape [OF assms this Some] obtain pre cs body cs' rest where
      q: "entries p = pre @ cs @ (entries p ! j) # body @ cs' @ rest" "length (pre @ cs) = j"
      "entries p' = pre @ cs' @ rest" "rc = 0" "dirty p'"
      "\<forall>e \<in> set cs. block_comment e" "\<forall>e \<in> set cs'. block_comment e"
      "\<forall>e \<in> set body. li_section e = None" "rest = [] \<or> li_section (hd rest) \<noteq> None"
      by (elim exE conjE) (rule that)
    have sj: "li_section (entries p ! j) = Some s" using find_index_Some [OF Some] by simp
    let ?old = "cs @ (entries p ! j) # body @ cs' @ rest"
    have "in_section x rest = None" for x using q(9) by (cases rest) auto
    then have "section_end (cs' @ rest)" "section_end ?old"
      using q(6,7) sj by (auto simp: section_end_def lookup_app_comments)
    moreover have "cfg_lookup a b ?old = cfg_lookup a b (cs' @ rest)"
      using q(6-8) sj w by (auto simp: lookup_app_comments lookup_skip)
    ultimately have "cfg_lookup a b (pre @ cs' @ rest) = cfg_lookup a b (pre @ ?old)"
      by (intro lookup_replace) simp_all
    moreover have "cfg_lookup a b (entries p) = cfg_lookup a b (pre @ ?old)"
      by (rule arg_cong [OF q(1)])
    ultimately show ?thesis using q(3,4) by (simp only: simp_thms)
  qed
next
  fix pre e post
  assume h: "entries p = pre @ e # post \<and> (\<forall>c \<in> set pre. block_comment c) \<and> li_section e = Some s"
  let ?j = "length pre"
  have "\<forall>c \<in> set pre. li_section c \<noteq> Some s" using h block_commentD by fastforce
  then have j: "find_index (\<lambda>e. li_section e = Some s) (entries p) = Some ?j"
    using h by (simp add: find_index_at)
  have "move_up (entries p) k = None" if "k \<le> ?j" for k
    using that h by (induction k) (auto simp: nth_append)
  then have "move_up (entries p) ?j = None" by simp
  then show "cfg_write p (Some s) None val = Inl Out_Of_Bounds"
    using assms j by (simp add: cfg_write_def do_delete_def Let_def split: option.split)
qed

lemma cfg_delete_section_witness:
  "cfg_write ((tconfig0 ''f'')\<lparr>f_valid := True, entries := [sect ''a'', sect ''b''], maxEntries := 103\<rparr>)
     (Some ''a'') None None = Inl Out_Of_Bounds"
proof -
  let ?p = "(tconfig0 ''f'')\<lparr>f_valid := True, entries := [sect ''a'', sect ''b''], maxEntries := 103\<rparr>"
  have "f_valid ?p" by simp
  from conjunct2 [OF cfg_delete_section [OF this], rule_format, of "[]" "sect ''a''" "[sect ''b'']" "''a''" None]
  show ?thesis by (simp add: sect_def)
qed

section \<open>Working without a section\<close>

text \<open>
  without a section name the first definition of the table is never found: \<^verbatim>\<open>cfg_find\<close> starts
  to compare after the first entry it has read. \<^verbatim>\<open>cfg_write\<close> has just set it, and the search of
  the same key fails when no second definition of it follows; when the table starts with a
  section, the search compares its name with a null pointer.
\<close>

lemma cfg_find_misses_first:
  assumes "f_valid p" "entries p = e # es"
  shows "(li_id e = Some k \<and> li_section e = None \<and> in_section k es = None \<longrightarrow>
      (\<exists>p' q. cfg_write p None (Some k) (Some v) = Inr (0, p') \<and> li_value (hd (entries p')) = Some v \<and>
         cfg_find p' None (Some k) = Inr (-1, q))) \<and>
    (li_section e \<noteq> None \<longrightarrow> cfg_find p None (Some k) = Inl Null_Deref)"
proof (intro conjI impI)
  assume h: "li_id e = Some k \<and> li_section e = None \<and> in_section k es = None"
  let ?p = "set_value 0 v p"
  let ?e = "upd_value v e"
  have w: "cfg_write p None (Some k) (Some v) = Inr (0, ?p)"
    using assms h by (simp add: cfg_write_def)
  have p': "entries ?p = ?e # es" "f_valid ?p" using assms
    by (simp_all add: set_value_entries) (simp add: set_value_def Let_def)
  let ?q = "snd (cfg_rewind ?p)"
  have q: "reading ?q" "entries ?q = ?e # es" "cursor ?q = 0"
    using p' by (simp_all add: cfg_rewind_def reading_def)
  have n: "cfg_nextentry ?q = next_scan (?e # es) (?q\<lparr>f_type := 0, cur_id := None, cur_value := None\<rparr>)"
    using q by (simp add: cfg_nextentry_def reading_def)
  obtain r where r: "cfg_nextentry ?q = (0, r)" "entries r = ?e # es" "cursor r = 1" "reading r"
    "f_type r = CFG_DEFINE"
    unfolding n using h q by (auto simp: Let_def reading_def)
  obtain rc t where t: "cfg_find_loop None (Some k) True r = Inr (rc, t)" "rc = -1"
    using find_loop_in [OF r(4), of None k] r(2,3) h by auto
  have "cfg_find ?p None (Some k) = Inr (-1, t)"
    using p'(2) t r(1,5) by (simp add: cfg_find_def cfg_find_loop.simps [of _ _ False])
  with w p'(1) show "\<exists>p' q. cfg_write p None (Some k) (Some v) = Inr (0, p') \<and>
      li_value (hd (entries p')) = Some v \<and> cfg_find p' None (Some k) = Inr (-1, q)"
    by (intro exI [of _ ?p] exI [of _ t]) simp
next
  assume h: "li_section e \<noteq> None"
  let ?q = "snd (cfg_rewind p)"
  have "cfg_nextentry ?q = next_scan (e # es) (?q\<lparr>f_type := 0, cur_id := None, cur_value := None\<rparr>)"
    using assms by (simp add: cfg_nextentry_def cfg_rewind_def)
  then obtain r where "cfg_nextentry ?q = (0, r)" "f_type r = CFG_SECTION"
    using h by (auto simp: Let_def)
  then show "cfg_find p None (Some k) = Inl Null_Deref"
    using assms(1) by (simp add: cfg_find_def cfg_find_loop.simps [of _ _ False])
qed

definition one_key :: tconfig where
  "one_key = (tconfig0 ''f'')\<lparr>f_valid := True, maxEntries := 103, entries := [new_def 0 ''k'' ''1'']\<rparr>"

lemma cfg_find_misses_first_witness:
  "\<exists>p' q. cfg_write one_key None (Some ''k'') (Some ''2'') = Inr (0, p') \<and>
     li_value (hd (entries p')) = Some ''2'' \<and> cfg_find p' None (Some ''k'') = Inr (-1, q)"
  using conjunct1 [OF cfg_find_misses_first [of one_key "new_def 0 ''k'' ''1''" "[]" "''k''" "''2''"]]
  by (simp add: one_key_def new_def_def)

text \<open>
  without a section name a new key can never be added. When no entry has the key, the
  counter that \<^verbatim>\<open>cfg_write\<close> shares between its two loops is -1 after the first, and the second
  reads past the table: the call faults, whatever the table holds.
\<close>

lemma cfg_write_no_section_faults:
  assumes "f_valid p" "\<forall>e \<in> set (entries p). li_id e \<noteq> Some k"
  shows "cfg_write p None (Some k) val = Inl (if maxEntries p = 0 then Null_Deref else Out_Of_Bounds)"
proof -
  have "find_index (\<lambda>e. li_id e \<noteq> None \<and> li_id e = Some k) (entries p) = None"
    using assms(2) by (simp add: find_index_None)
  then show ?thesis using assms(1) by (simp add: cfg_write_def)
qed

lemma cfg_write_no_section_faults_witness:
  "cfg_write one_key None (Some ''j'') (Some ''2'') = Inl Out_Of_Bounds"
  using cfg_write_no_section_faults [of one_key "''j''" "Some ''2''"] by (simp add: one_key_def new_def_def)

section \<open>The buffers of the numeric writers\<close>

lemma dec_length: "length (dec i) < 16 \<longleftrightarrow> - (10 ^ 14) < i \<and> i < 10 ^ 15"
proof (cases "i < 0")
  case True
  then have "length (dec i) < 16 \<longleftrightarrow> length (nat_digits (nat (- i))) \<le> Suc 13" by (auto simp: dec_def)
  also have "\<dots> \<longleftrightarrow> nat (- i) < 10 ^ 14" unfolding nat_digits_length by simp
  finally show ?thesis using True by auto
next
  case False
  then have "length (dec i) < 16 \<longleftrightarrow> length (nat_digits (nat i)) \<le> Suc 14" by (auto simp: dec_def)
  also have "\<dots> \<longleftrightarrow> nat i < 10 ^ 15" unfolding nat_digits_length by simp
  finally show ?thesis using False by auto
qed

lemma dec_sint_short: "LENGTH('w) \<le> 32 \<Longrightarrow> length (dec (sint (y :: 'w::len word))) < 16"
proof -
  assume a: "LENGTH('w) \<le> 32"
  have "(2 :: int) ^ (LENGTH('w) - 1) \<le> 2 ^ 31" using a by (intro power_increasing) simp_all
  moreover have "- (2 ^ (LENGTH('w) - 1)) \<le> sint y" "sint y < 2 ^ (LENGTH('w) - 1)"
    by (simp_all add: sint_greater_eq sint_less)
  ultimately show ?thesis unfolding dec_length by auto
qed

lemma dec_uint_short: "LENGTH('w) \<le> 16 \<Longrightarrow> length (dec (uint (y :: 'w::len word))) < 16"
proof -
  assume a: "LENGTH('w) \<le> 16"
  have "(2 :: int) ^ LENGTH('w) \<le> 2 ^ 16" using a by (intro power_increasing) simp_all
  then have "(2 :: int) ^ LENGTH('w) \<le> 65536" by simp
  with uint_lt2p [of y] have "uint y < 65536" by linarith
  moreover have "0 \<le> uint y" by simp
  ultimately show ?thesis unfolding dec_length by (intro conjI; simp; linarith)
qed

text \<open>
  The 16 bytes of \<^verbatim>\<open>cfg_writelong\<close> hold exactly the values from -99999999999999 to
  999999999999999; any other \<^verbatim>\<open>long\<close> overruns the buffer. The writers of 32-bit, 16-bit and 8-bit
  values never do.
\<close>

lemma cfg_writelong_buffer:
  "cfg_writelong p s k (x :: 64 word) =
     (if - (10 ^ 14) < sint x \<and> sint x < 10 ^ 15 then cfg_write p s k (Some (dec (sint x)))
      else Inl Out_Of_Bounds) \<and>
   cfg_writeint p s k y = cfg_write p s k (Some (dec (sint y))) \<and>
   cfg_writeshort p s k z = cfg_write p s k (Some (dec (uint z))) \<and>
   cfg_writebyte p s k b = cfg_write p s k (Some (dec (uint b)))"
proof -
  have "length (dec (sint y)) < 16" "length (dec (uint z)) < 16" "length (dec (uint b)) < 16"
    by (simp_all add: dec_sint_short dec_uint_short)
  moreover have "16 \<le> length (dec (sint x)) \<longleftrightarrow> \<not> (- (10 ^ 14) < sint x \<and> sint x < 10 ^ 15)"
    unfolding dec_length [symmetric] by auto
  ultimately show ?thesis
    by (simp add: cfg_writelong_def cfg_writeint_def cfg_writeshort_def cfg_writebyte_def sprintf_buf_def)
qed

end
