(* ===== verification/Cfg_File.thy ===== *)
theory Cfg_File
  imports Cfg_Output Cfg_Delete
begin

text \<open>
  The file level of \<^verbatim>\<open>cfgfile.c\<close>: opening, loading and committing a configuration, the typed
  readers, and the calls with a file name (\<^verbatim>\<open>Cfg_ReadStr\<close> to \<^verbatim>\<open>utl_fputs\<close>). The file system is a map
  from names to files with their contents, time stamp and permissions; \<open>lock_ok\<close> says whether
  \<^verbatim>\<open>fcntl\<close> grants locks. A caller's buffer is its capacity in bytes.
\<close>

section \<open>The file system\<close>

record cfile =
  fl_data :: string
  fl_mtime :: nat
  fl_read :: bool
  fl_write :: bool

record world =
  files :: "string \<Rightarrow> cfile option"
  may_create :: "string \<Rightarrow> bool"
  lock_ok :: bool
  now :: nat

definition can_read :: "world \<Rightarrow> string \<Rightarrow> bool" where
  "can_read w f = (case files w f of None \<Rightarrow> False | Some fl \<Rightarrow> fl_read fl)"

definition can_rdwr :: "world \<Rightarrow> string \<Rightarrow> bool" where
  "can_rdwr w f = (case files w f of None \<Rightarrow> False | Some fl \<Rightarrow> fl_read fl \<and> fl_write fl)"

definition set_data :: "world \<Rightarrow> string \<Rightarrow> string \<Rightarrow> world" where
  "set_data w f d = w\<lparr>files := (files w)(f := map_option (\<lambda>fl. fl\<lparr>fl_data := d, fl_mtime := now w\<rparr>) (files w f))\<rparr>"

definition c_creat :: "world \<Rightarrow> string \<Rightarrow> world" where
  "c_creat w f =
     (if may_create w f
      then w\<lparr>files := (files w)(f \<mapsto> \<lparr>fl_data = [], fl_mtime = now w, fl_read = True, fl_write = True\<rparr>)\<rparr>
      else w)"

section \<open>Loading and committing\<close>

definition cfg_refresh :: "world \<Rightarrow> tconfig \<Rightarrow> (int \<times> tconfig) cres" where
  "cfg_refresh w p =
     (let failed = p\<lparr>image := None, img_size := 0\<rparr> in
      case files w (fileName p) of
        None \<Rightarrow> Inr (-2, failed)
      | Some fl \<Rightarrow>
          if \<not> fl_read fl then Inr (-2, failed)
          else if \<not> lock_ok w then Inr (-100, failed)
          else if image p \<noteq> None \<and> length (fl_data fl) = img_size p \<and> fl_mtime fl = mtime p then Inr (0, p)
          else
            let p1 = (if dirty p then cfg_freeimage p else p);
                p2 = (cfg_freeimage p1)\<lparr>image := Some (fl_data fl), img_size := length (fl_data fl),
                                        mtime := fl_mtime fl\<rparr>
            in cbind (cfg_parse p2) (\<lambda>p3. Inr (0, p3)))"

definition cfg_init :: "world \<Rightarrow> string option \<Rightarrow> bool \<Rightarrow> (int \<times> tconfig option \<times> world) cres" where
  "cfg_init w filename doCreate =
     (case filename of
        None \<Rightarrow> Inr (-1, None, w)
      | Some f \<Rightarrow>
          if files w f = None \<and> \<not> doCreate then Inr (-2, None, w)
          else
            let w1 = (if files w f = None then c_creat w f else w) in
            cbind (cfg_refresh w1 (tconfig0 f)) (\<lambda>(ret, p).
              if ret \<noteq> 0 then Inr (-11, None, w1) else Inr (0, Some p, w1)))"

definition cfg_done :: "tconfig option \<Rightarrow> int" where
  "cfg_done p = (if p = None then -1 else 0)"

definition cfg_commit :: "world \<Rightarrow> tconfig \<Rightarrow> int \<times> tconfig \<times> world" where
  "cfg_commit w p =
     (if \<not> f_valid p then (-1, p, w)
      else if dirty p then
        (if \<not> can_rdwr w (fileName p) then (-4, p, w)
         else if \<not> lock_ok w then (-100, p, w)
         else (0, p\<lparr>dirty := False\<rparr>, set_data w (fileName p) (cfg_output False (entries p))))
      else (0, p, w))"

definition cfg_copy :: "world \<Rightarrow> tconfig \<Rightarrow> string \<Rightarrow> int \<times> world" where
  "cfg_copy w p newfilename =
     (if \<not> f_valid p then (-1, w)
      else if \<not> can_rdwr w newfilename then (-4, w)
      else if \<not> lock_ok w then (-100, w)
      else (0, set_data w newfilename (cfg_outputformatted 0 False (entries p))))"

section \<open>Typed readers\<close>

text \<open>\<^verbatim>\<open>strcpy\<close> of a string that may be a null pointer into a buffer of \<open>cap\<close> bytes.\<close>

definition c_strcpy :: "nat \<Rightarrow> string option \<Rightarrow> string cres" where
  "c_strcpy cap src =
     (case src of None \<Rightarrow> Inl Null_Deref | Some s \<Rightarrow> if length s < cap then Inr s else Inl Out_Of_Bounds)"

definition atoi_value :: "string option \<Rightarrow> int cres" where
  "atoi_value v = (case v of None \<Rightarrow> Inl Null_Deref | Some s \<Rightarrow> Inr (c_atoi s))"

definition cfg_getstring ::
  "tconfig \<Rightarrow> string option \<Rightarrow> string option \<Rightarrow> nat \<Rightarrow> (int \<times> string \<times> tconfig) cres" where
  "cfg_getstring p section key cap =
     cbind (cfg_find p section key) (\<lambda>(rc, p1).
       if rc < 0 then cbind (c_strcpy cap (Some [])) (\<lambda>v. Inr (-1, v, p1))
       else cbind (c_strcpy cap (cur_value p1)) (\<lambda>v. Inr (0, v, p1)))"

definition cfg_getstring2 ::
  "tconfig \<Rightarrow> string option \<Rightarrow> string option \<Rightarrow> nat \<Rightarrow> string \<Rightarrow> (int \<times> string \<times> tconfig) cres" where
  "cfg_getstring2 p section key cap defval =
     cbind (cfg_find p section key) (\<lambda>(rc, p1).
       if rc < 0 then cbind (c_strcpy cap (Some defval)) (\<lambda>v. Inr (0, v, p1))
       else cbind (c_strcpy cap (cur_value p1)) (\<lambda>v. Inr (0, v, p1)))"

text \<open>
  \<open>obj\<close> is the size of the object that \<^verbatim>\<open>valptr\<close> points to: the readers of a \<^verbatim>\<open>long\<close> store eight
  bytes. \<open>None\<close>: nothing was stored.
\<close>

definition store_long :: "nat \<Rightarrow> int \<Rightarrow> int cres" where
  "store_long obj v = (if obj < 8 then Inl Out_Of_Bounds else Inr v)"

definition cfg_getlong ::
  "tconfig \<Rightarrow> string option \<Rightarrow> string option \<Rightarrow> nat \<Rightarrow> (int \<times> int option \<times> tconfig) cres" where
  "cfg_getlong p section key obj =
     cbind (cfg_find p section key) (\<lambda>(rc, p1).
       if rc < 0 then Inr (-2, None, p1)
       else cbind (atoi_value (cur_value p1)) (\<lambda>i. cbind (store_long obj i) (\<lambda>v. Inr (0, Some v, p1))))"

definition cfg_getlong2 ::
  "tconfig \<Rightarrow> string option \<Rightarrow> string option \<Rightarrow> nat \<Rightarrow> int \<Rightarrow> (int \<times> int option \<times> tconfig) cres" where
  "cfg_getlong2 p section key obj defval =
     cbind (cfg_find p section key) (\<lambda>(rc, p1).
       if rc < 0 then cbind (store_long obj defval) (\<lambda>v. Inr (0, Some v, p1))
       else cbind (atoi_value (cur_value p1)) (\<lambda>i. cbind (store_long obj i) (\<lambda>v. Inr (0, Some v, p1))))"

text \<open>The readers of an \<^verbatim>\<open>int\<close> hand the address of four bytes to the readers of a \<^verbatim>\<open>long\<close>.\<close>

definition cfg_getint ::
  "tconfig \<Rightarrow> string option \<Rightarrow> string option \<Rightarrow> (int \<times> int option \<times> tconfig) cres" where
  "cfg_getint p section key = cfg_getlong p section key 4"

definition cfg_getint2 ::
  "tconfig \<Rightarrow> string option \<Rightarrow> string option \<Rightarrow> int \<Rightarrow> (int \<times> int option \<times> tconfig) cres" where
  "cfg_getint2 p section key defval = cfg_getlong2 p section key 4 defval"

definition cfg_getshort ::
  "tconfig \<Rightarrow> string option \<Rightarrow> string option \<Rightarrow> (int \<times> u16 option \<times> tconfig) cres" where
  "cfg_getshort p section key =
     cbind (cfg_find p section key) (\<lambda>(rc, p1).
       if rc < 0 then Inr (-2, None, p1)
       else cbind (atoi_value (cur_value p1)) (\<lambda>i. Inr (0, Some (word_of_int i), p1)))"

definition cfg_getshort2 ::
  "tconfig \<Rightarrow> string option \<Rightarrow> string option \<Rightarrow> u16 \<Rightarrow> (int \<times> u16 option \<times> tconfig) cres" where
  "cfg_getshort2 p section key defval =
     cbind (cfg_find p section key) (\<lambda>(rc, p1).
       if rc < 0 then Inr (0, Some defval, p1)
       else cbind (atoi_value (cur_value p1)) (\<lambda>i. Inr (0, Some (word_of_int i), p1)))"

definition cfg_getbyte ::
  "tconfig \<Rightarrow> string option \<Rightarrow> string option \<Rightarrow> (int \<times> u8 option \<times> tconfig) cres" where
  "cfg_getbyte p section key =
     (if section = None \<or> key = None then Inr (-1, None, p)
      else cbind (cfg_find p section key) (\<lambda>(rc, p1).
        if rc < 0 then Inr (-2, Some 0xFF, p1)
        else cbind (atoi_value (cur_value p1)) (\<lambda>i. Inr (0, Some (word_of_int i), p1))))"

definition cfg_getbyte2 ::
  "tconfig \<Rightarrow> string option \<Rightarrow> string option \<Rightarrow> u8 \<Rightarrow> (int \<times> u8 option \<times> tconfig) cres" where
  "cfg_getbyte2 p section key defval =
     cbind (cfg_find p section key) (\<lambda>(rc, p1).
       if rc < 0 then Inr (0, Some defval, p1)
       else cbind (atoi_value (cur_value p1)) (\<lambda>i. Inr (0, Some (word_of_int i), p1)))"

text \<open>\<open>text\<close> is the formatted text, of which \<^verbatim>\<open>vsnprintf\<close> keeps 1023 characters; \<open>None\<close> when it fails.\<close>

definition cfg_write_item ::
  "tconfig \<Rightarrow> string option \<Rightarrow> string option \<Rightarrow> string option \<Rightarrow> (int \<times> tconfig) cres" where
  "cfg_write_item p section key txt =
     (case txt of None \<Rightarrow> Inr (-1, p) | Some t \<Rightarrow> cfg_write p section key (Some (take 1023 t)))"

end
