(* ===== verification/Cfg_Api.thy ===== *)
theory Cfg_Api
  imports Cfg_File
begin

text \<open>
  The calls of \<^verbatim>\<open>cfgfile.c\<close> that take a file name: each loads the file, works on the table and, to
  write, commits it. The lists of sections and of keys, and the line functions \<^verbatim>\<open>utl_fgets\<close> and
  \<^verbatim>\<open>utl_fputs\<close>.
\<close>

section \<open>Reading\<close>

definition Cfg_ReadStr ::
  "world \<Rightarrow> string option \<Rightarrow> string option \<Rightarrow> string option \<Rightarrow> nat \<Rightarrow> string \<Rightarrow> (int \<times> string) cres" where
  "Cfg_ReadStr w File Section Entry cap defval =
     cbind (cfg_init w File False) (\<lambda>(ret, pc, w1).
       case pc of
         Some p \<Rightarrow> cbind (cfg_getstring2 p Section Entry cap defval) (\<lambda>(r, v, _). Inr (r, v))
       | None \<Rightarrow> cbind (c_strcpy cap (Some defval)) (\<lambda>v. Inr (ret, v)))"

text \<open>The readers of numbers copy the value to a buffer of 64 bytes first.\<close>

definition Cfg_ReadInt ::
  "world \<Rightarrow> string option \<Rightarrow> string option \<Rightarrow> string option \<Rightarrow> int \<Rightarrow> (int \<times> int option) cres" where
  "Cfg_ReadInt w File Section Entry defVal =
     cbind (cfg_init w File False) (\<lambda>(ret, pc, w1).
       case pc of
         Some p \<Rightarrow> cbind (cfg_getstring p Section Entry 64) (\<lambda>(r, v, _).
           Inr (r, Some (if r = 0 then c_atoi v else defVal)))
       | None \<Rightarrow> Inr (ret, None))"

definition Cfg_ReadShort ::
  "world \<Rightarrow> string option \<Rightarrow> string option \<Rightarrow> string option \<Rightarrow> (int \<times> u16 option) cres" where
  "Cfg_ReadShort w File Section Entry =
     cbind (cfg_init w File False) (\<lambda>(ret, pc, w1).
       case pc of
         Some p \<Rightarrow> cbind (cfg_getstring p Section Entry 64) (\<lambda>(r, v, _).
           Inr (r, if r = 0 then Some (word_of_int (c_atoi v)) else None))
       | None \<Rightarrow> Inr (ret, None))"

definition Cfg_Readbyte ::
  "world \<Rightarrow> string option \<Rightarrow> string option \<Rightarrow> string option \<Rightarrow> (int \<times> u8 option) cres" where
  "Cfg_Readbyte w File Section Entry =
     cbind (cfg_init w File False) (\<lambda>(ret, pc, w1).
       case pc of
         Some p \<Rightarrow> cbind (cfg_getstring p Section Entry 64) (\<lambda>(r, v, _).
           Inr (r, Some (if r = 0 then word_of_int (c_atoi v) else 0xFF)))
       | None \<Rightarrow> Inr (ret, None))"

text \<open>The content of \<open>str\<close> after the call: \<open>None\<close> when it was not written.\<close>

definition Cfg_ReadString ::
  "world \<Rightarrow> string option \<Rightarrow> string option \<Rightarrow> string option \<Rightarrow> bool \<Rightarrow> nat \<Rightarrow> string option \<Rightarrow>
   (int \<times> string option) cres" where
  "Cfg_ReadString w sec key def str_nonnull sz ini =
     (case (sec, key, def, ini) of
        (Some s, Some k, Some d, Some f) \<Rightarrow>
          if \<not> str_nonnull then Inr (-1, None)
          else if sz \<le> length d then Inr (-2, None)
          else
            cbind (c_strcpy sz def) (\<lambda>str0.
            cbind (cfg_init w ini False) (\<lambda>(ret, pc, w1).
              case pc of
                None \<Rightarrow> Inr (-3, Some str0)
              | Some p \<Rightarrow>
                  cbind (cfg_find p sec key) (\<lambda>(rc, p1).
                    if rc < 0 then Inr (-5, Some str0)
                    else case cur_value p1 of
                      None \<Rightarrow> Inl Null_Deref
                    | Some v \<Rightarrow>
                        if sz \<le> length v then Inr (-6, Some str0)
                        else cbind (c_strcpy sz (Some v)) (\<lambda>str. Inr (0, Some str)))))
      | _ \<Rightarrow> Inr (-1, None))"

definition ini_getstr :: "world \<Rightarrow> string option \<Rightarrow> string option \<Rightarrow> nat \<Rightarrow> (int \<times> string option) cres" where
  "ini_getstr w filename key cap =
     cbind (cfg_init w filename False) (\<lambda>(ret, pc, w1).
       case pc of
         Some p \<Rightarrow> cbind (cfg_getstring p None key cap) (\<lambda>(r, v, _). Inr (r, Some v))
       | None \<Rightarrow> Inr (ret, None))"

section \<open>Writing\<close>

text \<open>The result of \<^verbatim>\<open>cfg_write\<close> is not looked at; the one of \<^verbatim>\<open>cfg_commit\<close> is returned.\<close>

definition cfg_write_file ::
  "world \<Rightarrow> string option \<Rightarrow> string option \<Rightarrow> string option \<Rightarrow> string option \<Rightarrow> (int \<times> world) cres" where
  "cfg_write_file w File Section Entry val =
     cbind (cfg_init w File True) (\<lambda>(ret, pc, w1).
       case pc of
         Some p \<Rightarrow>
           cbind (cfg_write p Section Entry val) (\<lambda>(rc, p1).
             let (r, p2, w2) = cfg_commit w1 p1 in Inr (r, w2))
       | None \<Rightarrow> Inr (ret, w1))"

definition Cfg_WriteStr ::
  "world \<Rightarrow> string option \<Rightarrow> string option \<Rightarrow> string option \<Rightarrow> string option \<Rightarrow> (int \<times> world) cres" where
  "Cfg_WriteStr w File Section Entry valptr = cfg_write_file w File Section Entry valptr"

definition Cfg_WriteInt ::
  "world \<Rightarrow> string option \<Rightarrow> string option \<Rightarrow> string option \<Rightarrow> 64 word \<Rightarrow> (int \<times> world) cres" where
  "Cfg_WriteInt w File Section Entry val =
     cbind (sprintf_buf 64 (dec (sint val))) (\<lambda>t. cfg_write_file w File Section Entry (Some t))"

definition Cfg_WriteHexInt ::
  "world \<Rightarrow> string option \<Rightarrow> string option \<Rightarrow> string option \<Rightarrow> u32 \<Rightarrow> (int \<times> world) cres" where
  "Cfg_WriteHexInt w File Section Entry val =
     cbind (sprintf_buf 64 (''0x'' @ hex_digits (unat val))) (\<lambda>t. cfg_write_file w File Section Entry (Some t))"

definition ini_setstr :: "world \<Rightarrow> string option \<Rightarrow> string option \<Rightarrow> string option \<Rightarrow> (int \<times> world) cres" where
  "ini_setstr w filename key val = cfg_write_file w filename None key val"

definition Cfg_WriteString ::
  "world \<Rightarrow> string option \<Rightarrow> string option \<Rightarrow> string option \<Rightarrow> string option \<Rightarrow> (int \<times> world) cres" where
  "Cfg_WriteString w section key val ini = Cfg_WriteStr w ini section key val"

definition Cfg_RemoveKey ::
  "world \<Rightarrow> string option \<Rightarrow> string option \<Rightarrow> string option \<Rightarrow> (int \<times> world) cres" where
  "Cfg_RemoveKey w CFG_file section key = Cfg_WriteStr w CFG_file section key None"

section \<open>Listing\<close>

lemma next_section_measure:
  "cfg_next_section p = (0, p') \<Longrightarrow> length (entries p') - cursor p' < length (entries p) - cursor p"
proof (induction p arbitrary: p' rule: cfg_next_section.induct)
  case (1 p)
  obtain rc p1 where n: "cfg_nextentry p = (rc, p1)" by (cases "cfg_nextentry p")
  have rc: "rc = 0" using 1(2) n by (auto simp: cfg_next_section.simps [of p] split: if_splits)
  note m = nextentry_measure [OF n [unfolded rc]]
  show ?case
  proof (cases "f_type p1 = CFG_SECTION")
    case True
    then show ?thesis using 1(2) n rc m by (simp add: cfg_next_section.simps [of p])
  next
    case False
    then have "cfg_next_section p1 = (0, p')" using 1(2) n rc by (simp add: cfg_next_section.simps [of p])
    from 1(1) [OF n [symmetric] refl _ False this] rc m show ?thesis by simp
  qed
qed

text \<open>
  The names, each with its NUL, go into a buffer of \<open>cb\<close> bytes; the last one is cut. The result is
  the count and the bytes written.
\<close>

definition add_name :: "nat \<Rightarrow> string \<Rightarrow> string \<Rightarrow> string" where
  "add_name cb buf name = buf @ take (min (length name + 1) (cb - length buf)) (name @ [NUL])"

definition close_list :: "nat \<Rightarrow> string \<Rightarrow> int \<times> string" where
  "close_list cb buf = (int (length buf), if length buf < cb then buf @ [NUL] else buf)"

function list_sections_loop :: "nat \<Rightarrow> string \<Rightarrow> tconfig \<Rightarrow> string" where
  "list_sections_loop cb buf p =
     (if length buf < cb then
        (let (rc, p1) = cfg_next_section p in
         if rc = 0 \<and> cur_section p1 \<noteq> None
         then list_sections_loop cb (add_name cb buf (the (cur_section p1))) p1 else buf)
      else buf)"
  by pat_completeness auto
termination
  by (relation "measure (\<lambda>(c, b, p). length (entries p) - cursor p)") (auto dest: sym [THEN next_section_measure])

declare list_sections_loop.simps [simp del]

definition list_sections :: "tconfig \<Rightarrow> nat \<Rightarrow> (int \<times> string) cres" where
  "list_sections p cb =
     (if cb = 0 then Inl Out_Of_Bounds
      else let (rc, p1) = cfg_rewind p in
        if rc = 0 then Inr (close_list cb (list_sections_loop cb [] p1)) else Inr (0, [NUL]))"

text \<open>
  A definition before the first section is compared with the section of an earlier search, or with
  a null pointer when there is none.
\<close>

function list_entries_loop :: "string \<Rightarrow> nat \<Rightarrow> string \<Rightarrow> tconfig \<Rightarrow> string cres" where
  "list_entries_loop sec cb buf p =
     (if length buf < cb then
        (let (rc, p1) = cfg_nextentry p in
         if rc \<noteq> 0 then Inr buf
         else if f_type p1 = CFG_DEFINE then
           (case cur_section p1 of
              None \<Rightarrow> Inl Null_Deref
            | Some s \<Rightarrow>
                if s = sec \<and> cur_id p1 \<noteq> None
                then list_entries_loop sec cb (add_name cb buf (the (cur_id p1))) p1
                else list_entries_loop sec cb buf p1)
         else list_entries_loop sec cb buf p1)
      else Inr buf)"
  by pat_completeness auto
termination
  by (relation "measure (\<lambda>(s, c, b, p). length (entries p) - cursor p)") (auto dest: sym [THEN nextentry_measure])

declare list_entries_loop.simps [simp del]

definition list_entries :: "tconfig \<Rightarrow> string \<Rightarrow> nat \<Rightarrow> (int \<times> string) cres" where
  "list_entries p lpszSection cb =
     (if cb = 0 then Inl Out_Of_Bounds
      else let (rc, p1) = cfg_rewind p in
        if rc = 0
        then cbind (list_entries_loop lpszSection cb [] p1) (\<lambda>buf. Inr (close_list cb buf))
        else Inr (0, [NUL]))"

text \<open>
  The caller's array of buffers: \<open>None\<close> is a null pointer, which is skipped, \<open>Some cap\<close> a buffer of
  \<open>cap\<close> bytes. \<open>slot\<close> stores the \<open>n\<close>-th name.
\<close>

definition slot :: "nat option list \<Rightarrow> nat \<Rightarrow> string \<Rightarrow> string option cres" where
  "slot caps n name =
     (if length caps \<le> n then Inl Out_Of_Bounds
      else case caps ! n of
        None \<Rightarrow> Inr None
      | Some cap \<Rightarrow> cbind (c_strcpy cap (Some name)) (\<lambda>s. Inr (Some s)))"

function get_sections_loop :: "nat option list \<Rightarrow> string option list \<Rightarrow> tconfig \<Rightarrow> string option list cres" where
  "get_sections_loop caps acc p =
     (let (rc, p1) = cfg_next_section p in
      if rc = 0 \<and> cur_section p1 \<noteq> None
      then (case slot caps (length acc) (the (cur_section p1)) of
              Inl f \<Rightarrow> Inl f
            | Inr s \<Rightarrow> get_sections_loop caps (acc @ [s]) p1)
      else Inr acc)"
  by pat_completeness auto
termination
  by (relation "measure (\<lambda>(c, b, p). length (entries p) - cursor p)") (auto dest: sym [THEN next_section_measure])

declare get_sections_loop.simps [simp del]

definition Cfg_GetSections ::
  "world \<Rightarrow> string option \<Rightarrow> nat option list \<Rightarrow> (int \<times> string option list) cres" where
  "Cfg_GetSections w CFG_file caps =
     cbind (cfg_init w CFG_file False) (\<lambda>(ret, pc, w1).
       case pc of
         None \<Rightarrow> Inr (ret, [])
       | Some p \<Rightarrow>
           let (rc, p1) = cfg_rewind p in
           if rc = 0 then cbind (get_sections_loop caps [] p1) (\<lambda>names. Inr (int (length names), names))
           else Inr (ret, []))"

function get_keys_loop ::
  "string \<Rightarrow> nat option list \<Rightarrow> string option list \<Rightarrow> tconfig \<Rightarrow> string option list cres" where
  "get_keys_loop sec caps acc p =
     (let (rc, p1) = cfg_nextentry p in
      if rc \<noteq> 0 then Inr acc
      else if f_type p1 = CFG_DEFINE then
        (case cur_section p1 of
           None \<Rightarrow> Inl Null_Deref
         | Some s \<Rightarrow>
             if s = sec \<and> cur_id p1 \<noteq> None
             then (case slot caps (length acc) (the (cur_id p1)) of
                     Inl f \<Rightarrow> Inl f
                   | Inr k \<Rightarrow> get_keys_loop sec caps (acc @ [k]) p1)
             else get_keys_loop sec caps acc p1)
      else get_keys_loop sec caps acc p1)"
  by pat_completeness auto
termination
  by (relation "measure (\<lambda>(s, c, b, p). length (entries p) - cursor p)") (auto dest: sym [THEN nextentry_measure])

declare get_keys_loop.simps [simp del]

definition Cfg_GetKeys ::
  "world \<Rightarrow> string option \<Rightarrow> string \<Rightarrow> nat option list \<Rightarrow> (int \<times> string option list) cres" where
  "Cfg_GetKeys w CFG_file section caps =
     cbind (cfg_init w CFG_file False) (\<lambda>(ret, pc, w1).
       case pc of
         None \<Rightarrow> Inr (ret, [])
       | Some p \<Rightarrow>
           let (rc, p1) = cfg_rewind p in
           if rc = 0 then cbind (get_keys_loop section caps [] p1) (\<lambda>names. Inr (int (length names), names))
           else Inr (ret, []))"

section \<open>Lines\<close>

text \<open>\<^verbatim>\<open>fgets (line, 1024, fp)\<close>: up to the first newline, it included, at most 1023 bytes.\<close>

definition first_line :: "string \<Rightarrow> string" where
  "first_line d = take 1023 (takeWhile (\<lambda>c. c \<noteq> LF) d @ (if LF \<in> set d then [LF] else []))"

definition utl_fgets :: "world \<Rightarrow> string option \<Rightarrow> bool \<Rightarrow> bool \<Rightarrow> int \<times> string option" where
  "utl_fgets w name line_nonnull bLock =
     (case name of
        None \<Rightarrow> (-1, None)
      | Some f \<Rightarrow>
          if \<not> line_nonnull then (-1, None)
          else if bLock \<and> \<not> can_read w f then (-2, None)
          else if bLock \<and> \<not> lock_ok w then (-100, None)
          else if \<not> can_read w f then (0, None)
          else case files w f of
            None \<Rightarrow> (0, None)
          | Some fl \<Rightarrow> if fl_data fl = [] then (-3, None) else (1, Some (first_line (fl_data fl))))"

text \<open>\<^verbatim>\<open>fopen (..., "a+")\<close> creates a missing file; the line and a newline go to the end.\<close>

definition utl_fputs :: "world \<Rightarrow> string option \<Rightarrow> string option \<Rightarrow> bool \<Rightarrow> int \<times> world" where
  "utl_fputs w name line bLock =
     (case (name, line) of
        (Some f, Some l) \<Rightarrow>
          if bLock \<and> \<not> can_rdwr w f then (-2, w)
          else if bLock \<and> \<not> lock_ok w then (-100, w)
          else
            let w1 = (if files w f = None then c_creat w f else w)
            in (0, if can_rdwr w1 f
                   then set_data w1 f (fl_data (the (files w1 f)) @ l @ [LF]) else w1)
      | _ \<Rightarrow> (-1, w))"

end
