(* ===== verification/Cfg_Store.thy ===== *)
theory Cfg_Store
  imports Cfg_Api
begin

text \<open>
  What the file calls of \<^verbatim>\<open>cfgfile.c\<close> promise together: a configuration file is a store of
  definitions. The file is one that \<^verbatim>\<open>cfg_commit\<close> wrote, or an empty one: the text of a table of
  sections, definitions and comments that survive on a line.
\<close>

section \<open>Loading a written file\<close>

definition written :: "world \<Rightarrow> string \<Rightarrow> cfg_entry list \<Rightarrow> bool" where
  "written w f es \<longleftrightarrow> lock_ok w \<and> list_all entry_ok es \<and> list_all plain_entry es \<and>
     (\<exists>fl. files w f = Some fl \<and> fl_read fl \<and> fl_write fl \<and> fl_data fl = cfg_output False es)"

lemma clear_flags_simps [simp]:
  "li_section (clear_flags e) = li_section e" "li_id (clear_flags e) = li_id e"
  "li_value (clear_flags e) = li_value e" "li_comment (clear_flags e) = li_comment e"
  by (simp_all add: clear_flags_def)

lemma clear_ok [simp]: "entry_ok (clear_flags e) = entry_ok e" "plain_entry (clear_flags e) = plain_entry e"
  by (simp_all add: entry_ok_def plain_entry_def split: option.split)

lemma lookup_clear [simp]: "cfg_lookup s k (map clear_flags es) = cfg_lookup s k es"
proof -
  have "in_section k (map clear_flags es) = in_section k es" for es by (induction es) auto
  then show ?thesis by (induction es) auto
qed

lemma init_written:
  assumes "written w f es"
  shows "\<exists>p. cfg_init w (Some f) c = Inr (0, Some p, w) \<and> entries p = map clear_flags es \<and> f_valid p \<and>
    fileName p = f \<and> \<not> dirty p \<and> (length es \<le> 103 \<longrightarrow> first_pool p)"
proof -
  obtain fl where fl: "files w f = Some fl" "fl_read fl" "fl_data fl = cfg_output False es" "lock_ok w"
    "list_all entry_ok es" using assms by (auto simp: written_def)
  let ?q = "(tconfig0 f)\<lparr>image := Some (fl_data fl), img_size := length (fl_data fl), mtime := fl_mtime fl\<rparr>"
  have "list_all entry_or_cont es" using fl(5) by (auto simp: list_all_iff entry_or_cont_def)
  from parse_output [OF this, of False ?q] obtain p' where p': "cfg_parse_loop (cfg_output False es) ?q = Inr p'"
    "entries p' = map clear_flags (filter entry_ok es)" "fileName p' = f" "\<not> dirty p'"
    "length es \<le> 103 \<longrightarrow> first_pool p'"
    by (auto simp: tconfig0_def first_pool_def)
  have "filter entry_ok es = es" using fl(5) by (simp add: list_all_iff)
  with p' have e: "entries p' = map clear_flags es" by simp
  have "cfg_parse ?q = Inr (p'\<lparr>f_valid := True\<rparr>)"
    using p'(1) fl(3) by (simp add: cfg_parse_def tconfig0_def)
  then have "cfg_init w (Some f) c = Inr (0, Some (p'\<lparr>f_valid := True\<rparr>), w)"
    using fl by (simp add: cfg_init_def cfg_refresh_def Let_def tconfig0_def cfg_freeimage_def)
  then show ?thesis using e p'(3-5)
    by (intro exI [of _ "p'\<lparr>f_valid := True\<rparr>"]) (auto simp: first_pool_def)
qed

lemma new_def_ok: "key_ok k \<Longrightarrow> value_ok v \<Longrightarrow> entry_ok (new_def fl k v)"
  by (simp add: entry_ok_def new_def_def)

lemma upd_value_ok: "entry_ok e \<Longrightarrow> li_section e = None \<Longrightarrow> li_id e = Some k \<Longrightarrow> value_ok v \<Longrightarrow> entry_ok (upd_value v e)"
  by (auto simp: entry_ok_def split: option.splits)

lemma upd_table_ok:
  assumes "section_ok s" "key_ok k" "value_ok v" "list_all entry_ok es"
  shows "list_all entry_ok (upd_table s k v es)"
proof -
  have "list_all entry_ok (upd_in k v es)" if "list_all entry_ok es" for es
    using that assms(2,3) by (induction es) (auto simp: new_def_ok upd_value_ok)
  with assms show ?thesis
    by (induction es) (auto simp: new_def_ok, auto simp: entry_ok_def)
qed

lemma set_data_written:
  assumes "written w f es" "list_all entry_ok es'" "list_all plain_entry es'"
  shows "written (set_data w f (cfg_output False es')) f es'"
  using assms by (auto simp: written_def set_data_def)

lemma WriteStr_written:
  assumes "written w f es" "Cfg_WriteStr w (Some f) (Some s) (Some k) (Some v) = Inr (r, w')"
  shows "r = 0 \<and> w' = set_data w f (cfg_output False (upd_table s k v (map clear_flags es)))"
proof -
  obtain p where p: "cfg_init w (Some f) True = Inr (0, Some p, w)" "entries p = map clear_flags es"
    "f_valid p" "fileName p = f" using init_written [OF assms(1), of True] by blast
  obtain rc p1 where w: "cfg_write p (Some s) (Some k) (Some v) = Inr (rc, p1)"
    using assms(2) p(1)
    by (cases "cfg_write p (Some s) (Some k) (Some v)") (auto simp: Cfg_WriteStr_def cfg_write_file_def)
  note u = cfg_write_upd [OF p(3) w]
  have "can_rdwr w f" "lock_ok w" using assms(1) by (auto simp: written_def can_rdwr_def)
  then have "cfg_commit w p1 = (0, p1\<lparr>dirty := False\<rparr>, set_data w f (cfg_output False (entries p1)))"
    using u p(4) by (simp add: cfg_commit_def)
  then show ?thesis using assms(2) p(1,2) w u
    by (simp add: Cfg_WriteStr_def cfg_write_file_def)
qed

section \<open>The file as a store\<close>

definition def_ok :: "string \<Rightarrow> string \<Rightarrow> string \<Rightarrow> bool" where
  "def_ok s k v \<longleftrightarrow> section_ok s \<and> key_ok k \<and> plain_key k \<and> value_ok v"

definition file_ok :: "string \<Rightarrow> world \<Rightarrow> bool" where
  "file_ok f w \<longleftrightarrow> (\<exists>es. written w f es)"

definition file_put :: "string \<Rightarrow> world \<Rightarrow> string \<Rightarrow> string \<Rightarrow> string \<Rightarrow> world \<Rightarrow> bool" where
  "file_put f w s k v w' \<longleftrightarrow> Cfg_WriteStr w (Some f) (Some s) (Some k) (Some v) = Inr (0, w')"

text \<open>The definition that a load of the file finds.\<close>

definition file_lookup :: "string \<Rightarrow> world \<Rightarrow> string \<Rightarrow> string \<Rightarrow> string option" where
  "file_lookup f w s k =
     (case cfg_init w (Some f) False of
        Inr (_, Some p, _) \<Rightarrow> cfg_lookup s k (entries p)
      | _ \<Rightarrow> None)"

lemma file_lookup_written: "written w f es \<Longrightarrow> file_lookup f w s k = cfg_lookup s k es"
  using init_written [of w f es False] by (auto simp: file_lookup_def)

interpretation fstore: kv_store "file_lookup f" "file_put f" "file_ok f" def_ok for f
proof
  fix w w' s k v
  assume "file_ok f w" "def_ok s k v" "file_put f w s k v w'"
  then obtain es where es: "written w f es" and d: "section_ok s" "key_ok k" "plain_key k" "value_ok v"
    and p: "Cfg_WriteStr w (Some f) (Some s) (Some k) (Some v) = Inr (0, w')"
    by (auto simp: file_ok_def def_ok_def file_put_def)
  let ?es = "upd_table s k v (map clear_flags es)"
  have ok: "list_all entry_ok (map clear_flags es)" "list_all plain_entry (map clear_flags es)"
    using es by (auto simp: written_def list_all_iff)
  have "w' = set_data w f (cfg_output False ?es)" using WriteStr_written [OF es p] by simp
  then have w': "written w' f ?es"
    using set_data_written [OF es upd_table_ok [OF d(1,2,4) ok(1)] plain_upd [OF d(3) ok(2)]] by simp
  show "file_ok f w'" using w' by (auto simp: file_ok_def)
  show "file_lookup f w' a b = (if a = s \<and> b = k then Some v else file_lookup f w a b)" for a b
    using lookup_upd [OF d(3) ok(2)] by (simp add: file_lookup_written [OF w'] file_lookup_written [OF es])
qed

text \<open>Reading from a written file.\<close>

lemma ReadStr_written:
  assumes "written w f es"
  shows "Cfg_ReadStr w (Some f) (Some s) (Some k) cap defval =
    (let v = (case file_lookup f w s k of Some v \<Rightarrow> v | None \<Rightarrow> defval)
     in if length v < cap then Inr (0, v) else Inl Out_Of_Bounds)"
proof -
  obtain p where p: "cfg_init w (Some f) False = Inr (0, Some p, w)" "entries p = map clear_flags es" "f_valid p"
    using init_written [OF assms, of False] by blast
  show ?thesis
    using p cfg_find_lookup [OF p(3), of s k] file_lookup_written [OF assms]
    by (auto simp: Cfg_ReadStr_def cfg_getstring2_def c_strcpy_def split: option.splits)
qed

lemma ReadInt_written:
  assumes "written w f es"
  shows "Cfg_ReadInt w (Some f) (Some s) (Some k) defval =
    (case file_lookup f w s k of
       None \<Rightarrow> Inr (-1, Some defval)
     | Some v \<Rightarrow> if length v < 64 then Inr (0, Some (c_atoi v)) else Inl Out_Of_Bounds)"
proof -
  obtain p where p: "cfg_init w (Some f) False = Inr (0, Some p, w)" "entries p = map clear_flags es" "f_valid p"
    using init_written [OF assms, of False] by blast
  show ?thesis
    using p cfg_find_lookup [OF p(3), of s k] file_lookup_written [OF assms]
    by (auto simp: Cfg_ReadInt_def cfg_getstring_def c_strcpy_def split: option.splits)
qed

fun write_file_all :: "string \<Rightarrow> world \<Rightarrow> (string \<times> string \<times> string) list \<Rightarrow> world cres" where
  "write_file_all f w [] = Inr w"
| "write_file_all f w ((s, k, v) # ws) =
     cbind (Cfg_WriteStr w (Some f) (Some s) (Some k) (Some v)) (\<lambda>(rc, w'). write_file_all f w' ws)"

lemma write_file_all_puts:
  assumes "write_file_all f w ws = Inr w'" "file_ok f w" "list_all (\<lambda>(s, k, v). def_ok s k v) ws"
  shows "fstore.puts f w ws w'"
  using assms
proof (induction ws arbitrary: w)
  case Nil
  then show ?case by (simp add: fstore.puts_Nil)
next
  case (Cons a ws)
  obtain s k v where a: "a = (s, k, v)" by (cases a)
  obtain rc w1 where q: "Cfg_WriteStr w (Some f) (Some s) (Some k) (Some v) = Inr (rc, w1)"
    "write_file_all f w1 ws = Inr w'"
    using Cons.prems(1) by (cases "Cfg_WriteStr w (Some f) (Some s) (Some k) (Some v)") (auto simp: a)
  obtain es where "written w f es" using Cons.prems(2) by (auto simp: file_ok_def)
  from WriteStr_written [OF this q(1)] q(1) have put: "file_put f w s k v w1" by (simp add: file_put_def)
  have d: "def_ok s k v" using Cons.prems(3) by (simp add: a)
  have "fstore.puts f w1 ws w'"
    using Cons.IH [OF q(2) fstore.put_inv [OF Cons.prems(2) d put]] Cons.prems(3) by simp
  from fstore.puts_Cons [OF d put this] show ?case unfolding a .
qed

lemma WriteStr_succeeds:
  assumes "written w f es" "length es \<le> 101" "def_ok s k v"
  shows "\<exists>w' es'. Cfg_WriteStr w (Some f) (Some s) (Some k) (Some v) = Inr (0, w') \<and> written w' f es' \<and>
    length es' \<le> length es + 2"
proof -
  obtain p where p: "cfg_init w (Some f) True = Inr (0, Some p, w)" "entries p = map clear_flags es"
    "f_valid p" "first_pool p" using init_written [OF assms(1), of True] assms(2) by auto
  have "is_ok (cfg_write p (Some s) (Some k) (Some v))"
    by (rule cfg_write_ok) (use p(2,4) assms(2) in \<open>auto simp: first_pool_def\<close>)
  then obtain rc p1 where "cfg_write p (Some s) (Some k) (Some v) = Inr (rc, p1)" by (auto simp: is_ok_iff)
  then obtain r w' where w: "Cfg_WriteStr w (Some f) (Some s) (Some k) (Some v) = Inr (r, w')"
    using p(1) by (cases "cfg_commit w p1") (auto simp: Cfg_WriteStr_def cfg_write_file_def)
  let ?es = "upd_table s k v (map clear_flags es)"
  have d: "section_ok s" "key_ok k" "plain_key k" "value_ok v" using assms(3) by (simp_all add: def_ok_def)
  have ok: "list_all entry_ok (map clear_flags es)" "list_all plain_entry (map clear_flags es)"
    using assms(1) by (auto simp: written_def list_all_iff)
  have "written w' f ?es"
    using WriteStr_written [OF assms(1) w]
      set_data_written [OF assms(1) upd_table_ok [OF d(1,2,4) ok(1)] plain_upd [OF d(3) ok(2)]] by simp
  moreover have "length (upd_in k v xs) \<le> length xs + 1" for xs by (induction xs) auto
  then have "length (upd_table s k v xs) \<le> length xs + 2" for xs
    by (induction xs) (auto intro: le_SucI)
  then have "length ?es \<le> length es + 2" by (metis length_map)
  ultimately show ?thesis using WriteStr_written [OF assms(1) w] w by blast
qed

text \<open>A world with one empty file, for the witnesses.\<close>

definition demo_world :: world where
  "demo_world = \<lparr>files = [''f'' \<mapsto> \<lparr>fl_data = [], fl_mtime = 0, fl_read = True, fl_write = True\<rparr>],
     may_create = (\<lambda>_. True), lock_ok = True, now = 1\<rparr>"

lemma demo_written: "written demo_world ''f'' []"
  by (simp add: written_def demo_world_def)

lemma demo_file_ok: "file_ok ''f'' demo_world"
  using demo_written by (auto simp: file_ok_def)

lemma demo_def_ok: "def_ok ''s'' ''k'' ''1''" "def_ok ''s'' ''k'' ''2''" "def_ok ''s'' ''j'' ''2''"
  by (simp_all add: def_ok_def section_ok_def key_ok_def plain_key_def value_ok_def remove_quotes_def
      iswhite_def iseolchar_def c_isspace_def iscomment_def isquote_def)

section \<open>Properties\<close>



text \<open>
  no write faults on a small file: as long as the file holds at most 101 entries,
  \<^verbatim>\<open>Cfg_WriteStr\<close> returns 0 and leaves a file of the same kind with at most two more entries.
\<close>

lemma cfg_file_write_succeeds:
  assumes "written w f es" "length es \<le> 101" "def_ok s k v"
  shows "\<exists>w' es'. Cfg_WriteStr w (Some f) (Some s) (Some k) (Some v) = Inr (0, w') \<and> written w' f es' \<and>
    length es' \<le> length es + 2"
  by (rule WriteStr_succeeds [OF assms])

lemma cfg_file_write_succeeds_witness:
  "\<exists>w'. Cfg_WriteStr demo_world (Some ''f'') (Some ''s'') (Some ''k'') (Some ''1'') = Inr (0, w')"
  using cfg_file_write_succeeds [OF demo_written _ demo_def_ok(1)] by auto

text \<open>
  concurrent writers lose updates. The lock on the file is released between loading and
  committing: when two callers load the same file before either commits, the commit of the
  second one undoes the write of the first, although both report success.
\<close>

lemma cfg_lost_update:
  assumes "written w f es" "def_ok s1 k1 v1" "def_ok s2 k2 v2" "(s1, k1) \<noteq> (s2, k2)"
    and "cfg_init w (Some f) True = Inr (0, Some p1, w)" "cfg_init w (Some f) True = Inr (0, Some p2, w)"
    and "cfg_write p1 (Some s1) (Some k1) (Some v1) = Inr (0, q1)"
    and "cfg_write p2 (Some s2) (Some k2) (Some v2) = Inr (0, q2)"
    and "cfg_commit w q1 = (0, r1, w1)" "cfg_commit w1 q2 = (0, r2, w2)"
  shows "Cfg_ReadStr w1 (Some f) (Some s1) (Some k1) cap d =
      (if length v1 < cap then Inr (0, v1) else Inl Out_Of_Bounds) \<and>
    Cfg_ReadStr w2 (Some f) (Some s1) (Some k1) cap d = Cfg_ReadStr w (Some f) (Some s1) (Some k1) cap d"
proof -
  have single: "Cfg_WriteStr w (Some f) (Some s) (Some k) (Some v) = Inr (0, w')"
    if "cfg_init w (Some f) True = Inr (0, Some p, w)" "cfg_write p (Some s) (Some k) (Some v) = Inr (0, q)"
      "cfg_commit w q = (0, r, w')" for p q r s k v w'
    using that by (simp add: Cfg_WriteStr_def cfg_write_file_def)
  have ok: "file_ok f w" using assms(1) by (auto simp: file_ok_def)
  have put1: "file_put f w s1 k1 v1 w1" using single [OF assms(5,7,9)] by (simp add: file_put_def)
  obtain es1 where es1: "written w1 f es1" using fstore.put_inv [OF ok assms(2) put1] by (auto simp: file_ok_def)
  obtain p where p: "cfg_init w (Some f) True = Inr (0, Some p, w)" "entries p = map clear_flags es" "f_valid p"
    "fileName p = f" using init_written [OF assms(1), of True] by blast
  then have p2: "f_valid p2" "fileName p2 = f" "entries p2 = map clear_flags es" using assms(6) by simp_all
  note u2 = cfg_write_upd [OF p2(1) assms(8)]
  let ?es2 = "upd_table s2 k2 v2 (map clear_flags es)"
  have "can_rdwr w1 f" "lock_ok w1" using es1 by (auto simp: written_def can_rdwr_def)
  then have w2: "w2 = set_data w1 f (cfg_output False ?es2)"
    using assms(10) u2 p2 by (simp add: cfg_commit_def)
  have d: "section_ok s2" "key_ok k2" "plain_key k2" "value_ok v2" using assms(3) by (simp_all add: def_ok_def)
  have eok: "list_all entry_ok (map clear_flags es)" "list_all plain_entry (map clear_flags es)"
    using assms(1) by (auto simp: written_def list_all_iff)
  have es2: "written w2 f ?es2"
    unfolding w2 by (rule set_data_written [OF es1 upd_table_ok [OF d(1,2,4) eok(1)] plain_upd [OF d(3) eok(2)]])
  have "file_lookup f w2 s1 k1 = file_lookup f w s1 k1"
    using assms(4) lookup_upd [OF d(3) eok(2)]
    by (auto simp: file_lookup_written [OF es2] file_lookup_written [OF assms(1)])
  moreover have "file_lookup f w1 s1 k1 = Some v1" using fstore.put_lookup [OF ok assms(2) put1] by simp
  ultimately show ?thesis
    by (simp add: ReadStr_written [OF es1] ReadStr_written [OF es2] ReadStr_written [OF assms(1)])
qed

lemma cfg_lost_update_witness:
  "\<exists>p q1 q2 r1 r2 w1 w2. cfg_init demo_world (Some ''f'') True = Inr (0, Some p, demo_world) \<and>
     cfg_write p (Some ''s'') (Some ''k'') (Some ''1'') = Inr (0, q1) \<and>
     cfg_write p (Some ''s'') (Some ''j'') (Some ''2'') = Inr (0, q2) \<and>
     cfg_commit demo_world q1 = (0, r1, w1) \<and> cfg_commit w1 q2 = (0, r2, w2) \<and>
     Cfg_ReadStr w2 (Some ''f'') (Some ''s'') (Some ''k'') 8 ''none'' = Inr (0, ''none'')"
proof -
  obtain p where p: "cfg_init demo_world (Some ''f'') True = Inr (0, Some p, demo_world)" "entries p = []"
    "f_valid p" "fileName p = ''f''" using init_written [OF demo_written, of True] by auto
  have "is_ok (cfg_write p (Some s) (Some k) (Some v))" for s k v by (rule cfg_write_ok) (simp add: p(2))
  then obtain a1 q1 a2 q2 where q: "cfg_write p (Some ''s'') (Some ''k'') (Some ''1'') = Inr (a1, q1)"
    "cfg_write p (Some ''s'') (Some ''j'') (Some ''2'') = Inr (a2, q2)"
    by (metis is_ok_iff surj_pair)
  note u = cfg_write_upd [OF p(3) q(1)] cfg_write_upd [OF p(3) q(2)]
  obtain r1 w1 where c1: "cfg_commit demo_world q1 = (0, r1, w1)" "can_rdwr w1 ''f''" "lock_ok w1"
    using u p(4) by (auto simp: cfg_commit_def can_rdwr_def demo_world_def set_data_def)
  obtain r2 w2 where c2: "cfg_commit w1 q2 = (0, r2, w2)"
    using u p(4) c1(2,3) by (auto simp: cfg_commit_def)
  have q': "cfg_write p (Some ''s'') (Some ''k'') (Some ''1'') = Inr (0, q1)"
    "cfg_write p (Some ''s'') (Some ''j'') (Some ''2'') = Inr (0, q2)" using q u by simp_all
  have "(''s'', ''k'') \<noteq> (''s'', ''j'')" by simp
  from cfg_lost_update [OF demo_written demo_def_ok(1,3) this p(1) p(1) q' c1(1) c2, of 8 "''none''"]
  have "Cfg_ReadStr w2 (Some ''f'') (Some ''s'') (Some ''k'') 8 ''none'' =
      Cfg_ReadStr demo_world (Some ''f'') (Some ''s'') (Some ''k'') 8 ''none''" by simp
  also have "\<dots> = Inr (0, ''none'')"
    by (simp add: ReadStr_written [OF demo_written] file_lookup_written [OF demo_written])
  finally show ?thesis using p(1) q' c1(1) c2 by blast
qed

end
