(* ===== verification/Cfg_Safety.thy ===== *)
theory Cfg_Safety
  imports Cfg_Store
begin

text \<open>
  Loading any file at all, not only one that the library wrote: when it ends, what it never does,
  and the integer calls with their fixed buffers.
\<close>

lemma parse_ends:
  assumes "\<not> f_valid p"
  shows "if NUL \<in> set (case image p of None \<Rightarrow> [] | Some s \<Rightarrow> s) then cfg_parse p = Inl Diverges
    else \<exists>p'. cfg_parse p = Inr p' \<and> f_valid p'"
  using parse_loop_ends [of "case image p of None \<Rightarrow> [] | Some s \<Rightarrow> s" p] assms
  by (auto simp: cfg_parse_def is_ok_iff split: if_splits)

lemma refresh_new:
  assumes "files w f = Some fl" "fl_read fl" "lock_ok w"
  shows "if NUL \<in> set (fl_data fl) then cfg_refresh w (tconfig0 f) = Inl Diverges
    else \<exists>p. cfg_refresh w (tconfig0 f) = Inr (0, p) \<and> f_valid p"
proof -
  let ?q = "(tconfig0 f)\<lparr>image := Some (fl_data fl), img_size := length (fl_data fl), mtime := fl_mtime fl\<rparr>"
  have "cfg_refresh w (tconfig0 f) = cbind (cfg_parse ?q) (\<lambda>p3. Inr (0, p3))"
    using assms by (simp add: cfg_refresh_def Let_def tconfig0_def cfg_freeimage_def)
  with parse_ends [of ?q] show ?thesis by (auto simp: tconfig0_def split: if_splits)
qed

lemma refresh_fails:
  "\<not> (\<exists>fl. files w f = Some fl \<and> fl_read fl \<and> lock_ok w) \<Longrightarrow>
   \<exists>r p. cfg_refresh w (tconfig0 f) = Inr (r, p) \<and> r \<noteq> 0"
  by (cases "files w f") (auto simp: cfg_refresh_def tconfig0_def Let_def)

lemma init_result:
  "case cfg_init w fo c of
     Inl e \<Rightarrow> e = Diverges \<and> (\<exists>f fl. fo = Some f \<and> files w f = Some fl \<and> NUL \<in> set (fl_data fl))
   | Inr (ret, pc, w') \<Rightarrow> (case pc of None \<Rightarrow> ret < 0 | Some p \<Rightarrow> ret = 0 \<and> f_valid p)"
proof (cases fo)
  case None
  then show ?thesis by (simp add: cfg_init_def)
next
  case (Some f)
  let ?w1 = "if files w f = None then c_creat w f else w"
  show ?thesis
  proof (cases "files w f = None \<and> \<not> c")
    case True
    then show ?thesis using Some by (simp add: cfg_init_def)
  next
    case nc: False
    then have i: "cfg_init w fo c = cbind (cfg_refresh ?w1 (tconfig0 f)) (\<lambda>(ret, p).
        if ret \<noteq> 0 then Inr (-11, None, ?w1) else Inr (0, Some p, ?w1))"
      using Some by (auto simp: cfg_init_def Let_def)
    show ?thesis
    proof (cases "\<exists>fl. files ?w1 f = Some fl \<and> fl_read fl \<and> lock_ok ?w1")
      case False
      from refresh_fails [OF this] obtain r p where "cfg_refresh ?w1 (tconfig0 f) = Inr (r, p)" "r \<noteq> 0"
        by blast
      then show ?thesis by (simp add: i)
    next
      case True
      then obtain fl where fl: "files ?w1 f = Some fl" "fl_read fl" "lock_ok ?w1" by blast
      have "NUL \<in> set (fl_data fl) \<Longrightarrow> files w f = Some fl"
        using fl(1) by (auto simp: c_creat_def split: if_splits)
      then show ?thesis unfolding i using refresh_new [OF fl] Some
        by (cases "NUL \<in> set (fl_data fl)") (auto split: if_splits)
    qed
  qed
qed

text \<open>
  C22: loading a readable file ends exactly when the file holds no NUL byte: then the table is
  valid; with a NUL anywhere \<^verbatim>\<open>_cfg_parse\<close> never returns, and neither does any call that loads the
  file.
\<close>

theorem cfg_init_terminates_iff:
  assumes "files w f = Some fl" "fl_read fl" "lock_ok w"
  shows "if NUL \<in> set (fl_data fl) then cfg_init w (Some f) c = Inl Diverges
    else \<exists>p. cfg_init w (Some f) c = Inr (0, Some p, w) \<and> f_valid p"
  using refresh_new [OF assms] assms(1) by (auto simp: cfg_init_def split: if_splits)

theorem cfg_init_terminates_iff_witness:
  "cfg_init (demo_world\<lparr>files := [''f'' \<mapsto> \<lparr>fl_data = [CHR ''a'', NUL, LF], fl_mtime = 0, fl_read = True,
     fl_write = True\<rparr>]\<rparr>) (Some ''f'') False = Inl Diverges"
  using cfg_init_terminates_iff [of "demo_world\<lparr>files := [''f'' \<mapsto> \<lparr>fl_data = [CHR ''a'', NUL, LF],
     fl_mtime = 0, fl_read = True, fl_write = True\<rparr>]\<rparr>" "''f''" _ False]
  by (simp add: demo_world_def)

text \<open>
  C31: \<^verbatim>\<open>Cfg_ReadString\<close> is memory safe. For every file, all arguments, null pointers included,
  and every size, the call never faults, and what it leaves in the caller's buffer, with its NUL,
  fits the size that was passed; only a NUL byte in the file keeps it from returning.
\<close>

theorem Cfg_ReadString_safe:
  "case Cfg_ReadString w sec key def nn sz ini of
     Inl e \<Rightarrow> e = Diverges \<and> (\<exists>f fl. ini = Some f \<and> files w f = Some fl \<and> NUL \<in> set (fl_data fl))
   | Inr (rc, str) \<Rightarrow>
       rc \<in> {0, -1, -2, -3, -5, -6} \<and> (case str of None \<Rightarrow> rc \<noteq> 0 | Some s \<Rightarrow> length s < sz)"
proof (cases "sec = None \<or> key = None \<or> def = None \<or> ini = None \<or> \<not> nn \<or> sz \<le> length (the def)")
  case True
  then show ?thesis by (auto simp: Cfg_ReadString_def split: option.splits)
next
  case False
  then obtain s k d f where a: "sec = Some s" "key = Some k" "def = Some d" "ini = Some f" "nn" "length d < sz"
    by auto
  show ?thesis
  proof (cases "cfg_init w ini False")
    case (Inl e)
    then show ?thesis using init_result [where w = w and fo = ini and c = False] a
      by (simp add: Cfg_ReadString_def c_strcpy_def)
  next
    case (Inr x)
    obtain ret pc w1 where x: "x = (ret, pc, w1)" by (cases x)
    show ?thesis
    proof (cases pc)
      case None
      then show ?thesis using Inr x a by (simp add: Cfg_ReadString_def c_strcpy_def)
    next
      case (Some p)
      then have "f_valid p" using init_result [where w = w and fo = ini and c = False] Inr x by simp
      from cfg_find_lookup [OF this, of s k] obtain rc p' where
        fd: "cfg_find p (Some s) (Some k) = Inr (rc, p')"
        "rc = -1 \<or> rc = 0 \<and> (\<exists>v. cur_value p' = Some v)" by (auto split: option.splits)
      then show ?thesis using Inr x a Some
        by (auto simp: Cfg_ReadString_def c_strcpy_def)
    qed
  qed
qed

section \<open>Integers\<close>

lemma value_scan_plain:
  "\<forall>c \<in> set v. \<not> isquote c \<and> \<not> iscomment c \<Longrightarrow>
   value_scan NUL p (v @ [TAB, CHR '';'']) = (v @ [TAB], Some [])"
proof (induction v arbitrary: p)
  case Nil
  then show ?case by (simp add: isquote_def iscomment_def iswhite_def)
next
  case (Cons c v)
  then show ?case by (simp add: value_scan_step next_quote_def)
qed

lemma dec_chars: "c \<in> set (dec i) \<Longrightarrow> isdigit_char c \<or> c = CHR ''-''"
  using nat_digits_digits by (auto simp: dec_def split: if_splits)

lemma dec_value_ok: "value_ok (dec i)"
proof -
  have n: "\<not> iswhite c \<and> \<not> iseolchar c \<and> \<not> iscomment c \<and> \<not> isquote c \<and> \<not> c_isspace c" if "c \<in> set (dec i)" for c
    using dec_chars [OF that]
  proof
    assume "isdigit_char c"
    then show ?thesis using isdigit_not by blast
  qed (simp add: iswhite_def iseolchar_def iscomment_def isquote_def c_isspace_def)
  then show ?thesis
    by (auto simp: value_ok_def line_text_def list_all_iff intro!: value_scan_plain)
qed

lemma dec_length_64: "length (dec (sint (x :: 64 word))) < 64"
proof -
  have b: "- (2 ^ 63) \<le> sint x" "sint x < 2 ^ 63" using sint_greater_eq [of x] sint_less [of x] by simp_all
  have "length (nat_digits (nat j)) \<le> Suc 19" if "j \<le> 2 ^ 63" for j :: int
  proof -
    have "nat j \<le> 2 ^ 63" using that by simp
    also have "(2 :: nat) ^ 63 < 10 ^ Suc 19" by simp
    finally show ?thesis unfolding nat_digits_length .
  qed
  from this [of "- sint x"] this [of "sint x"] b show ?thesis by (auto simp: dec_def)
qed

text \<open>
  integers survive the file. A value that \<^verbatim>\<open>Cfg_WriteInt\<close> writes (a 64-bit \<^verbatim>\<open>long\<close>) is read
  back by \<^verbatim>\<open>Cfg_ReadInt\<close> as its low 32 bits, so unchanged when it is an \<^verbatim>\<open>int\<close>; and \<^verbatim>\<open>Cfg_ReadInt\<close>
  overruns its 64 bytes exactly when the value it finds has 64 characters or more.
\<close>

lemma cfg_int_roundtrip:
  assumes "file_ok f w" "section_ok s" "key_ok k" "plain_key k"
    and "Cfg_WriteInt w (Some f) (Some s) (Some k) x = Inr (r, w')"
  shows "Cfg_ReadInt w' (Some f) (Some s) (Some k) d = Inr (0, Some (to_int32 (sint x))) \<and>
    (- (2 ^ 31) \<le> sint x \<and> sint x < 2 ^ 31 \<longrightarrow> to_int32 (sint x) = sint x) \<and>
    (Cfg_ReadInt w (Some f) (Some a) (Some b) d = Inl Out_Of_Bounds \<longleftrightarrow>
      (\<exists>v. file_lookup f w a b = Some v \<and> 64 \<le> length v))"
proof -
  have l: "length (dec (sint x)) < 64" by (rule dec_length_64)
  then have "Cfg_WriteInt w (Some f) (Some s) (Some k) x =
      Cfg_WriteStr w (Some f) (Some s) (Some k) (Some (dec (sint x)))"
    by (simp add: Cfg_WriteInt_def sprintf_buf_def Cfg_WriteStr_def)
  with assms(5) have w: "Cfg_WriteStr w (Some f) (Some s) (Some k) (Some (dec (sint x))) = Inr (r, w')" by simp
  obtain es where es: "written w f es" using assms(1) by (auto simp: file_ok_def)
  have r: "r = 0" using WriteStr_written [OF es w] by simp
  have d: "def_ok s k (dec (sint x))" using assms(2-4) dec_value_ok by (simp add: def_ok_def)
  have put: "file_put f w s k (dec (sint x)) w'" using w r by (simp add: file_put_def)
  obtain es' where es': "written w' f es'" using fstore.put_inv [OF assms(1) d put] by (auto simp: file_ok_def)
  have "- (2 ^ 63) \<le> sint x" "sint x < 2 ^ 63" using sint_greater_eq [of x] sint_less [of x] by simp_all
  then have "c_atoi (dec (sint x)) = to_int32 (sint x)" by (simp add: c_atoi_def strtol_dec)
  then have "Cfg_ReadInt w' (Some f) (Some s) (Some k) d = Inr (0, Some (to_int32 (sint x)))"
    unfolding ReadInt_written [OF es'] using fstore.put_lookup [OF assms(1) d put] l by simp
  moreover have "- (2 ^ 31) \<le> sint x \<and> sint x < 2 ^ 31 \<longrightarrow> to_int32 (sint x) = sint x"
    by (simp add: to_int32_def)
  moreover have "Cfg_ReadInt w (Some f) (Some a) (Some b) d = Inl Out_Of_Bounds \<longleftrightarrow>
      (\<exists>v. file_lookup f w a b = Some v \<and> 64 \<le> length v)"
    unfolding ReadInt_written [OF es] by (auto split: option.splits)
  ultimately show ?thesis by blast
qed

lemma cfg_int_roundtrip_witness:
  "\<exists>w'. Cfg_WriteInt demo_world (Some ''f'') (Some ''s'') (Some ''k'') (- 7) = Inr (0, w') \<and>
     Cfg_ReadInt w' (Some ''f'') (Some ''s'') (Some ''k'') 0 = Inr (0, Some (- 7))"
proof -
  have k: "section_ok ''s''" "key_ok ''k''" "plain_key ''k''" using demo_def_ok(1) by (simp_all add: def_ok_def)
  have v: "def_ok ''s'' ''k'' (dec (- 7))" using k dec_value_ok by (simp add: def_ok_def)
  have m: "sint (- 7 :: 64 word) = - 7" by simp
  have "Cfg_WriteInt demo_world (Some ''f'') (Some ''s'') (Some ''k'') (- 7) =
      Cfg_WriteStr demo_world (Some ''f'') (Some ''s'') (Some ''k'') (Some (dec (- 7)))"
    using dec_length_64 [of "- 7"] unfolding m by (simp add: Cfg_WriteInt_def sprintf_buf_def Cfg_WriteStr_def)
  then obtain w' where w': "Cfg_WriteInt demo_world (Some ''f'') (Some ''s'') (Some ''k'') (- 7) = Inr (0, w')"
    using WriteStr_succeeds [OF demo_written _ v] by auto
  from cfg_int_roundtrip [OF demo_file_ok k w', of 0] w' show ?thesis by (simp add: to_int32_def)
qed

end
