(* ===== verification/Timer.thy ===== *)
theory Timer
  imports Cvos_Prelude
begin

text \<open>
  \<^verbatim>\<open>timer.c\<close> and the timer calls of \<^verbatim>\<open>vos.c\<close>: the table of timers on top of the POSIX timers of the
  kernel, the parser of 14-digit time stamps and the absolute timers. The kernel is a map from
  \<^verbatim>\<open>timer_t\<close> values to timers; what \<^verbatim>\<open>timer_create\<close> returns is an argument, \<open>None\<close> for its failure.
  The mutex makes each call one step.
\<close>

section \<open>POSIX timers\<close>

record ktimer =
  kt_func :: nat
  kt_arg :: int
  kt_value :: int
  kt_nsec :: int
  kt_interval :: int

type_synonym kernel = "u64 \<Rightarrow> ktimer option"

definition timer_create :: "nat \<Rightarrow> int \<Rightarrow> u64 \<Rightarrow> kernel \<Rightarrow> kernel" where
  "timer_create f a tid K = K(tid \<mapsto> \<lparr>kt_func = f, kt_arg = a, kt_value = 0, kt_nsec = 0, kt_interval = 0\<rparr>)"

definition timer_settime :: "u64 \<Rightarrow> int \<Rightarrow> int \<Rightarrow> int \<Rightarrow> kernel \<Rightarrow> int \<times> kernel" where
  "timer_settime tid v ns iv K =
     (case K tid of
        None \<Rightarrow> (-1, K)
      | Some t \<Rightarrow> if v < 0 \<or> ns < 0 \<or> 10 ^ 9 \<le> ns \<or> iv < 0 then (-1, K)
                  else (0, K(tid \<mapsto> t\<lparr>kt_value := v, kt_nsec := ns, kt_interval := iv\<rparr>)))"

definition timer_delete :: "u64 \<Rightarrow> kernel \<Rightarrow> int \<times> kernel" where
  "timer_delete tid K = (if K tid = None then (-1, K) else (0, K(tid := None)))"

text \<open>A \<^verbatim>\<open>timer_t\<close> is a pointer; the table keeps it as an \<^verbatim>\<open>int\<close> and converts it back.\<close>

definition tid_to_int :: "u64 \<Rightarrow> 32 word" where
  "tid_to_int tid = ucast tid"

definition int_to_tid :: "32 word \<Rightarrow> u64" where
  "int_to_tid i = scast i"

definition wrap_int :: "int \<Rightarrow> int" where
  "wrap_int x = sint (word_of_int x :: 32 word)"

section \<open>The table\<close>

definition TIMER_ONCE :: int where "TIMER_ONCE = 0"

definition TIMER_INTERVAL :: int where "TIMER_INTERVAL = 1"

definition MAX_TIMER_NUM :: nat where "MAX_TIMER_NUM = 100"

record timer_s =
  tm_flag :: int
  timerId :: "32 word"
  timerMode :: int
  ChkTimeStr :: string
  TimeoutSec :: int
  TimeoutFunc :: nat
  timer_args :: int

record timer_user_s =
  usr_mode :: int
  usr_time :: string
  usr_func :: nat
  usr_args :: int

record timer_world =
  slots :: "timer_s list"
  ktimers :: kernel

definition timer_s0 :: timer_s where
  "timer_s0 = \<lparr>tm_flag = 0, timerId = 0, timerMode = 0, ChkTimeStr = [], TimeoutSec = 0,
               TimeoutFunc = 0, timer_args = 0\<rparr>"

definition timer_world0 :: timer_world where
  "timer_world0 = \<lparr>slots = replicate MAX_TIMER_NUM timer_s0, ktimers = (\<lambda>_. None)\<rparr>"

fun find_free :: "timer_s list \<Rightarrow> nat" where
  "find_free [] = 0"
| "find_free (t # ts) = (if tm_flag t = 0 then 0 else Suc (find_free ts))"

section \<open>Time stamps\<close>

record c_tm =
  tm_year :: int
  tm_mon :: int
  tm_mday :: int
  tm_hour :: int
  tm_min :: int
  tm_sec :: int

definition tm_zero :: c_tm where
  "tm_zero = \<lparr>tm_year = 0, tm_mon = 0, tm_mday = 0, tm_hour = 0, tm_min = 0, tm_sec = 0\<rparr>"

definition s_iMonthFix :: "int list" where
  "s_iMonthFix = [2, 0, 2, 1, 2, 1, 2, 2, 1, 2, 1, 2]"

text \<open>A plain \<^verbatim>\<open>char\<close> is signed; the terminator of the string can be read, nothing behind it.\<close>

definition char_int :: "char \<Rightarrow> int" where
  "char_int c = sint (of_char c :: u8)"

definition digit_at :: "string \<Rightarrow> nat \<Rightarrow> int" where
  "digit_at s i = char_int ((s @ [CHR 0x00]) ! i) - 48"

definition tm_fields :: "string \<Rightarrow> c_tm" where
  "tm_fields s =
     \<lparr>tm_year = digit_at s 0 * 1000 + digit_at s 1 * 100 + digit_at s 2 * 10 + digit_at s 3,
      tm_mon = digit_at s 4 * 10 + digit_at s 5,
      tm_mday = digit_at s 6 * 10 + digit_at s 7,
      tm_hour = digit_at s 8 * 10 + digit_at s 9,
      tm_min = digit_at s 10 * 10 + digit_at s 11,
      tm_sec = digit_at s 12 * 10 + digit_at s 13\<rparr>"

text \<open>The table is indexed only when the tests before it in the condition have passed.\<close>

definition tm_valid :: "c_tm \<Rightarrow> bool cres" where
  "tm_valid t =
     (if \<not> (1900 \<le> tm_year t \<and> tm_year t < 2036 \<and> tm_mon t < 13) then Inr False
      else if tm_mon t - 1 < 0 then Inl Out_Of_Bounds
      else Inr (tm_mday t \<le> 29 + s_iMonthFix ! nat (tm_mon t - 1) \<and>
                tm_hour t < 24 \<and> tm_min t < 60 \<and> tm_sec t < 60))"

definition digit2time :: "string option \<Rightarrow> int \<Rightarrow> (int \<times> c_tm) cres" where
  "digit2time timeStr iLen =
     (case timeStr of
        None \<Rightarrow> Inr (-1, tm_zero)
      | Some s \<Rightarrow>
          if iLen \<noteq> 14 then Inr (-1, tm_zero)
          else if length s < 13 then Inl Out_Of_Bounds
          else
            let t = tm_fields s in
            cbind (tm_valid t) (\<lambda>ok.
              if ok then Inr (0, t\<lparr>tm_year := tm_year t - 1900, tm_mon := tm_mon t - 1\<rparr>)
              else Inr (-2, t)))"

text \<open>The copy in \<^verbatim>\<open>vos.c\<close> leaves the year and the month as they are written.\<close>

definition osdigit2time :: "string option \<Rightarrow> int \<Rightarrow> (int \<times> c_tm) cres" where
  "osdigit2time timeStr iLen =
     (case timeStr of
        None \<Rightarrow> Inr (-1, tm_zero)
      | Some s \<Rightarrow>
          if iLen \<noteq> 14 then Inr (-1, tm_zero)
          else if length s < 13 then Inl Out_Of_Bounds
          else
            let t = tm_fields s in
            cbind (tm_valid t) (\<lambda>ok. if ok then Inr (0, t) else Inr (-2, t)))"

text \<open>
  \<^verbatim>\<open>mktime\<close> in a zone that is \<open>gmtoff\<close> seconds ahead of UTC, for the months 0 to 11: seconds since
  1970, days that do not exist running on into the next month.
\<close>

definition leap_year :: "int \<Rightarrow> bool" where
  "leap_year y \<longleftrightarrow> y mod 4 = 0 \<and> (y mod 100 \<noteq> 0 \<or> y mod 400 = 0)"

definition leaps_upto :: "int \<Rightarrow> int" where
  "leaps_upto y = y div 4 - y div 100 + y div 400"

definition days_before_month :: "int list" where
  "days_before_month = [0, 31, 59, 90, 120, 151, 181, 212, 243, 273, 304, 334]"

definition c_mktime :: "int \<Rightarrow> c_tm \<Rightarrow> int" where
  "c_mktime gmtoff t =
     (let y = tm_year t + 1900;
          d = 365 * (y - 1970) + leaps_upto (y - 1) - leaps_upto 1969 +
              days_before_month ! nat (tm_mon t) + (if leap_year y \<and> 2 \<le> tm_mon t then 1 else 0) +
              tm_mday t - 1
      in 86400 * d + 3600 * tm_hour t + 60 * tm_min t + tm_sec t - gmtoff)"

section \<open>The operations\<close>

definition TM_NewDeltaTimer ::
  "int \<Rightarrow> int \<Rightarrow> nat \<Rightarrow> int \<Rightarrow> u64 option \<Rightarrow> timer_world \<Rightarrow> int \<times> timer_world" where
  "TM_NewDeltaTimer mode sec f sival created w =
     (let i = find_free (slots w) in
      if i = MAX_TIMER_NUM then (-1, w)
      else case created of
        None \<Rightarrow> (-2, w)
      | Some tid \<Rightarrow>
          let K = timer_create f sival tid (ktimers w) in
          if tid < 0 then (-3, w\<lparr>ktimers := K\<rparr>)
          else
            let (r, K') = timer_settime tid sec 0 (if mode = TIMER_INTERVAL then sec else 0) K in
            if r = -1 then (-4, w\<lparr>ktimers := K'\<rparr>)
            else (int i, w\<lparr>slots := (slots w)[i := (slots w ! i)\<lparr>timerId := tid_to_int tid,
                            TimeoutSec := sec, TimeoutFunc := f, timer_args := sival, tm_flag := 1\<rparr>],
                           ktimers := K'\<rparr>))"

definition TM_NewAbsTimer ::
  "timer_user_s \<Rightarrow> int \<Rightarrow> int \<Rightarrow> u64 option \<Rightarrow> timer_world \<Rightarrow> (int \<times> timer_world) cres" where
  "TM_NewAbsTimer u preTime gmtoff created w =
     (let i = find_free (slots w) in
      if i = MAX_TIMER_NUM then Inr (-1, w)
      else cbind (digit2time (Some (usr_time u)) (int (length (usr_time u)))) (\<lambda>(ret, t).
        if ret \<noteq> 0 then Inr (-2, w)
        else
          let diffSec = wrap_int (c_mktime gmtoff t - preTime) in
          if diffSec \<le> 0 then Inr (-3, w)
          else case created of
            None \<Rightarrow> Inr (-4, w)
          | Some tid \<Rightarrow>
              let K = timer_create (usr_func u) (usr_args u) tid (ktimers w) in
              if tid < 0 then Inr (-5, w\<lparr>ktimers := K\<rparr>)
              else
                let (r, K') = timer_settime tid diffSec 0
                                (if usr_mode u = TIMER_INTERVAL then 3600 else 0) K in
                if r = -1 then Inr (-6, w\<lparr>ktimers := K'\<rparr>)
                else if 32 \<le> length (usr_time u) then Inl Out_Of_Bounds
                else Inr (int i, w\<lparr>slots := (slots w)[i := (slots w ! i)\<lparr>timerMode := usr_mode u,
                                ChkTimeStr := usr_time u, TimeoutFunc := usr_func u,
                                timer_args := usr_args u, TimeoutSec := diffSec,
                                timerId := tid_to_int tid, tm_flag := 1\<rparr>],
                              ktimers := K'\<rparr>)))"

definition TM_Delete :: "int \<Rightarrow> timer_world \<Rightarrow> int \<times> timer_world" where
  "TM_Delete idx w =
     (if idx < 0 \<or> int MAX_TIMER_NUM \<le> idx then (-1, w)
      else
        let i = nat idx;
            (r, K) = timer_delete (int_to_tid (timerId (slots w ! i))) (ktimers w)
        in (r, w\<lparr>slots := (slots w)[i := (slots w ! i)\<lparr>tm_flag := 0\<rparr>], ktimers := K\<rparr>))"

definition TM_Reset :: "int \<Rightarrow> timer_world \<Rightarrow> int \<times> timer_world" where
  "TM_Reset idx w =
     (if idx < 0 \<or> int MAX_TIMER_NUM \<le> idx then (-1, w)
      else
        let t = slots w ! nat idx in
        if timerMode t = TIMER_ONCE then
          let (r, K) = timer_settime (int_to_tid (timerId t)) (TimeoutSec t) 0 0 (ktimers w)
          in (r, w\<lparr>ktimers := K\<rparr>)
        else (0, w))"

text \<open>The single timers of \<^verbatim>\<open>vos.c\<close> have no table; the caller keeps the \<^verbatim>\<open>int\<close>.\<close>

definition osTimerCreate ::
  "int \<Rightarrow> int \<Rightarrow> nat \<Rightarrow> int \<Rightarrow> u64 option \<Rightarrow> kernel \<Rightarrow> int \<times> kernel" where
  "osTimerCreate sec usec f sival created K =
     (case created of
        None \<Rightarrow> (-2, K)
      | Some tid \<Rightarrow>
          let K1 = timer_create f sival tid K in
          if tid < 0 then (-3, K1)
          else let (r, K2) = timer_settime tid sec (usec * 1000) 0 K1 in
               if r = -1 then (-4, K2) else (sint (tid_to_int tid), K2))"

definition osTimerDelete :: "32 word \<Rightarrow> kernel \<Rightarrow> int \<times> kernel" where
  "osTimerDelete i K = timer_delete (int_to_tid i) K"

definition osTimerSettime :: "32 word \<Rightarrow> int \<Rightarrow> int \<Rightarrow> kernel \<Rightarrow> int \<times> kernel" where
  "osTimerSettime i sec usec K = timer_settime (int_to_tid i) sec (usec * 1000) 0 K"

end
