(* ===== verification/Timer_Run.thy ===== *)
theory Timer_Run
  imports Timer
begin

text \<open>
  The timers over sequences of calls: the client's discipline under which the table and the kernel
  agree, what a call outside it does, and what the calls do with modes, time stamps and dates.
\<close>

section \<open>Sequences of calls\<close>

datatype timer_call =
    Call_Delta int int nat int "u64 option"
  | Call_Abs timer_user_s int "u64 option"
  | Call_Delete int
  | Call_Reset int

fun timer_step :: "int \<Rightarrow> timer_call \<Rightarrow> timer_world \<Rightarrow> (int \<times> timer_world) cres" where
  "timer_step gmtoff (Call_Delta mode sec f a created) w = Inr (TM_NewDeltaTimer mode sec f a created w)"
| "timer_step gmtoff (Call_Abs u preTime created) w = TM_NewAbsTimer u preTime gmtoff created w"
| "timer_step gmtoff (Call_Delete idx) w = Inr (TM_Delete idx w)"
| "timer_step gmtoff (Call_Reset idx) w = Inr (TM_Reset idx w)"

text \<open>
  The kernel hands out identifiers that no live timer has and that survive the conversion to
  \<^verbatim>\<open>int\<close>; the client deletes and resets only slots in use, or indices out of range.
\<close>

definition created_ok :: "u64 option \<Rightarrow> timer_world \<Rightarrow> bool" where
  "created_ok created w =
     (case created of None \<Rightarrow> True
      | Some tid \<Rightarrow> ktimers w tid = None \<and> int_to_tid (tid_to_int tid) = tid)"

definition slot_used :: "timer_world \<Rightarrow> nat \<Rightarrow> bool" where
  "slot_used w i \<longleftrightarrow> i < MAX_TIMER_NUM \<and> tm_flag (slots w ! i) = 1"

definition slot_tid :: "timer_world \<Rightarrow> nat \<Rightarrow> u64" where
  "slot_tid w i = int_to_tid (timerId (slots w ! i))"

fun call_ok :: "timer_call \<Rightarrow> timer_world \<Rightarrow> bool" where
  "call_ok (Call_Delta mode sec f a created) w = created_ok created w"
| "call_ok (Call_Abs u preTime created) w = created_ok created w"
| "call_ok (Call_Delete idx) w = (idx < 0 \<or> int MAX_TIMER_NUM \<le> idx \<or> slot_used w (nat idx))"
| "call_ok (Call_Reset idx) w = (idx < 0 \<or> int MAX_TIMER_NUM \<le> idx \<or> slot_used w (nat idx))"

inductive timer_reach :: "int \<Rightarrow> timer_world \<Rightarrow> bool" for gmtoff where
  reach_init: "timer_reach gmtoff timer_world0"
| reach_step: "timer_reach gmtoff w \<Longrightarrow> call_ok c w \<Longrightarrow> timer_step gmtoff c w = Inr (r, w') \<Longrightarrow>
    timer_reach gmtoff w'"

section \<open>The invariant\<close>

definition slot_live :: "timer_world \<Rightarrow> nat \<Rightarrow> bool" where
  "slot_live w i \<longleftrightarrow>
     (case ktimers w (slot_tid w i) of None \<Rightarrow> False
      | Some t \<Rightarrow> kt_func t = TimeoutFunc (slots w ! i) \<and> kt_arg t = timer_args (slots w ! i))"

definition timer_inv :: "timer_world \<Rightarrow> bool" where
  "timer_inv w \<longleftrightarrow>
     length (slots w) = MAX_TIMER_NUM \<and>
     (\<forall>i < MAX_TIMER_NUM. tm_flag (slots w ! i) \<in> {0, 1}) \<and>
     (\<forall>i. slot_used w i \<longrightarrow> slot_live w i) \<and>
     (\<forall>i j. slot_used w i \<longrightarrow> slot_used w j \<longrightarrow> slot_tid w i = slot_tid w j \<longrightarrow> i = j)"

lemma find_free_le: "find_free ts \<le> length ts"
  by (induction ts) auto

lemma find_free_flag: "find_free ts < length ts \<Longrightarrow> tm_flag (ts ! find_free ts) = 0"
  by (induction ts) auto

lemma find_free_slot:
  assumes "timer_inv w" "find_free (slots w) \<noteq> MAX_TIMER_NUM"
  shows "find_free (slots w) < MAX_TIMER_NUM" "tm_flag (slots w ! find_free (slots w)) = 0"
proof -
  have "find_free (slots w) < length (slots w)"
    using assms find_free_le [of "slots w"] by (simp add: timer_inv_def)
  then show "find_free (slots w) < MAX_TIMER_NUM" "tm_flag (slots w ! find_free (slots w)) = 0"
    using assms(1) find_free_flag [of "slots w"] by (simp_all add: timer_inv_def)
qed

lemma inv_world0: "timer_inv timer_world0"
  by (auto simp: timer_inv_def timer_world0_def slot_used_def timer_s0_def)

text \<open>The three ways a call changes the world.\<close>

lemma inv_leak:
  assumes "timer_inv w" "ktimers w tid = None"
  shows "timer_inv (w\<lparr>ktimers := (ktimers w)(tid := x)\<rparr>)"
  using assms
  by (auto simp: timer_inv_def slot_used_def slot_live_def slot_tid_def split: option.splits)

lemma inv_install:
  assumes inv: "timer_inv w" and i: "i < MAX_TIMER_NUM" "tm_flag (slots w ! i) = 0"
    and fresh: "ktimers w tid = None"
    and s: "tm_flag s = 1" "int_to_tid (timerId s) = tid" "TimeoutFunc s = kt_func t" "timer_args s = kt_arg t"
  shows "timer_inv (w\<lparr>slots := (slots w)[i := s], ktimers := (ktimers w)(tid \<mapsto> t)\<rparr>)"
proof -
  let ?w = "w\<lparr>slots := (slots w)[i := s], ktimers := (ktimers w)(tid \<mapsto> t)\<rparr>"
  have len: "length (slots w) = MAX_TIMER_NUM" using inv by (simp add: timer_inv_def)
  have old: "slot_used ?w j \<longleftrightarrow> j = i \<or> slot_used w j" "slot_tid ?w j = (if j = i then tid else slot_tid w j)" for j
    using i s len by (auto simp: slot_used_def slot_tid_def nth_list_update)
  have live: "slot_live w j \<Longrightarrow> slot_tid w j \<noteq> tid" for j
    using fresh by (auto simp: slot_live_def)
  have "slot_live ?w j" if "slot_used ?w j" for j
  proof (cases "j = i")
    case True
    then show ?thesis using i s len by (simp add: slot_live_def slot_tid_def)
  next
    case False
    then have "slot_live w j" using that old inv by (simp add: timer_inv_def)
    then show ?thesis using False live [of j]
      by (auto simp: slot_live_def slot_tid_def split: option.splits)
  qed
  moreover have "a = b" if "slot_used ?w a" "slot_used ?w b" "slot_tid ?w a = slot_tid ?w b" for a b
    using that inv live unfolding old timer_inv_def by (auto split: if_splits)
  moreover have "\<forall>j < MAX_TIMER_NUM. tm_flag (slots ?w ! j) \<in> {0, 1}"
    using inv s(1) i len by (auto simp: timer_inv_def nth_list_update)
  ultimately show ?thesis using len by (simp add: timer_inv_def)
qed

lemma inv_delete:
  assumes inv: "timer_inv w" and u: "slot_used w i"
  shows "timer_inv (w\<lparr>slots := (slots w)[i := (slots w ! i)\<lparr>tm_flag := 0\<rparr>],
                      ktimers := (ktimers w)(slot_tid w i := None)\<rparr>)"
proof -
  let ?w = "w\<lparr>slots := (slots w)[i := (slots w ! i)\<lparr>tm_flag := 0\<rparr>],
              ktimers := (ktimers w)(slot_tid w i := None)\<rparr>"
  have len: "length (slots w) = MAX_TIMER_NUM" using inv by (simp add: timer_inv_def)
  have i: "i < MAX_TIMER_NUM" using u by (simp add: slot_used_def)
  have used: "slot_used ?w j \<longleftrightarrow> j \<noteq> i \<and> slot_used w j" for j
    using i len by (auto simp: slot_used_def nth_list_update)
  have tid: "slot_tid ?w j = slot_tid w j" for j
    using i len by (cases "j = i") (simp_all add: slot_tid_def)
  have "slot_live ?w j" if "slot_used ?w j" for j
  proof -
    have "slot_live w j" "slot_tid w j \<noteq> slot_tid w i"
      using that used u inv by (auto simp: timer_inv_def)
    then show ?thesis using that used
      by (auto simp: slot_live_def slot_tid_def nth_list_update split: option.splits)
  qed
  moreover have "\<forall>j < MAX_TIMER_NUM. tm_flag (slots ?w ! j) \<in> {0, 1}"
    using inv i len by (auto simp: timer_inv_def nth_list_update)
  ultimately show ?thesis using inv len by (auto simp: timer_inv_def used tid)
qed

lemma inv_rearm:
  assumes "timer_inv w" "ktimers w tid = Some t" "kt_func t' = kt_func t" "kt_arg t' = kt_arg t"
  shows "timer_inv (w\<lparr>ktimers := (ktimers w)(tid \<mapsto> t')\<rparr>)"
  using assms
  by (auto simp: timer_inv_def slot_used_def slot_live_def slot_tid_def split: option.splits)

section \<open>Every call keeps it\<close>

lemma inv_delta:
  assumes "timer_inv w" "created_ok created w"
  shows "timer_inv (snd (TM_NewDeltaTimer mode sec f a created w))"
  using assms find_free_slot [OF assms(1)]
  by (auto simp: TM_NewDeltaTimer_def timer_create_def timer_settime_def created_ok_def Let_def
      split: option.splits intro!: inv_leak inv_install)

lemma inv_abs:
  assumes "timer_inv w" "created_ok created w" "TM_NewAbsTimer u preTime gmtoff created w = Inr (r, w')"
  shows "timer_inv w'"
  using assms find_free_slot [OF assms(1)]
  by (auto simp: TM_NewAbsTimer_def timer_create_def timer_settime_def created_ok_def Let_def cbind_Inr_iff
      split: option.splits if_splits intro!: inv_leak inv_install)

lemma inv_del:
  assumes "timer_inv w" "call_ok (Call_Delete idx) w"
  shows "timer_inv (snd (TM_Delete idx w))"
proof (cases "idx < 0 \<or> int MAX_TIMER_NUM \<le> idx")
  case True
  then show ?thesis using assms by (simp add: TM_Delete_def)
next
  case False
  then have u: "slot_used w (nat idx)" using assms(2) by auto
  then have "slot_live w (nat idx)" using assms(1) by (simp add: timer_inv_def)
  then have "ktimers w (slot_tid w (nat idx)) \<noteq> None" by (auto simp: slot_live_def split: option.splits)
  then show ?thesis using False inv_delete [OF assms(1) u]
    by (auto simp: TM_Delete_def timer_delete_def slot_tid_def Let_def)
qed

lemma inv_reset:
  assumes "timer_inv w"
  shows "timer_inv (snd (TM_Reset idx w))"
  using assms
  by (auto simp: TM_Reset_def timer_settime_def Let_def split: option.splits intro!: inv_rearm)

lemma timer_inv_step:
  assumes "timer_inv w" "call_ok c w" "timer_step gmtoff c w = Inr (r, w')"
  shows "timer_inv w'"
proof (cases c)
  case (Call_Delta mode sec f a created)
  then show ?thesis using assms inv_delta [of w created mode sec f a] by simp
next
  case (Call_Abs u preTime created)
  then show ?thesis using assms inv_abs [of w created u preTime gmtoff r w'] by simp
next
  case (Call_Delete idx)
  then show ?thesis using assms inv_del [of w idx] by simp
next
  case (Call_Reset idx)
  then show ?thesis using assms inv_reset [of w idx] by simp
qed

lemma timer_reach_inv: "timer_reach gmtoff w \<Longrightarrow> timer_inv w"
  by (induction rule: timer_reach.induct) (auto intro: inv_world0 timer_inv_step)

section \<open>What the calls promise\<close>

definition demo_timers :: timer_world where
  "demo_timers = snd (TM_NewDeltaTimer TIMER_INTERVAL 5 7 9 (Some 4) timer_world0)"

lemma reach_delta:
  assumes "timer_reach g w" "created_ok created w"
  shows "timer_reach g (snd (TM_NewDeltaTimer mode sec f a created w))"
  by (rule reach_step [OF assms(1), where c = "Call_Delta mode sec f a created" and r = "fst (TM_NewDeltaTimer mode sec f a created w)"]) (simp_all add: assms)

lemma reach_delete:
  assumes "timer_reach g w" "slot_used w (nat idx)"
  shows "timer_reach g (snd (TM_Delete idx w))"
  by (rule reach_step [OF assms(1), where c = "Call_Delete idx" and r = "fst (TM_Delete idx w)"]) (simp_all add: assms)

lemma demo_reach: "timer_reach g demo_timers"
  unfolding demo_timers_def by (rule reach_delta [OF reach_init]) code_simp

lemma demo_used: "slot_used demo_timers 0 \<and> slot_tid demo_timers 0 = 4"
  by code_simp

text \<open>
  C10: the table and the kernel agree. After any sequence of calls in which the kernel returns fresh
  identifiers that fit an \<^verbatim>\<open>int\<close> and the client touches only slots in use, every slot in use holds a
  live timer of the kernel with the callback and the argument of the slot, and no other slot in use
  holds the same timer.
\<close>

theorem timer_table_agrees:
  assumes "timer_reach gmtoff w" "slot_used w i"
  shows "(case ktimers w (slot_tid w i) of None \<Rightarrow> False
          | Some t \<Rightarrow> kt_func t = TimeoutFunc (slots w ! i) \<and> kt_arg t = timer_args (slots w ! i)) \<and>
         (\<forall>j. slot_used w j \<and> slot_tid w j = slot_tid w i \<longrightarrow> j = i)"
  using timer_reach_inv [OF assms(1)] assms(2) unfolding timer_inv_def slot_live_def by blast

theorem timer_table_agrees_witness:
  "case ktimers demo_timers 4 of None \<Rightarrow> False
   | Some t \<Rightarrow> kt_func t = TimeoutFunc (slots demo_timers ! 0) \<and> kt_arg t = timer_args (slots demo_timers ! 0)"
  using timer_table_agrees [OF demo_reach, of 0] demo_used by simp

text \<open>Two timers are set, both are deleted, and a third one gets the identifier of the second.\<close>

definition trace2 :: timer_world where
  "trace2 = snd (TM_NewDeltaTimer TIMER_INTERVAL 5 7 1 (Some 8)
                  (snd (TM_NewDeltaTimer TIMER_INTERVAL 5 7 0 (Some 4) timer_world0)))"

definition trace5 :: timer_world where
  "trace5 = snd (TM_NewDeltaTimer TIMER_INTERVAL 5 7 2 (Some 8) (snd (TM_Delete 0 (snd (TM_Delete 1 trace2)))))"

lemma trace5_reach: "timer_reach g trace5"
proof -
  have "timer_reach g trace2"
    unfolding trace2_def
  proof (rule reach_delta [OF reach_delta [OF reach_init]])
    show "created_ok (Some 4) timer_world0" by code_simp
    show "created_ok (Some 8) (snd (TM_NewDeltaTimer TIMER_INTERVAL 5 7 0 (Some 4) timer_world0))"
      by code_simp
  qed
  then show ?thesis
    unfolding trace5_def
  proof (rule reach_delta [OF reach_delete [OF reach_delete]])
    show "slot_used trace2 (nat 1)" by code_simp
    show "slot_used (snd (TM_Delete 1 trace2)) (nat 0)" by code_simp
    show "created_ok (Some 8) (snd (TM_Delete 0 (snd (TM_Delete 1 trace2))))" by code_simp
  qed
qed

lemma trace5_state:
  "tm_flag (slots trace5 ! 1) = 0 \<and> slot_used trace5 0 \<and> slot_live trace5 0 \<and>
   fst (TM_Delete 1 trace5) = 0 \<and> slot_used (snd (TM_Delete 1 trace5)) 0 \<and>
   \<not> slot_live (snd (TM_Delete 1 trace5)) 0"
  by code_simp

text \<open>
  \<^verbatim>\<open>TM_Delete\<close> does not look at the flag of the slot. There is a state that disciplined calls
  reach in which deleting an idle slot a second time reports success and deletes the timer of
  another slot, which stays marked as in use without a timer.
\<close>

lemma timer_double_delete:
  "\<exists>w i j. timer_reach gmtoff w \<and> tm_flag (slots w ! nat i) = 0 \<and> slot_used w j \<and> slot_live w j \<and>
     fst (TM_Delete i w) = 0 \<and> slot_used (snd (TM_Delete i w)) j \<and> \<not> slot_live (snd (TM_Delete i w)) j"
  using trace5_reach [of gmtoff] trace5_state by (intro exI [of _ trace5] exI [of _ 1] exI [of _ 0]) simp

section \<open>Modes\<close>

text \<open>
  \<^verbatim>\<open>TM_NewDeltaTimer\<close> does not record the mode it is given. The kernel's timer repeats as
  asked, but \<^verbatim>\<open>TM_Reset\<close> on the new slot goes by the mode an earlier tenant left there: where that
  is 0, as in every slot never used before, it rearms the timer as a one-shot, also a repeating one.
\<close>

lemma timer_reset_mode:
  assumes "find_free (slots w) < MAX_TIMER_NUM" "length (slots w) = MAX_TIMER_NUM" "0 \<le> sec"
    and "int_to_tid (tid_to_int tid) = tid"
  shows "case TM_NewDeltaTimer mode sec f a (Some tid) w of (i, w1) \<Rightarrow>
           i = int (find_free (slots w)) \<and>
           map_option kt_interval (ktimers w1 tid) = Some (if mode = TIMER_INTERVAL then sec else 0) \<and>
           (case TM_Reset i w1 of (r, w2) \<Rightarrow>
              r = 0 \<and> map_option kt_value (ktimers w2 tid) = Some sec \<and>
              map_option kt_interval (ktimers w2 tid) =
                Some (if timerMode (slots w ! nat i) = TIMER_ONCE then 0
                      else if mode = TIMER_INTERVAL then sec else 0))"
  using assms
  by (simp add: TM_NewDeltaTimer_def TM_Reset_def timer_create_def timer_settime_def Let_def)

lemma timer_reset_mode_witness:
  "case TM_NewDeltaTimer TIMER_INTERVAL 60 7 9 (Some 4) timer_world0 of (i, w1) \<Rightarrow>
     i = 0 \<and> map_option kt_interval (ktimers w1 4) = Some 60 \<and>
     (case TM_Reset i w1 of (r, w2) \<Rightarrow>
        r = 0 \<and> map_option kt_value (ktimers w2 4) = Some 60 \<and> map_option kt_interval (ktimers w2 4) = Some 0)"
proof -
  have a: "find_free (slots timer_world0) = 0" "length (slots timer_world0) = MAX_TIMER_NUM"
    "timerMode (slots timer_world0 ! nat 0) = TIMER_ONCE" "(0::nat) < MAX_TIMER_NUM"
    by code_simp+
  show ?thesis
    using timer_reset_mode [of timer_world0 60 4 TIMER_INTERVAL 7 9] a
    by (auto simp: int_to_tid_def tid_to_int_def)
qed

section \<open>Time stamps and dates\<close>

text \<open>The time stamp that \<^verbatim>\<open>sprintf ("%04d%02d%02d%02d%02d%02d")\<close> writes.\<close>

definition stamp_digit :: "nat \<Rightarrow> char" where
  "stamp_digit n = ''0123456789'' ! (n mod 10)"

definition two_digits :: "nat \<Rightarrow> string" where
  "two_digits n = [stamp_digit (n div 10), stamp_digit n]"

definition time_stamp :: "nat \<Rightarrow> nat \<Rightarrow> nat \<Rightarrow> nat \<Rightarrow> nat \<Rightarrow> nat \<Rightarrow> string" where
  "time_stamp y mo d h mi s =
     two_digits (y div 100) @ two_digits y @ two_digits mo @ two_digits d @
     two_digits h @ two_digits mi @ two_digits s"

definition month_length :: "nat \<Rightarrow> nat" where
  "month_length mo = (if mo = 2 then 29 else if mo \<in> {4, 6, 9, 11} then 30 else 31)"

lemma char_int_stamp: "char_int (stamp_digit n) = 48 + int (n mod 10)"
proof -
  have "n mod 10 = 0 \<or> n mod 10 = 1 \<or> n mod 10 = 2 \<or> n mod 10 = 3 \<or> n mod 10 = 4 \<or>
        n mod 10 = 5 \<or> n mod 10 = 6 \<or> n mod 10 = 7 \<or> n mod 10 = 8 \<or> n mod 10 = 9" by presburger
  then show ?thesis by (elim disjE) (simp_all add: char_int_def stamp_digit_def)
qed

lemma two_digit_value: "int (n div 10) * 10 + int (n mod 10) = int n"
proof -
  have "int (n div 10 * 10 + n mod 10) = int n" by (simp only: div_mult_mod_eq)
  then show ?thesis by (simp only: of_nat_add of_nat_mult of_nat_numeral)
qed

lemma combine_digits:
  fixes x :: int
  assumes "x * 10 + p = u" "u * 10 + q = v" "v * 10 + r = w"
  shows "x * 1000 + p * 100 + q * 10 + r = w"
  using assms by simp

lemma four_digit_value:
  "int (y div 100 div 10) * 1000 + int (y div 100 mod 10) * 100 + int (y div 10 mod 10) * 10 + int (y mod 10) = int y"
proof (rule combine_digits)
  show "int (y div 100) * 10 + int (y div 10 mod 10) = int (y div 10)"
    using two_digit_value [of "y div 10"] by (simp only: div_mult2_eq [symmetric]) simp
qed (rule two_digit_value)+

lemma tm_fields_stamp:
  assumes "y < 10000" "mo < 100" "d < 100" "h < 100" "mi < 100" "s < 100"
  shows "tm_fields (time_stamp y mo d h mi s) =
    \<lparr>tm_year = int y, tm_mon = int mo, tm_mday = int d, tm_hour = int h, tm_min = int mi, tm_sec = int s\<rparr>"
  using assms
  by (simp add: tm_fields_def digit_at_def time_stamp_def two_digits_def char_int_stamp two_digit_value
      four_digit_value)

lemma month_fix_length:
  assumes "1 \<le> mo" "mo < 13"
  shows "29 + s_iMonthFix ! nat (int mo - 1) = int (month_length mo)"
proof -
  have "mo = 1 \<or> mo = 2 \<or> mo = 3 \<or> mo = 4 \<or> mo = 5 \<or> mo = 6 \<or> mo = 7 \<or> mo = 8 \<or> mo = 9 \<or>
        mo = 10 \<or> mo = 11 \<or> mo = 12" using assms by presburger
  then show ?thesis by (elim disjE) (simp_all add: s_iMonthFix_def month_length_def)
qed

lemma tm_valid_stamp:
  "tm_valid \<lparr>tm_year = int y, tm_mon = int mo, tm_mday = int d, tm_hour = int h, tm_min = int mi, tm_sec = int s\<rparr> =
     (if \<not> (1900 \<le> y \<and> y < 2036 \<and> mo < 13) then Inr False
      else if mo = 0 then Inl Out_Of_Bounds
      else Inr (d \<le> month_length mo \<and> h < 24 \<and> mi < 60 \<and> s < 60))"
  by (cases "1 \<le> mo \<and> mo < 13") (auto simp: tm_valid_def month_fix_length)

text \<open>
  on the time stamp of a date, \<^verbatim>\<open>_digit2time\<close> decides by the calendar: the years 1900 to 2035,
  the days of the month, 29 for February in every year, and the time of day. Month 0 in such a year
  reads the table before its first entry; day 0 passes.
\<close>

lemma digit2time_calendar:
  assumes "y < 10000" "mo < 100" "d < 100" "h < 100" "mi < 100" "s < 100"
  shows "digit2time (Some (time_stamp y mo d h mi s)) 14 =
    (if 1900 \<le> y \<and> y < 2036 \<and> mo = 0 then Inl Out_Of_Bounds
     else if 1900 \<le> y \<and> y < 2036 \<and> mo < 13 \<and> d \<le> month_length mo \<and> h < 24 \<and> mi < 60 \<and> s < 60
     then Inr (0, \<lparr>tm_year = int y - 1900, tm_mon = int mo - 1, tm_mday = int d,
                   tm_hour = int h, tm_min = int mi, tm_sec = int s\<rparr>)
     else Inr (-2, \<lparr>tm_year = int y, tm_mon = int mo, tm_mday = int d,
                    tm_hour = int h, tm_min = int mi, tm_sec = int s\<rparr>))"
proof -
  have "length (time_stamp y mo d h mi s) = 14" by (simp add: time_stamp_def two_digits_def)
  then show ?thesis
    by (simp add: digit2time_def tm_fields_stamp [OF assms] tm_valid_stamp Let_def)
qed

lemma digit2time_calendar_witness:
  "digit2time (Some (time_stamp 2017 2 29 17 14 11)) 14 =
     Inr (0, \<lparr>tm_year = 117, tm_mon = 1, tm_mday = 29, tm_hour = 17, tm_min = 14, tm_sec = 11\<rparr>) \<and>
   digit2time (Some (time_stamp 2017 0 1 0 0 0)) 14 = Inl Out_Of_Bounds"
  using digit2time_calendar [of 2017 2 29 17 14 11] digit2time_calendar [of 2017 0 1 0 0 0]
  by (simp add: month_length_def)

lemma wrap_int_eq: "wrap_int x = (x + 2 ^ 31) mod 2 ^ 32 - 2 ^ 31"
  by (simp add: wrap_int_def sint_uint uint_word_of_int signed_take_bit_eq_take_bit_shift take_bit_eq_mod
      mod_add_left_eq)

lemma wrap_int_small: "- (2 ^ 31) \<le> x \<Longrightarrow> x < 2 ^ 31 \<Longrightarrow> wrap_int x = x"
  by (simp add: wrap_int_eq)

lemma wrap_int_low: "- (2 ^ 31) - 2 ^ 32 \<le> x \<Longrightarrow> x < - (2 ^ 31) \<Longrightarrow> wrap_int x = x + 2 ^ 32"
proof -
  assume "- (2 ^ 31) - 2 ^ 32 \<le> x" "x < - (2 ^ 31)"
  then have "(x + 2 ^ 32 + 2 ^ 31) mod 2 ^ 32 = x + 2 ^ 32 + 2 ^ 31" by simp
  moreover have "x + 2 ^ 32 + 2 ^ 31 = x + 2 ^ 31 + 2 ^ 32" by simp
  ultimately show ?thesis unfolding wrap_int_eq by (metis add_diff_cancel_right' mod_add_self2)
qed

lemma slot_filled:
  "s\<lparr>timerMode := m, ChkTimeStr := c, TimeoutFunc := f, timer_args := a, TimeoutSec := e, timerId := x, tm_flag := 1\<rparr> =
   \<lparr>tm_flag = 1, timerId = x, timerMode = m, ChkTimeStr = c, TimeoutSec = e, TimeoutFunc = f, timer_args = a\<rparr>"
  by (cases s) simp

text \<open>
  \<^verbatim>\<open>TM_NewAbsTimer\<close> counts down the seconds from now to the date as an \<^verbatim>\<open>int\<close>. A difference that fits
  arms the timer with exactly it, and is refused when it is not positive. One below the smallest
  \<^verbatim>\<open>int\<close>, a date far enough in the past, wraps around by 2 to the power of 32, and arms the timer when
  that is positive.
\<close>

lemma abs_timer_countdown:
  assumes "find_free (slots w) < MAX_TIMER_NUM" "length (slots w) = MAX_TIMER_NUM"
    and "digit2time (Some (usr_time u)) (int (length (usr_time u))) = Inr (0, t)"
    and "c_mktime gmtoff t - preTime = d" "- (2 ^ 31) - 2 ^ 32 \<le> d" "d < 2 ^ 31"
  shows "TM_NewAbsTimer u preTime gmtoff (Some tid) w =
    (let e = (if d < - (2 ^ 31) then d + 2 ^ 32 else d); i = find_free (slots w) in
     if e \<le> 0 then Inr (-3, w)
     else Inr (int i,
       w\<lparr>slots := (slots w)[i := \<lparr>tm_flag = 1, timerId = tid_to_int tid, timerMode = usr_mode u,
                              ChkTimeStr = usr_time u, TimeoutSec = e, TimeoutFunc = usr_func u,
                              timer_args = usr_args u\<rparr>],
         ktimers := (ktimers w)(tid \<mapsto> \<lparr>kt_func = usr_func u, kt_arg = usr_args u, kt_value = e, kt_nsec = 0,
                                       kt_interval = if usr_mode u = TIMER_INTERVAL then 3600 else 0\<rparr>)\<rparr>))"
proof -
  have "length (usr_time u) < 32"
    using assms(3) by (auto simp: digit2time_def split: if_splits)
  moreover have "wrap_int d = (if d < - (2 ^ 31) then d + 2 ^ 32 else d)"
    using assms(5,6) by (simp add: wrap_int_low wrap_int_small)
  ultimately show ?thesis
    using assms(1-4)
    by (simp add: slot_filled TM_NewAbsTimer_def timer_create_def timer_settime_def Let_def)
qed

lemma abs_timer_countdown_witness:
  "TM_NewAbsTimer \<lparr>usr_mode = TIMER_ONCE, usr_time = ''20170209171411'', usr_func = 7, usr_args = 9\<rparr>
     1486656000 28800 (Some 4) timer_world0 = Inr (-3, timer_world0)"
proof -
  let ?u = "\<lparr>usr_mode = TIMER_ONCE, usr_time = ''20170209171411'', usr_func = 7, usr_args = 9\<rparr>"
  let ?t = "\<lparr>tm_year = 117, tm_mon = 1, tm_mday = 9, tm_hour = 17, tm_min = 14, tm_sec = 11\<rparr>"
  have "find_free (slots timer_world0) < MAX_TIMER_NUM" "length (slots timer_world0) = MAX_TIMER_NUM"
    "digit2time (Some (usr_time ?u)) (int (length (usr_time ?u))) = Inr (0, ?t)"
    "c_mktime 28800 ?t - 1486656000 = -24349"
    by code_simp+
  then show ?thesis using abs_timer_countdown [of timer_world0 ?u ?t 28800 1486656000 "-24349" 4] by simp
qed

text \<open>
  the first second of 1900 is accepted at every time from 1970 to 2036: the call reports a slot
  and arms a timer that runs for years, where a date that has passed is to be refused.
\<close>

lemma abs_timer_accepts_1900:
  assumes "0 \<le> preTime" "preTime < 2085978496"
  shows "case TM_NewAbsTimer \<lparr>usr_mode = mode, usr_time = time_stamp 1900 1 1 0 0 0, usr_func = f, usr_args = a\<rparr>
             preTime 0 (Some tid) timer_world0 of
           Inl e \<Rightarrow> False
         | Inr (r, w) \<Rightarrow> r = 0 \<and> map_option kt_value (ktimers w tid) = Some (2085978496 - preTime)"
proof -
  let ?t = "\<lparr>tm_year = 0, tm_mon = 0, tm_mday = 1, tm_hour = 0, tm_min = 0, tm_sec = 0\<rparr>"
  have s: "find_free (slots timer_world0) = 0" "(0::nat) < MAX_TIMER_NUM"
    "digit2time (Some (time_stamp 1900 1 1 0 0 0)) (int (length (time_stamp 1900 1 1 0 0 0))) = Inr (0, ?t)"
    "c_mktime 0 ?t = -2208988800" "length (time_stamp 1900 1 1 0 0 0) = 14"
    by code_simp+
  have "wrap_int (-2208988800 - preTime) = 2085978496 - preTime"
    using assms wrap_int_low [of "-2208988800 - preTime"] by simp
  then show ?thesis using s assms
    by (simp add: TM_NewAbsTimer_def timer_create_def timer_settime_def Let_def)
qed

lemma abs_timer_accepts_1900_witness:
  "case TM_NewAbsTimer \<lparr>usr_mode = TIMER_ONCE, usr_time = time_stamp 1900 1 1 0 0 0, usr_func = 7, usr_args = 9\<rparr>
       1500000000 0 (Some 4) timer_world0 of
     Inl e \<Rightarrow> False
   | Inr (r, w) \<Rightarrow> r = 0 \<and> map_option kt_value (ktimers w 4) = Some (2085978496 - 1500000000)"
  using abs_timer_accepts_1900 [where preTime = 1500000000 and mode = TIMER_ONCE and f = 7 and a = 9 and tid = 4] by (simp only:)

end
