(* ===== verification/Net.thy ===== *)
theory Net
  imports Cvos_Prelude "HOL-Library.Signed_Division"
begin

text \<open>
  \<^verbatim>\<open>netsock.c\<close>: opening, binding and closing sockets over a descriptor table, and the loops that send
  and receive. What the kernel answers is an argument: the result of a call, or the list of the
  results of the calls a loop makes. An option whose result the code ignores is set when the kernel says so.
\<close>

section \<open>Descriptors\<close>

datatype sock_stage = Fresh | Bound | Listening | Connected

record sock =
  sk_stream :: bool
  sk_stage :: sock_stage
  sk_port :: u16
  sk_addr :: u32
  sk_rcvtimeo :: "int \<times> int"
  sk_sndtimeo :: "int \<times> int"
  sk_rcvbuf :: int
  sk_sndbuf :: int
  sk_reuse :: bool

type_synonym net = "int \<Rightarrow> sock option"

definition fresh_sock :: "bool \<Rightarrow> sock" where
  "fresh_sock stream = \<lparr>sk_stream = stream, sk_stage = Fresh, sk_port = 0, sk_addr = 0, sk_rcvtimeo = (0, 0),
     sk_sndtimeo = (0, 0), sk_rcvbuf = 0, sk_sndbuf = 0, sk_reuse = False\<rparr>"

definition with_sock :: "int \<Rightarrow> (sock \<Rightarrow> sock) \<Rightarrow> net \<Rightarrow> net" where
  "with_sock fd f n = n(fd := map_option f (n fd))"

text \<open>\<^verbatim>\<open>socket ()\<close> answers \<open>fd\<close>, or a negative number when it fails.\<close>

definition open_sock :: "int \<Rightarrow> bool \<Rightarrow> net \<Rightarrow> net" where
  "open_sock fd stream n = (if fd < 0 then n else n(fd \<mapsto> fresh_sock stream))"

definition NET_OpenSock :: "string \<Rightarrow> int \<Rightarrow> net \<Rightarrow> int \<times> net" where
  "NET_OpenSock SockType fd n = (fd, open_sock fd (SockType = ''TCP'') n)"

definition NET_CloseSock :: "int \<Rightarrow> int \<Rightarrow> net \<Rightarrow> int \<times> net" where
  "NET_CloseSock Sockfd shutdown_rc n =
     (if 0 \<le> Sockfd then (shutdown_rc, n(Sockfd := None)) else (0, n))"

section \<open>Options\<close>

text \<open>Milliseconds as seconds and microseconds; the division of C rounds towards zero.\<close>

definition ms_timeval :: "int \<Rightarrow> int \<times> int" where
  "ms_timeval t = (t sdiv 1000, (t smod 1000) * 1000)"

text \<open>The four results stand for the four calls of \<^verbatim>\<open>setsockopt\<close>; the first failure ends the sequence.\<close>

definition NET_OptSet ::
  "int \<Rightarrow> int \<Rightarrow> 32 word \<Rightarrow> int \<times> int \<times> int \<times> int \<Rightarrow> net \<Rightarrow> int \<times> net" where
  "NET_OptSet fd timeout bufsize rcs n =
     (let (r1, r2, r3, r4) = rcs; size = sint (push_bit 10 bufsize) in
      if r1 \<noteq> 0 then (-2, n)
      else let n1 = with_sock fd (\<lambda>s. s\<lparr>sk_rcvtimeo := (timeout, 0)\<rparr>) n in
        if r2 \<noteq> 0 then (-3, n1)
        else let n2 = with_sock fd (\<lambda>s. s\<lparr>sk_sndtimeo := (timeout, 0)\<rparr>) n1 in
          if r3 \<noteq> 0 then (-4, n2)
          else let n3 = with_sock fd (\<lambda>s. s\<lparr>sk_rcvbuf := size\<rparr>) n2 in
            if r4 \<noteq> 0 then (-5, n3)
            else (0, with_sock fd (\<lambda>s. s\<lparr>sk_sndbuf := size\<rparr>) n3))"

text \<open>
  The options of the server sockets, set without a look at the results \<open>set_ok\<close> of \<^verbatim>\<open>setsockopt\<close>: those of the two
  buffers, of the two times and of \<^verbatim>\<open>SO_REUSEADDR\<close>.
\<close>

record set_ok =
  ok_sndbuf :: bool
  ok_rcvbuf :: bool
  ok_rcvtimeo :: bool
  ok_sndtimeo :: bool
  ok_reuse :: bool

definition svr_options :: "set_ok \<Rightarrow> int \<times> int \<Rightarrow> sock \<Rightarrow> sock" where
  "svr_options oks tv s =
     s\<lparr>sk_sndbuf := (if ok_sndbuf oks then 512 * 1024 else sk_sndbuf s),
       sk_rcvbuf := (if ok_rcvbuf oks then 512 * 1024 else sk_rcvbuf s),
       sk_rcvtimeo := (if ok_rcvtimeo oks then tv else sk_rcvtimeo s),
       sk_sndtimeo := (if ok_sndtimeo oks then tv else sk_sndtimeo s)\<rparr>"

definition reuse_option :: "set_ok \<Rightarrow> sock \<Rightarrow> sock" where
  "reuse_option oks s = s\<lparr>sk_reuse := sk_reuse s \<or> ok_reuse oks\<rparr>"

section \<open>Addresses and connections\<close>

text \<open>
  \<open>inet_addr\<close> is the function of the C library. The port is cut to 16 bits by \<^verbatim>\<open>htons\<close>.
\<close>

definition NET_PortBind ::
  "(string \<Rightarrow> u32) \<Rightarrow> int \<Rightarrow> int \<Rightarrow> string option \<Rightarrow> int \<times> int \<times> int \<Rightarrow> net \<Rightarrow> int \<times> net" where
  "NET_PortBind inet_addr fd port ip rcs n =
     (let (r_opt, r_bind, r_listen) = rcs in
      if port < 1 then (-1, n)
      else if r_opt < 0 then (-2, n)
      else
        let n1 = with_sock fd (\<lambda>s. s\<lparr>sk_reuse := True\<rparr>) n;
            a = (case ip of None \<Rightarrow> 0 | Some t \<Rightarrow> inet_addr t) in
        if r_bind \<noteq> 0 then (-10, n1)
        else
          let n2 = with_sock fd (\<lambda>s. s\<lparr>sk_stage := Bound, sk_port := word_of_int port, sk_addr := a\<rparr>) n1 in
          if r_listen \<noteq> 0 then (-11, n2)
          else (0, with_sock fd (\<lambda>s. s\<lparr>sk_stage := Listening\<rparr>) n2))"

text \<open>
  The two buffers are byte lists. \<^verbatim>\<open>len\<close> is compared with \<^verbatim>\<open>sizeof (struct sockaddr_in)\<close> and passed to
  \<^verbatim>\<open>memset\<close> as an unsigned 64-bit number. \<open>la\<close> and \<open>ra\<close> are the addresses the kernel writes.
\<close>

definition clear_buf :: "u8 list \<Rightarrow> u64 \<Rightarrow> u8 list cres" where
  "clear_buf buf n = (if length buf < unat n then Inl Out_Of_Bounds
                      else Inr (replicate (unat n) 0 @ drop (unat n) buf))"

definition NET_GetAddr ::
  "u8 list option \<Rightarrow> u8 list option \<Rightarrow> 32 word \<Rightarrow> int \<times> u8 list \<Rightarrow> int \<times> u8 list \<Rightarrow>
   (int \<times> u8 list option \<times> u8 list option) cres" where
  "NET_GetAddr LocalAddr RemoteAddr len answer1 answer2 =
     (case LocalAddr of None \<Rightarrow> Inr (-1, LocalAddr, RemoteAddr) | Some lb \<Rightarrow>
      case RemoteAddr of None \<Rightarrow> Inr (-1, LocalAddr, RemoteAddr) | Some rb \<Rightarrow>
      let size = (scast len :: u64); (r1, la) = answer1; (r2, ra) = answer2 in
      if size < 16 then Inr (-1, LocalAddr, RemoteAddr)
      else cbind (clear_buf lb size) (\<lambda>lb1. cbind (clear_buf rb size) (\<lambda>rb1.
        if r1 \<noteq> 0 then Inr (-10, Some lb1, Some rb1)
        else cbind (buf_write lb1 0 la) (\<lambda>lb2.
          if r2 \<noteq> 0 then Inr (-11, Some lb2, Some rb1)
          else cbind (buf_write rb1 0 ra) (\<lambda>rb2. Inr (0, Some lb2, Some rb2))))))"

definition NET_Connect ::
  "(string \<Rightarrow> u32) \<Rightarrow> int \<Rightarrow> string option \<Rightarrow> int \<Rightarrow> int \<Rightarrow> net \<Rightarrow> int \<times> net" where
  "NET_Connect inet_addr fd ip port r n =
     (case ip of
        None \<Rightarrow> (-1, n)
      | Some t \<Rightarrow>
          if port < 1 then (-2, n)
          else if r \<noteq> 0 then (-10, n)
          else (0, with_sock fd (\<lambda>s. s\<lparr>sk_stage := Connected, sk_port := word_of_int port,
                                      sk_addr := inet_addr t\<rparr>) n))"

text \<open>
  The result codes of the failing branches are assigned to \<^verbatim>\<open>ret\<close>, but the function returns the
  descriptor. \<open>fd\<close>, \<open>r_bind\<close> and \<open>r_listen\<close> are the answers of \<^verbatim>\<open>socket\<close>, \<^verbatim>\<open>bind\<close> and \<^verbatim>\<open>listen\<close>.
\<close>

definition NET_Ser_Bind :: "u16 \<Rightarrow> int \<Rightarrow> int \<Rightarrow> set_ok \<Rightarrow> int \<Rightarrow> int \<Rightarrow> net \<Rightarrow> int \<times> net" where
  "NET_Ser_Bind port timeout_ms fd oks r_bind r_listen n =
     (if fd < 0 then (fd, n)
      else
        let n1 = with_sock fd (reuse_option oks) (open_sock fd True n) in
        if r_bind < 0 then (fd, snd (NET_CloseSock fd 0 n1))
        else
          let n2 = with_sock fd (\<lambda>s. s\<lparr>sk_stage := Bound, sk_port := port\<rparr>) n1 in
          if r_listen < 0 then (fd, snd (NET_CloseSock fd 0 n2))
          else (fd, with_sock fd (\<lambda>s. svr_options oks (ms_timeval timeout_ms) (s\<lparr>sk_stage := Listening\<rparr>)) n2))"

text \<open>\<open>sel\<close> is the result of \<^verbatim>\<open>select\<close>, \<open>isset\<close> that of \<^verbatim>\<open>FD_ISSET\<close>, \<open>new_fd\<close> that of \<^verbatim>\<open>accept\<close>.\<close>

definition NET_Ser_Accept :: "int \<Rightarrow> int \<Rightarrow> bool \<Rightarrow> int \<Rightarrow> set_ok \<Rightarrow> net \<Rightarrow> int \<times> net" where
  "NET_Ser_Accept timeout sel isset new_fd oks n =
     (if sel \<le> 0 then (-2, n)
      else if \<not> isset then (-4, n)
      else if 0 \<le> new_fd then
        (new_fd, n(new_fd \<mapsto> reuse_option oks (svr_options oks (ms_timeval timeout)
                              ((fresh_sock True)\<lparr>sk_stage := Connected\<rparr>))))
      else (-5, n))"

definition NET_ConnTcpSvr ::
  "(string \<Rightarrow> u32) \<Rightarrow> string \<Rightarrow> int \<Rightarrow> int \<Rightarrow> int \<Rightarrow> set_ok \<Rightarrow> net \<Rightarrow> int \<times> net" where
  "NET_ConnTcpSvr inet_addr svr port fd r_conn oks n =
     (if fd = -1 then (-2, n)
      else
        let n1 = open_sock fd True n in
        if r_conn \<noteq> 0 then (-3, snd (NET_CloseSock fd 0 n1))
        else (fd, with_sock fd (\<lambda>s. svr_options oks (2, 800 * 1000) (reuse_option oks
                    (s\<lparr>sk_stage := Connected, sk_port := word_of_int port, sk_addr := inet_addr svr\<rparr>))) n1))"

text \<open>\<open>established\<close>: the kernel's state of the connection is \<^verbatim>\<open>TCP_ESTABLISHED\<close>.\<close>

definition NET_CheckTcpLink :: "int \<Rightarrow> bool \<Rightarrow> int" where
  "NET_CheckTcpLink r established = (if r = 0 then (if established then 1 else 0) else r)"

section \<open>Sending\<close>

text \<open>
  The list holds what the kernel answers to the calls of \<^verbatim>\<open>send\<close>: at most so many of the offered
  bytes are taken, 0 or less ends the loop, and so does the end of the list, an error. \<open>wire\<close> is
  what has been taken so far.
\<close>

fun send_loop :: "int list \<Rightarrow> u8 list \<Rightarrow> int \<Rightarrow> nat \<Rightarrow> u8 list \<Rightarrow> int \<times> nat \<times> u8 list \<times> u8 list" where
  "send_loop ks [] r cnt wire = (r, cnt, [], wire)"
| "send_loop [] (b # bs) r cnt wire = (-1, cnt, b # bs, wire)"
| "send_loop (k # ks) (b # bs) r cnt wire =
     (if k < 1 then (k, cnt, b # bs, wire)
      else let m = min (nat k) (length (b # bs))
           in send_loop ks (drop m (b # bs)) (int m) (cnt + m) (wire @ take m (b # bs)))"

definition NET_Send :: "u8 list option \<Rightarrow> int \<Rightarrow> int list \<Rightarrow> u8 list \<Rightarrow> (int \<times> u8 list) cres" where
  "NET_Send buf len ks wire =
     (case buf of
        None \<Rightarrow> Inr (-1, wire)
      | Some bs \<Rightarrow>
          if len < 1 then Inr (-1, wire)
          else if length bs < nat len then Inl Out_Of_Bounds
          else
            let (r, cnt, rest, wire') = send_loop ks (take (nat len) bs) 0 0 wire
            in Inr (if rest \<noteq> [] then int cnt else r, wire'))"

section \<open>Receiving\<close>

text \<open>
  What is to arrive is a list of pieces: \<^verbatim>\<open>recv\<close> takes from the first one at most what it is asked
  for and leaves the rest; \<open>None\<close> is an error, an empty piece the end of the
  stream, which stays, and so is the end of the list.
\<close>

type_synonym inbox = "u8 list option list"

fun sock_recv :: "inbox \<Rightarrow> nat \<Rightarrow> int \<times> u8 list \<times> inbox" where
  "sock_recv [] n = (0, [], [])"
| "sock_recv (None # ps) n = (-1, [], ps)"
| "sock_recv (Some p # ps) n =
     (int (length (take n p)), take n p,
      if p \<noteq> [] \<and> length p \<le> n then ps else Some (drop n p) # ps)"

function rev_loop :: "inbox \<Rightarrow> nat \<Rightarrow> u8 list \<Rightarrow> u8 list \<times> inbox" where
  "rev_loop ib n got =
     (if n = 0 then (got, ib)
      else case sock_recv ib n of (r, bs, ib') \<Rightarrow>
        if r < 1 then (got, ib') else rev_loop ib' (n - length bs) (got @ bs))"
  by pat_completeness auto

lemma sock_recv_length: "sock_recv ib n = (r, bs, ib') \<Longrightarrow> 1 \<le> r \<Longrightarrow> 0 < length bs \<and> length bs \<le> n"
  by (cases "(ib, n)" rule: sock_recv.cases) auto

termination rev_loop
  by (relation "measure (\<lambda>(ib, n, got). n)") (auto simp: not_less dest!: sock_recv_length [OF sym])

declare rev_loop.simps [simp del]

definition NET_Rev :: "u8 list option \<Rightarrow> int \<Rightarrow> inbox \<Rightarrow> (int \<times> u8 list option \<times> inbox) cres" where
  "NET_Rev buf len ib =
     (case buf of
        None \<Rightarrow> Inr (-1, None, ib)
      | Some b \<Rightarrow>
          if len < 1 then Inr (-2, Some b, ib)
          else if length b < nat len then Inl Out_Of_Bounds
          else let (got, ib') = rev_loop ib (nat len) []
               in Inr (int (length got), Some (got @ drop (length got) b), ib'))"

text \<open>
  Each element is one round of the loop of \<^verbatim>\<open>NET_RcvPoll\<close>, the result of \<^verbatim>\<open>select\<close> and \<^verbatim>\<open>FD_ISSET\<close>;
  \<open>None\<close> while it still waits after them.
\<close>

fun NET_RcvPoll :: "(int \<times> bool) list \<Rightarrow> int option" where
  "NET_RcvPoll [] = None"
| "NET_RcvPoll ((sel, isset) # rest) =
     (if sel = -1 then Some (-10)
      else if sel = 0 then Some 0
      else if isset then Some 1
      else NET_RcvPoll rest)"

text \<open>
  \<open>err0\<close> is the value of \<^verbatim>\<open>errno\<close> before the call; \<^verbatim>\<open>recv\<close> changes it only when it fails, to a value
  \<open>err1\<close>.
\<close>

definition NET_PollAndRev :: "int \<Rightarrow> bool \<Rightarrow> nat \<Rightarrow> int \<Rightarrow> int \<Rightarrow> inbox \<Rightarrow> int \<times> u8 list \<times> inbox" where
  "NET_PollAndRev sel isset len err0 err1 ib =
     (if 0 < sel then
        let (r, bs, ib') = (if isset then sock_recv ib len else (0, [], ib));
            err = (if r < 0 then err1 else err0);
            cnt = (if r < 0 \<and> err \<noteq> 0 then -10 else r)
        in (if sel = 1 \<and> cnt = 0 \<and> err \<noteq> 0 then -11 else cnt, bs, ib')
      else (0, [], ib))"

definition NET_SelectRev :: "int \<Rightarrow> bool \<Rightarrow> nat \<Rightarrow> inbox \<Rightarrow> int \<times> u8 list \<times> inbox" where
  "NET_SelectRev sel isset len ib =
     (if 0 < sel \<and> isset then sock_recv ib len else (sel, [], ib))"

end
