(* ===== verification/Net_Props.thy ===== *)
theory Net_Props
  imports Net
begin

text \<open>
  What the loops of \<^verbatim>\<open>netsock.c\<close> transfer and report, and which descriptors its functions return.
\<close>

section \<open>The loops\<close>

lemma send_loop_result:
  assumes "send_loop ks bs r0 cnt wire = (r, c, rest, wire')"
  shows "\<exists>sent. bs = sent @ rest \<and> wire' = wire @ sent \<and> c = cnt + length sent"
  using assms
proof (induction ks bs r0 cnt wire rule: send_loop.induct)
  case (3 k ks b bs r0 cnt wire)
  show ?case
  proof (cases "k < 1")
    case True
    then show ?thesis using 3(2) by simp
  next
    case False
    define m where "m = min (nat k) (length (b # bs))"
    have "send_loop ks (drop m (b # bs)) (int m) (cnt + m) (wire @ take m (b # bs)) = (r, c, rest, wire')"
      using 3(2) False by (simp add: m_def Let_def)
    then obtain sent where s: "drop m (b # bs) = sent @ rest" "wire' = (wire @ take m (b # bs)) @ sent"
      "c = cnt + m + length sent"
      using 3(1) [OF False m_def] by auto
    have "b # bs = take m (b # bs) @ drop m (b # bs)" by (simp only: append_take_drop_id)
    moreover have "length (take m (b # bs)) = m" by (simp add: m_def)
    ultimately show ?thesis using s
      by (intro exI [of _ "take m (b # bs) @ sent"]) (simp del: append_take_drop_id take_Suc_Cons)
  qed
qed simp_all

lemma send_loop_last:
  assumes "send_loop ks bs r0 cnt wire = (r, c, [], wire')" "bs \<noteq> []"
  shows "1 \<le> r \<and> r \<le> int (length bs) \<and> (r = int (length bs) \<longleftrightarrow> (\<exists>k ks'. ks = k # ks' \<and> int (length bs) \<le> k))"
  using assms
proof (induction ks bs r0 cnt wire rule: send_loop.induct)
  case (3 k ks b bs r0 cnt wire)
  define m where "m = min (nat k) (length (b # bs))"
  have k: "\<not> k < 1" using 3(2) by (auto split: if_splits)
  have run: "send_loop ks (drop m (b # bs)) (int m) (cnt + m) (wire @ take m (b # bs)) = (r, c, [], wire')"
    using 3(2) k by (simp add: m_def Let_def)
  show ?case
  proof (cases "int (length (b # bs)) \<le> k")
    case True
    then have "m = length (b # bs)" by (auto simp: m_def min_def)
    then show ?thesis using run True by simp
  next
    case False
    then have m: "m = nat k" "0 < m" "m < length (b # bs)" using k by (auto simp: m_def)
    then have "drop m (b # bs) \<noteq> []" by simp
    then have "1 \<le> r \<and> r \<le> int (length (drop m (b # bs)))"
      using 3(1) [OF k m_def run] by blast
    then show ?thesis using m False by auto
  qed
qed simp_all

lemma rev_loop_step:
  "0 < n \<Longrightarrow> p \<noteq> [] \<Longrightarrow> length p \<le> n \<Longrightarrow>
   rev_loop (Some p # ib) n got = rev_loop ib (n - length p) (got @ p)"
  by (subst rev_loop.simps) (simp add: not_less Suc_le_eq)

lemma rev_loop_pieces:
  "[] \<notin> set ps \<Longrightarrow> rev_loop (map Some ps @ ib) (length (concat ps)) got = (got @ concat ps, ib)"
proof (induction ps arbitrary: got)
  case Nil
  then show ?case by (simp add: rev_loop.simps)
next
  case (Cons p ps)
  then show ?case using rev_loop_step [of "length (concat (p # ps))" p "map Some ps @ ib" got]
    by (cases "p = []") simp_all
qed

section \<open>Transfer\<close>

text \<open>
  C11: what \<^verbatim>\<open>NET_Send\<close> puts on the wire is a prefix of the caller's bytes, whatever the kernel takes
  in each call; and when the wire arrives in pieces of any sizes, \<^verbatim>\<open>NET_Rev\<close> asked for so many bytes
  returns exactly them, leaving what follows to the next call.
\<close>

theorem net_transfer:
  assumes "NET_Send (Some bs) len ks [] = Inr (r, wire)" "wire \<noteq> []"
    and "concat ps = wire" "[] \<notin> set ps" "length wire \<le> length b"
  shows "wire = take (length wire) bs \<and>
    NET_Rev (Some b) (int (length wire)) (map Some ps @ ib) =
      Inr (int (length wire), Some (wire @ drop (length wire) b), ib)"
proof
  obtain r' c rest where s: "send_loop ks (take (nat len) bs) 0 0 [] = (r', c, rest, wire)"
    using assms(1,2) by (auto simp: NET_Send_def Let_def split: if_splits prod.splits)
  then obtain sent where "take (nat len) bs = wire @ rest"
    using send_loop_result [OF s] by auto
  then have "bs = wire @ rest @ drop (nat len) bs" by (metis append.assoc append_take_drop_id)
  then show "wire = take (length wire) bs" by (metis append_eq_conv_conj)
  have "rev_loop (map Some ps @ ib) (length wire) [] = (wire, ib)"
    using rev_loop_pieces [OF assms(4), of ib "[]"] assms(3) by simp
  moreover have "1 \<le> int (length wire)" using assms(2) by (cases wire) auto
  ultimately show "NET_Rev (Some b) (int (length wire)) (map Some ps @ ib) =
      Inr (int (length wire), Some (wire @ drop (length wire) b), ib)"
    using assms(2,5) by (simp add: NET_Rev_def)
qed

theorem net_transfer_witness:
  "NET_Rev (Some [0, 0, 0, 0]) 3 [Some [1], Some [2, 3], None] = Inr (3, Some [1, 2, 3, 0], [None])"
proof -
  have "NET_Send (Some [1, 2, 3, 4]) 4 [2, 1, 0] [] = Inr (3, [1, 2, 3])" by code_simp
  from net_transfer [OF this, of "[[1], [2, 3]]" "[0, 0, 0, 0]" "[None]"] show ?thesis by simp
qed

text \<open>
  what \<^verbatim>\<open>NET_Send\<close> returns. When the kernel does not take all bytes it is their number that went
  out, 0 for none and never the error; when all went out it is the size of the last piece only, so
  the requested length exactly when one call took everything.
\<close>

lemma net_send_result:
  assumes "NET_Send (Some bs) len ks [] = Inr (r, wire)" "1 \<le> len" "len \<le> int (length bs)"
  shows "if int (length wire) < len then r = int (length wire)
         else wire = take (nat len) bs \<and> 1 \<le> r \<and> r \<le> len \<and>
              (r = len \<longleftrightarrow> (case ks of [] \<Rightarrow> False | k # ks' \<Rightarrow> len \<le> k))"
proof -
  obtain r' c rest where s: "send_loop ks (take (nat len) bs) 0 0 [] = (r', c, rest, wire)"
    "r = (if rest \<noteq> [] then int c else r')"
    using assms by (auto simp: NET_Send_def Let_def split: if_splits prod.splits)
  then have w: "take (nat len) bs = wire @ rest" "c = length wire"
    using send_loop_result [OF s(1)] by auto
  have len: "int (length (take (nat len) bs)) = len" "take (nat len) bs \<noteq> []"
    using assms(2,3) by (auto simp: min_def)
  show ?thesis
  proof (cases "rest = []")
    case True
    have "1 \<le> r' \<and> r' \<le> len \<and> (r' = len \<longleftrightarrow> (\<exists>k ks'. ks = k # ks' \<and> len \<le> k))"
      using send_loop_last [OF s(1) [unfolded True] len(2)] unfolding len(1) .
    then show ?thesis using True s(2) w(1) len(1) by (auto split: list.splits)
  next
    case False
    then have "int (length wire) < len" using w(1) len(1) by (metis length_append length_greater_0_conv
          less_add_same_cancel1 of_nat_less_iff)
    then show ?thesis using s(2) w(2) False by simp
  qed
qed

lemma net_send_result_witness:
  "\<exists>r. NET_Send (Some [1, 2, 3, 4]) 4 [3, 2] [] = Inr (r, [1, 2, 3, 4]) \<and> 1 \<le> r \<and> r < 4"
proof -
  have a: "NET_Send (Some [1, 2, 3, 4]) 4 [3, 2] [] = Inr (1, [1, 2, 3, 4])" by code_simp
  show ?thesis using net_send_result [OF a] a by auto
qed

section \<open>Descriptors\<close>

text \<open>
  \<^verbatim>\<open>NET_Ser_Bind\<close> returns the descriptor on every path. It is an open, listening socket on the
  port when \<^verbatim>\<open>bind\<close> and \<^verbatim>\<open>listen\<close> succeed, and a closed one when either fails: the error codes of
  those paths are lost, and the caller holds a number the kernel will give to the next socket.
  \<^verbatim>\<open>NET_ConnTcpSvr\<close> closes its socket on failure too but reports it.
\<close>

lemma ser_bind_closed_descriptor:
  assumes "0 \<le> fd"
  shows "fst (NET_Ser_Bind port t fd oks r_bind r_listen n) = fd \<and>
    map_option (\<lambda>s. (sk_stage s, sk_port s)) (snd (NET_Ser_Bind port t fd oks r_bind r_listen n) fd) =
      (if 0 \<le> r_bind \<and> 0 \<le> r_listen then Some (Listening, port) else None) \<and>
    (case NET_ConnTcpSvr inet_addr svr p fd r_conn oks n of (r, n') \<Rightarrow>
       if r_conn = 0 then r = fd \<and> map_option sk_stage (n' fd) = Some Connected
       else r < 0 \<and> n' = n(fd := None))"
  using assms
  by (auto simp: NET_Ser_Bind_def NET_ConnTcpSvr_def NET_CloseSock_def open_sock_def with_sock_def
      svr_options_def reuse_option_def Let_def)

lemma ser_bind_closed_descriptor_witness:
  "fst (NET_Ser_Bind 8080 1000 3 oks (-1) 0 (\<lambda>_. None)) = 3 \<and>
   snd (NET_Ser_Bind 8080 1000 3 oks (-1) 0 (\<lambda>_. None)) 3 = None"
  using ser_bind_closed_descriptor [where fd = 3 and port = 8080 and t = 1000 and oks = oks and r_bind = "-1" and r_listen = 0
      and n = "\<lambda>_. None"] by simp

text \<open>
  A negative length passes the test of \<^verbatim>\<open>NET_GetAddr\<close>, which compares it as an unsigned number, and
  \<^verbatim>\<open>memset\<close> runs past any buffer.
\<close>

lemma getaddr_negative_length:
  assumes "sint (len :: 32 word) < 0" "length lb < 2 ^ 63"
  shows "NET_GetAddr (Some lb) (Some rb) len a1 a2 = Inl Out_Of_Bounds"
proof -
  have r: "- (2 ^ 31) \<le> sint len" using sint_ge [of len] by simp
  have "uint (scast len :: u64) = sint len mod 2 ^ 64"
    by (simp only: scast_eq uint_word_of_int) simp
  also have "\<dots> = (sint len + 2 ^ 64) mod 2 ^ 64" by (rule mod_add_self2 [symmetric])
  also have "\<dots> = sint len + 2 ^ 64"
    by (rule mod_pos_pos_trivial) (use r assms(1) in simp_all)
  finally have u: "2 ^ 63 \<le> uint (scast len :: u64)" using r by simp
  have "int (length lb) < int (2 ^ 63)" using assms(2) by (rule less_imp_of_nat_less)
  then have "int (length lb) < int (unat (scast len :: u64))" using u by simp
  moreover have "\<not> (scast len :: u64) < 16" using u by (simp add: word_less_def)
  ultimately have "\<not> (scast len :: u64) < 16" "length lb < unat (scast len :: u64)"
    by (simp, simp only: of_nat_less_iff)
  then show ?thesis
    by (simp add: NET_GetAddr_def clear_buf_def Let_def split: prod.splits)
qed

end
