(* ===== verification/Net_Life.thy ===== *)
theory Net_Life
  imports Net
begin

text \<open>
  The life of the descriptors under the calls of \<^verbatim>\<open>netsock.c\<close>: the calls with the answers of the kernel are the
  steps of a relation, and what is open and at which stage is compared with what the results of the calls
  tell. The only assumption about the kernel is that a new descriptor is not in use.
\<close>

section \<open>The order of the stages\<close>

instantiation sock_stage :: linorder
begin

fun stage_rank :: "sock_stage \<Rightarrow> nat" where
  "stage_rank Fresh = 0"
| "stage_rank Bound = 1"
| "stage_rank Listening = 2"
| "stage_rank Connected = 3"

definition less_eq_sock_stage :: "sock_stage \<Rightarrow> sock_stage \<Rightarrow> bool" where
  "less_eq_sock_stage a b \<longleftrightarrow> stage_rank a \<le> stage_rank b"

definition less_sock_stage :: "sock_stage \<Rightarrow> sock_stage \<Rightarrow> bool" where
  "less_sock_stage a b \<longleftrightarrow> stage_rank a < stage_rank b"

instance
proof
  fix a b :: sock_stage
  show "a \<le> b \<Longrightarrow> b \<le> a \<Longrightarrow> a = b"
    by (cases a; cases b) (simp_all add: less_eq_sock_stage_def)
qed (auto simp: less_eq_sock_stage_def less_sock_stage_def)

end

lemma stage_simps [simp]:
  "Fresh \<le> s" "s \<le> Connected" "Bound \<le> Listening" "Listening < Connected" "Bound < Connected" "\<not> Bound \<le> Fresh"
  "\<not> Connected < Connected" "Fresh < Connected"
  by (cases s; simp add: less_eq_sock_stage_def less_sock_stage_def)+

section \<open>The calls and their answers\<close>

text \<open>The arguments of a call followed by the answers of the kernel to the calls it makes.\<close>

datatype net_call =
  Call_Open string int
| Call_Close int int
| Call_Opt int int "32 word" "int \<times> int \<times> int \<times> int"
| Call_Bind int int "string option" "int \<times> int \<times> int"
| Call_Connect int "string option" int int
| Call_Ser_Bind u16 int int set_ok int int
| Call_Accept int int bool int set_ok
| Call_Conn_Svr string int int int set_ok

fun do_call :: "(string \<Rightarrow> u32) \<Rightarrow> net_call \<Rightarrow> net \<Rightarrow> int \<times> net" where
  "do_call inet (Call_Open t fd) n = NET_OpenSock t fd n"
| "do_call inet (Call_Close fd rc) n = NET_CloseSock fd rc n"
| "do_call inet (Call_Opt fd tmo bufsize rcs) n = NET_OptSet fd tmo bufsize rcs n"
| "do_call inet (Call_Bind fd port ip rcs) n = NET_PortBind inet fd port ip rcs n"
| "do_call inet (Call_Connect fd ip port r) n = NET_Connect inet fd ip port r n"
| "do_call inet (Call_Ser_Bind port tmo fd oks r_bind r_listen) n = NET_Ser_Bind port tmo fd oks r_bind r_listen n"
| "do_call inet (Call_Accept tmo sel isset fd oks) n = NET_Ser_Accept tmo sel isset fd oks n"
| "do_call inet (Call_Conn_Svr svr port fd r_conn oks) n = NET_ConnTcpSvr inet svr port fd r_conn oks n"

text \<open>The descriptor that the kernel made for the call.\<close>

fun new_fd :: "net_call \<Rightarrow> int option" where
  "new_fd (Call_Open t fd) = Some fd"
| "new_fd (Call_Ser_Bind port tmo fd oks r_bind r_listen) = Some fd"
| "new_fd (Call_Accept tmo sel isset fd oks) = Some fd"
| "new_fd (Call_Conn_Svr svr port fd r_conn oks) = Some fd"
| "new_fd _ = None"

text \<open>
  What a caller notes of a call that returned \<open>r\<close>: a descriptor he got, one he closed, and how far a socket
  came. The result of \<^verbatim>\<open>NET_Ser_Bind\<close> is the descriptor also after a failure, so its note needs the answers of
  \<^verbatim>\<open>bind\<close> and \<^verbatim>\<open>listen\<close>.
\<close>

type_synonym sock_notes = "int \<Rightarrow> (bool \<times> sock_stage) option"

definition noted_stage :: "int \<Rightarrow> sock_stage \<Rightarrow> sock_notes \<Rightarrow> sock_notes" where
  "noted_stage fd st l = l(fd := map_option (\<lambda>p. (fst p, st)) (l fd))"

definition noted_new :: "int \<Rightarrow> bool \<Rightarrow> sock_stage \<Rightarrow> sock_notes \<Rightarrow> sock_notes" where
  "noted_new r stream st l = (if r < 0 then l else l(r \<mapsto> (stream, st)))"

fun noted :: "net_call \<Rightarrow> int \<Rightarrow> sock_notes \<Rightarrow> sock_notes" where
  "noted (Call_Open t fd) r l = noted_new r (t = ''TCP'') Fresh l"
| "noted (Call_Close fd rc) r l = (if fd < 0 then l else l(fd := None))"
| "noted (Call_Opt fd tmo bufsize rcs) r l = l"
| "noted (Call_Bind fd port ip rcs) r l =
     (if r = 0 then noted_stage fd Listening l else if r = - 11 then noted_stage fd Bound l else l)"
| "noted (Call_Connect fd ip port rc) r l = (if r = 0 then noted_stage fd Connected l else l)"
| "noted (Call_Ser_Bind port tmo fd oks r_bind r_listen) r l =
     (if r_bind < 0 \<or> r_listen < 0 then l else noted_new r True Listening l)"
| "noted (Call_Accept tmo sel isset fd oks) r l = noted_new r True Connected l"
| "noted (Call_Conn_Svr svr port fd r_conn oks) r l = noted_new r True Connected l"

text \<open>Runs: any calls from an empty table, each with answers in which new descriptors are not in use.\<close>

inductive net_reach :: "(string \<Rightarrow> u32) \<Rightarrow> net \<Rightarrow> sock_notes \<Rightarrow> bool" for inet where
  reach_start: "net_reach inet Map.empty Map.empty"
| reach_call: "net_reach inet n l \<Longrightarrow> (\<And>fd. new_fd c = Some fd \<Longrightarrow> n fd = None) \<Longrightarrow> do_call inet c n = (r, n') \<Longrightarrow>
    net_reach inet n' (noted c r l)"

section \<open>The table follows the notes\<close>

definition sock_note :: "sock \<Rightarrow> bool \<times> sock_stage" where
  "sock_note s = (sk_stream s, sk_stage s)"

definition notes_of :: "net \<Rightarrow> sock_notes" where
  "notes_of n fd = map_option sock_note (n fd)"

lemma notes_of_with:
  assumes "\<And>s. sock_note (f s) = (sk_stream s, st)"
  shows "notes_of (with_sock fd f n) = noted_stage fd st (notes_of n)"
  using assms by (auto simp: notes_of_def noted_stage_def with_sock_def sock_note_def fun_eq_iff option.map_comp comp_def)

lemma notes_of_option: "(\<And>s. sock_note (f s) = sock_note s) \<Longrightarrow> notes_of (with_sock fd f n) = notes_of n"
  by (auto simp: notes_of_def with_sock_def fun_eq_iff option.map_comp comp_def)

lemma notes_of_upd: "notes_of (n(fd \<mapsto> s)) = (notes_of n)(fd \<mapsto> sock_note s)"
  "notes_of (n(fd := None)) = (notes_of n)(fd := None)"
  by (auto simp: notes_of_def fun_eq_iff)

lemma sock_note_simps [simp]:
  "sock_note (svr_options oks tv s) = sock_note s" "sock_note (reuse_option oks s) = sock_note s"
  "sk_stream (svr_options oks tv s) = sk_stream s" "sk_stream (reuse_option oks s) = sk_stream s"
  "sock_note (fresh_sock t) = (t, Fresh)" "sk_stream (fresh_sock t) = t" "sock_note (s\<lparr>sk_stage := st\<rparr>) = (sk_stream s, st)"
  "sock_note (s\<lparr>sk_port := q\<rparr>) = sock_note s" "sock_note (s\<lparr>sk_addr := a\<rparr>) = sock_note s"
  "sock_note (s\<lparr>sk_rcvtimeo := tv\<rparr>) = sock_note s" "sock_note (s\<lparr>sk_sndtimeo := tv\<rparr>) = sock_note s"
  "sock_note (s\<lparr>sk_rcvbuf := z\<rparr>) = sock_note s" "sock_note (s\<lparr>sk_sndbuf := z\<rparr>) = sock_note s"
  "sock_note (s\<lparr>sk_reuse := b\<rparr>) = sock_note s"
  by (simp_all add: sock_note_def svr_options_def reuse_option_def fresh_sock_def)

lemma noted_stage_twice: "noted_stage fd st (noted_stage fd st' l) = noted_stage fd st l"
  by (simp add: noted_stage_def option.map_comp comp_def case_prod_beta)

lemma open_notes: "notes_of (open_sock fd t n) = noted_new fd t Fresh (notes_of n)"
  by (simp add: open_sock_def noted_new_def notes_of_upd)

lemma new_stage: "0 \<le> fd \<Longrightarrow> noted_stage fd st (noted_new fd t st' l) = noted_new fd t st l"
  by (simp add: noted_new_def noted_stage_def)

lemma new_failed: "l fd = None \<Longrightarrow> 0 \<le> fd \<Longrightarrow> (noted_new fd t st l)(fd := None) = l"
  by (auto simp: noted_new_def)

lemma opt_notes: "NET_OptSet fd tmo bufsize rcs n = (r, n') \<Longrightarrow> notes_of n' = notes_of n"
  by (cases rcs) (auto simp: NET_OptSet_def Let_def notes_of_option split: if_splits)

lemma bind_notes:
  assumes "NET_PortBind inet fd port ip rcs n = (r, n')"
  shows "notes_of n' = noted (Call_Bind fd port ip rcs) r (notes_of n)"
proof -
  have s: "notes_of (with_sock x (\<lambda>s. s\<lparr>sk_stage := Bound, sk_port := q, sk_addr := a\<rparr>) m) = noted_stage x Bound (notes_of m)"
    "notes_of (with_sock x (\<lambda>s. s\<lparr>sk_stage := Listening\<rparr>) m) = noted_stage x Listening (notes_of m)" for x q a m
    by (rule notes_of_with, simp)+
  have o: "notes_of (with_sock x (\<lambda>s. s\<lparr>sk_reuse := True\<rparr>) m) = notes_of m" for x m
    by (rule notes_of_option) simp
  obtain r_opt r_bind r_listen where "rcs = (r_opt, r_bind, r_listen)" by (metis prod_cases3)
  then show ?thesis using assms by (auto simp: NET_PortBind_def Let_def s o noted_stage_twice split: if_splits)
qed

lemma connect_notes:
  assumes "NET_Connect inet fd ip port rc n = (r, n')"
  shows "notes_of n' = noted (Call_Connect fd ip port rc) r (notes_of n)"
proof -
  have "notes_of (with_sock x (\<lambda>s. s\<lparr>sk_stage := Connected, sk_port := q, sk_addr := a\<rparr>) m) = noted_stage x Connected (notes_of m)"
    for x q a m by (rule notes_of_with) simp
  then show ?thesis using assms by (auto simp: NET_Connect_def split: option.splits if_splits)
qed

lemma ser_bind_notes:
  assumes "NET_Ser_Bind port tmo fd oks r_bind r_listen n = (r, n')" "n fd = None"
  shows "notes_of n' = noted (Call_Ser_Bind port tmo fd oks r_bind r_listen) r (notes_of n)"
proof -
  have s: "notes_of (with_sock x (\<lambda>s. s\<lparr>sk_stage := Bound, sk_port := q\<rparr>) m) = noted_stage x Bound (notes_of m)"
    "notes_of (with_sock x (\<lambda>s. svr_options oks tv (s\<lparr>sk_stage := Listening\<rparr>)) m) = noted_stage x Listening (notes_of m)" for x q tv m
    by (rule notes_of_with, simp)+
  have o: "notes_of (with_sock x (reuse_option oks) m) = notes_of m" for x m by (rule notes_of_option) simp
  have "notes_of n fd = None" using assms(2) by (simp add: notes_of_def)
  then show ?thesis using assms(1)
    by (auto simp: NET_Ser_Bind_def NET_CloseSock_def Let_def s o noted_stage_twice new_stage new_failed open_notes notes_of_upd
        split: if_splits) (simp add: noted_new_def)
qed

lemma conn_notes:
  assumes "NET_ConnTcpSvr inet svr port fd rc oks n = (r, n')" "n fd = None"
  shows "notes_of n' = noted (Call_Conn_Svr svr port fd rc oks) r (notes_of n)"
proof -
  have s: "notes_of (with_sock x (\<lambda>s. svr_options oks tv (reuse_option oks (s\<lparr>sk_stage := Connected, sk_port := q, sk_addr := a\<rparr>))) m) =
      noted_stage x Connected (notes_of m)" for x tv q a m
    by (rule notes_of_with) simp
  have l: "notes_of n fd = None" using assms(2) by (simp add: notes_of_def)
  show ?thesis
  proof (cases "fd < 0")
    case True
    then show ?thesis using assms(1) l
      by (auto simp: NET_ConnTcpSvr_def NET_CloseSock_def Let_def s open_notes noted_new_def noted_stage_def split: if_splits)
  next
    case False
    then show ?thesis using assms(1) l
      by (auto simp: NET_ConnTcpSvr_def NET_CloseSock_def Let_def s new_stage new_failed open_notes notes_of_upd split: if_splits)
        (simp_all add: noted_new_def)
  qed
qed

lemma do_call_notes:
  assumes "do_call inet c n = (r, n')" "\<And>fd. new_fd c = Some fd \<Longrightarrow> n fd = None"
  shows "notes_of n' = noted c r (notes_of n)"
proof (cases c)
  case (Call_Opt fd tmo bufsize rcs)
  then show ?thesis using assms(1) opt_notes by simp
next
  case (Call_Bind fd port ip rcs)
  then show ?thesis using assms(1) bind_notes by (metis do_call.simps(4))
next
  case (Call_Connect fd ip port rc)
  then show ?thesis using assms(1) connect_notes by (metis do_call.simps(5))
next
  case (Call_Ser_Bind port tmo fd oks r_bind r_listen)
  then show ?thesis using assms ser_bind_notes by (metis do_call.simps(6) new_fd.simps(2))
next
  case (Call_Conn_Svr svr port fd rc oks)
  then show ?thesis using assms conn_notes by (metis do_call.simps(8) new_fd.simps(4))
qed (use assms in \<open>auto simp: NET_OpenSock_def NET_CloseSock_def NET_Ser_Accept_def open_notes notes_of_upd noted_new_def split: if_splits\<close>)

lemma net_reach_notes: "net_reach inet n l \<Longrightarrow> notes_of n = l"
proof (induction rule: net_reach.induct)
  case (reach_call n l c r n')
  then show ?case using do_call_notes by metis
qed (simp add: notes_of_def fun_eq_iff)

section \<open>Stages\<close>

text \<open>
  A kernel that binds and connects only sockets on which neither was done takes no open socket back to an
  earlier stage.
\<close>

fun once :: "net_call \<Rightarrow> net \<Rightarrow> bool" where
  "once (Call_Bind fd port ip (r_opt, r_bind, r_listen)) n \<longleftrightarrow> (r_bind = 0 \<longrightarrow> (\<forall>s. n fd = Some s \<longrightarrow> sk_stage s = Fresh))"
| "once (Call_Connect fd ip port r) n \<longleftrightarrow> (r = 0 \<longrightarrow> (\<forall>s. n fd = Some s \<longrightarrow> sk_stage s = Fresh))"
| "once c n \<longleftrightarrow> True"

lemma noted_moves_on:
  assumes "noted c r (notes_of n) x = Some (b, st)" "n x = Some s" "\<And>fd. new_fd c = Some fd \<Longrightarrow> n fd = None"
    "do_call inet c n = (r, n')" "once c n"
  shows "sk_stage s \<le> st"
proof -
  have "notes_of n x = Some (sk_stream s, sk_stage s)" using assms(2) by (simp add: notes_of_def sock_note_def)
  then show ?thesis using assms
    by (cases "(c, n)" rule: once.cases)
      (auto simp: noted_new_def noted_stage_def NET_OpenSock_def NET_Ser_Bind_def NET_Ser_Accept_def NET_ConnTcpSvr_def
        NET_PortBind_def NET_Connect_def Let_def split: if_splits option.splits)
qed

lemma net_stages_grow:
  assumes "do_call inet c n = (r, n')" "\<And>fd. new_fd c = Some fd \<Longrightarrow> n fd = None" "once c n"
    "n x = Some s" "n' x = Some s'"
  shows "sk_stage s \<le> sk_stage s'"
proof (rule noted_moves_on [OF _ assms(4,2,1,3)])
  show "noted c r (notes_of n) x = Some (sk_stream s', sk_stage s')"
    using do_call_notes [OF assms(1,2)] assms(5) by (metis notes_of_def option.simps(9) sock_note_def)
qed

section \<open>Property\<close>

text \<open>
  C32: From an empty table, under any calls and any answers of the kernel in which a new descriptor is not one
  in use, the results of the calls tell which sockets are open, of which kind, and whether each is fresh,
  bound, listening or connected: no failed call leaves a socket open or half set up that its result does not
  tell of. \<^verbatim>\<open>NET_Ser_Bind\<close> alone does not report its failures; it then leaves nothing open.
\<close>

theorem net_life:
  assumes "net_reach inet n l"
  shows "map_option (\<lambda>s. (sk_stream s, sk_stage s)) (n fd) = l fd"
proof -
  have "notes_of n fd = l fd" using net_reach_notes [OF assms] by simp
  then show ?thesis by (simp add: notes_of_def sock_note_def [abs_def])
qed

definition reuse_refused :: set_ok where
  "reuse_refused = \<lparr>ok_sndbuf = True, ok_rcvbuf = True, ok_rcvtimeo = True, ok_sndtimeo = True, ok_reuse = False\<rparr>"

theorem net_life_witness:
  "\<exists>n l. net_reach (\<lambda>_. 0) n l \<and> map_option sk_stage (n 3) = Some Listening \<and> n 4 = None"
proof -
  have c: "do_call (\<lambda>_. 0) (Call_Ser_Bind 80 1500 3 reuse_refused 0 0) Map.empty = (3, snd (NET_Ser_Bind 80 1500 3 reuse_refused 0 0 Map.empty))"
    "do_call (\<lambda>_. 0) (Call_Conn_Svr ''s'' 80 4 (- 1) reuse_refused) m = (- 3, snd (NET_ConnTcpSvr (\<lambda>_. 0) ''s'' 80 4 (- 1) reuse_refused m))" for m
    by (simp_all add: NET_Ser_Bind_def NET_ConnTcpSvr_def Let_def)
  let ?n = "snd (NET_Ser_Bind 80 1500 3 reuse_refused 0 0 Map.empty)"
  have "?n 4 = None" by (simp add: NET_Ser_Bind_def open_sock_def with_sock_def Let_def)
  from reach_call [OF reach_call [OF reach_start _ c(1)] _ c(2)] this
  obtain n l where r: "net_reach (\<lambda>_. 0) n l" "l 3 = Some (True, Listening)" "l 4 = None"
    by (auto simp: noted_new_def)
  from net_life [OF r(1), of 3] net_life [OF r(1), of 4] show ?thesis using r by auto
qed

end
