(* ===== verification/Md5.thy ===== *)
theory Md5
  imports Cvos_Prelude
begin

text \<open>
  The MD5 digest of \<^verbatim>\<open>vos.c\<close>: \<^verbatim>\<open>md5_init\<close>, \<^verbatim>\<open>md5_update\<close>, \<^verbatim>\<open>md5_final\<close> over a context with the
  four words of the hash, the current block and a 64-bit byte counter. The block is kept as its
  64 bytes, as \<^verbatim>\<open>memcpy\<close> fills it; the sixteen words that \<^verbatim>\<open>md5_transform\<close> reads are the little
  endian words of these bytes, on a little endian machine because \<^verbatim>\<open>__le32_to_cpus\<close> does nothing
  there, on a big endian one because \<^verbatim>\<open>swab\<close> turns the bytes round. The locale \<open>stream_digest\<close> is
  the contract of an incremental digest.
\<close>

locale stream_digest =
  fixes init :: 's and upd :: "'s \<Rightarrow> 'b list \<Rightarrow> 's" and fin :: "'s \<Rightarrow> 'd"
    and rep :: "'s \<Rightarrow> 'b list \<Rightarrow> bool" and digest :: "'b list \<Rightarrow> 'd"
  assumes rep_init: "rep init []"
    and rep_upd: "rep s m \<Longrightarrow> rep (upd s d) (m @ d)"
    and rep_fin: "rep s m \<Longrightarrow> fin s = digest m"
begin

lemma rep_chunks: "rep s m \<Longrightarrow> rep (foldl upd s ds) (m @ concat ds)"
proof (induction ds arbitrary: s m)
  case (Cons d ds)
  from Cons.IH [OF rep_upd [OF Cons.prems, of d]] show ?case by simp
qed simp

lemma chunks_digest: "fin (foldl upd init ds) = digest (concat ds)"
  using rep_fin [OF rep_chunks [OF rep_init]] by simp

end

section \<open>The compression function\<close>

definition F1 :: "u32 \<Rightarrow> u32 \<Rightarrow> u32 \<Rightarrow> u32" where "F1 x y z = z XOR (x AND (y XOR z))"
definition F2 :: "u32 \<Rightarrow> u32 \<Rightarrow> u32 \<Rightarrow> u32" where "F2 x y z = F1 z x y"
definition F3 :: "u32 \<Rightarrow> u32 \<Rightarrow> u32 \<Rightarrow> u32" where "F3 x y z = (x XOR y) XOR z"
definition F4 :: "u32 \<Rightarrow> u32 \<Rightarrow> u32 \<Rightarrow> u32" where "F4 x y z = y XOR (x OR NOT z)"

definition md5_fun :: "nat \<Rightarrow> u32 \<Rightarrow> u32 \<Rightarrow> u32 \<Rightarrow> u32" where
  "md5_fun n = (if n = 1 then F1 else if n = 2 then F2 else if n = 3 then F3 else F4)"

definition MD5STEP ::
  "(u32 \<Rightarrow> u32 \<Rightarrow> u32 \<Rightarrow> u32) \<Rightarrow> u32 \<Rightarrow> u32 \<Rightarrow> u32 \<Rightarrow> u32 \<Rightarrow> u32 \<Rightarrow> nat \<Rightarrow> u32" where
  "MD5STEP f w x y z input s =
     (let w1 = w + (f x y z + input)
      in (push_bit s w1 OR drop_bit (32 - s) w1) + x)"

text \<open>The 64 steps: number of the function, index of the input word, constant, rotation.\<close>

definition md5_table :: "(nat \<times> nat \<times> u32 \<times> nat) list" where
  "md5_table =
     [(1, 0, 0xd76aa478, 7), (1, 1, 0xe8c7b756, 12), (1, 2, 0x242070db, 17), (1, 3, 0xc1bdceee, 22),
      (1, 4, 0xf57c0faf, 7), (1, 5, 0x4787c62a, 12), (1, 6, 0xa8304613, 17), (1, 7, 0xfd469501, 22),
      (1, 8, 0x698098d8, 7), (1, 9, 0x8b44f7af, 12), (1, 10, 0xffff5bb1, 17), (1, 11, 0x895cd7be, 22),
      (1, 12, 0x6b901122, 7), (1, 13, 0xfd987193, 12), (1, 14, 0xa679438e, 17), (1, 15, 0x49b40821, 22),
      (2, 1, 0xf61e2562, 5), (2, 6, 0xc040b340, 9), (2, 11, 0x265e5a51, 14), (2, 0, 0xe9b6c7aa, 20),
      (2, 5, 0xd62f105d, 5), (2, 10, 0x02441453, 9), (2, 15, 0xd8a1e681, 14), (2, 4, 0xe7d3fbc8, 20),
      (2, 9, 0x21e1cde6, 5), (2, 14, 0xc33707d6, 9), (2, 3, 0xf4d50d87, 14), (2, 8, 0x455a14ed, 20),
      (2, 13, 0xa9e3e905, 5), (2, 2, 0xfcefa3f8, 9), (2, 7, 0x676f02d9, 14), (2, 12, 0x8d2a4c8a, 20),
      (3, 5, 0xfffa3942, 4), (3, 8, 0x8771f681, 11), (3, 11, 0x6d9d6122, 16), (3, 14, 0xfde5380c, 23),
      (3, 1, 0xa4beea44, 4), (3, 4, 0x4bdecfa9, 11), (3, 7, 0xf6bb4b60, 16), (3, 10, 0xbebfbc70, 23),
      (3, 13, 0x289b7ec6, 4), (3, 0, 0xeaa127fa, 11), (3, 3, 0xd4ef3085, 16), (3, 6, 0x04881d05, 23),
      (3, 9, 0xd9d4d039, 4), (3, 12, 0xe6db99e5, 11), (3, 15, 0x1fa27cf8, 16), (3, 2, 0xc4ac5665, 23),
      (4, 0, 0xf4292244, 6), (4, 7, 0x432aff97, 10), (4, 14, 0xab9423a7, 15), (4, 5, 0xfc93a039, 21),
      (4, 12, 0x655b59c3, 6), (4, 3, 0x8f0ccc92, 10), (4, 10, 0xffeff47d, 15), (4, 1, 0x85845dd1, 21),
      (4, 8, 0x6fa87e4f, 6), (4, 15, 0xfe2ce6e0, 10), (4, 6, 0xa3014314, 15), (4, 13, 0x4e0811a1, 21),
      (4, 4, 0xf7537e82, 6), (4, 11, 0xbd3af235, 10), (4, 2, 0x2ad7d2bb, 15), (4, 9, 0xeb86d391, 21)]"

text \<open>
  Each step updates its first word; the roles of the four words turn by one from a step to the
  next (\<^verbatim>\<open>a, b, c, d\<close>, then \<^verbatim>\<open>d, a, b, c\<close>), and are back in place after 64.
\<close>

definition md5_step ::
  "u32 list \<Rightarrow> nat \<times> nat \<times> u32 \<times> nat \<Rightarrow> u32 \<times> u32 \<times> u32 \<times> u32 \<Rightarrow> u32 \<times> u32 \<times> u32 \<times> u32" where
  "md5_step input = (\<lambda>(f, i, k, s) (w, x, y, z).
     (z, MD5STEP (md5_fun f) w x y z (input ! i + k) s, x, y))"

definition md5_transform :: "u32 \<times> u32 \<times> u32 \<times> u32 \<Rightarrow> u32 list \<Rightarrow> u32 \<times> u32 \<times> u32 \<times> u32" where
  "md5_transform hash input =
     (let (a, b, c, d) = fold (md5_step input) md5_table hash;
          (h0, h1, h2, h3) = hash
      in (h0 + a, h1 + b, h2 + c, h3 + d))"

section \<open>The context\<close>

definition le_word :: "u8 list \<Rightarrow> u32" where
  "le_word bs = foldr (\<lambda>b w. push_bit 8 w OR ucast b) bs 0"

definition le_bytes :: "nat \<Rightarrow> 'a::len word \<Rightarrow> u8 list" where
  "le_bytes n w = map (\<lambda>i. ucast (drop_bit (8 * i) w)) [0..<n]"

definition block_words :: "u8 list \<Rightarrow> u32 list" where
  "block_words blk = map (\<lambda>i. le_word (take 4 (drop (4 * i) blk))) [0..<16]"

record md5_ctx =
  md5_hash :: "u32 \<times> u32 \<times> u32 \<times> u32"
  md5_block :: "u8 list"
  md5_count :: u64

text \<open>\<^verbatim>\<open>memcpy\<close> and \<^verbatim>\<open>memset\<close> into the block, which the code keeps within it.\<close>

definition put :: "nat \<Rightarrow> u8 list \<Rightarrow> u8 list \<Rightarrow> u8 list" where
  "put off bs blk = take off blk @ bs @ drop (off + length bs) blk"

definition md5_transform_helper :: "md5_ctx \<Rightarrow> md5_ctx" where
  "md5_transform_helper ctx =
     ctx\<lparr>md5_hash := md5_transform (md5_hash ctx) (block_words (md5_block ctx))\<rparr>"

text \<open>\<open>ctx\<close> is the memory the caller passes; its block stays as it is.\<close>

definition md5_init :: "md5_ctx \<Rightarrow> md5_ctx" where
  "md5_init ctx = ctx\<lparr>md5_hash := (0x67452301, 0xefcdab89, 0x98badcfe, 0x10325476), md5_count := 0\<rparr>"

fun md5_blocks :: "md5_ctx \<Rightarrow> u8 list \<Rightarrow> md5_ctx \<times> u8 list" where
  "md5_blocks ctx data =
     (if 64 \<le> length data
      then md5_blocks (md5_transform_helper (ctx\<lparr>md5_block := put 0 (take 64 data) (md5_block ctx)\<rparr>)) (drop 64 data)
      else (ctx, data))"

declare md5_blocks.simps [simp del]

definition md5_update :: "md5_ctx \<Rightarrow> u8 list \<Rightarrow> md5_ctx" where
  "md5_update ctx data =
     (let avail = 64 - unat (md5_count ctx AND 0x3f);
          ctx1 = ctx\<lparr>md5_count := md5_count ctx + of_nat (length data)\<rparr>
      in if avail > length data then ctx1\<lparr>md5_block := put (64 - avail) data (md5_block ctx1)\<rparr>
         else
           let ctx2 = md5_transform_helper
                 (ctx1\<lparr>md5_block := put (64 - avail) (take avail data) (md5_block ctx1)\<rparr>);
               (ctx3, rest) = md5_blocks ctx2 (drop avail data)
           in ctx3\<lparr>md5_block := put 0 rest (md5_block ctx3)\<rparr>)"

definition hash_bytes :: "u32 \<times> u32 \<times> u32 \<times> u32 \<Rightarrow> u8 list" where
  "hash_bytes = (\<lambda>(a, b, c, d). le_bytes 4 a @ le_bytes 4 b @ le_bytes 4 c @ le_bytes 4 d)"

definition md5_cleared :: md5_ctx where
  "md5_cleared = \<lparr>md5_hash = (0, 0, 0, 0), md5_block = replicate 64 0, md5_count = 0\<rparr>"

text \<open>The digest and the cleared context.\<close>

definition md5_final :: "md5_ctx \<Rightarrow> u8 list \<times> md5_ctx" where
  "md5_final ctx =
     (let offset = unat (md5_count ctx AND 0x3f);
          padding = 56 - (int offset + 1);
          ctx1 = ctx\<lparr>md5_block := put offset [0x80] (md5_block ctx)\<rparr>;
          (ctx2, p, padding') =
            (if padding < 0
             then (md5_transform_helper
                     (ctx1\<lparr>md5_block := put (offset + 1) (replicate (nat (padding + 8)) 0) (md5_block ctx1)\<rparr>),
                   0, 56)
             else (ctx1, offset + 1, padding));
          blk = put p (replicate (nat padding') 0) (md5_block ctx2);
          blk' = put 56 (le_bytes 4 (ucast (push_bit 3 (md5_count ctx)) :: u32) @
                         le_bytes 4 (ucast (drop_bit 29 (md5_count ctx)) :: u32)) blk
      in (hash_bytes (md5_transform (md5_hash ctx2) (block_words blk')), md5_cleared))"

section \<open>The digest of a whole message, as RFC 1321 states it\<close>

fun absorb :: "u32 \<times> u32 \<times> u32 \<times> u32 \<Rightarrow> u8 list \<Rightarrow> u32 \<times> u32 \<times> u32 \<times> u32" where
  "absorb h bs = (if length bs < 64 then h else absorb (md5_transform h (block_words (take 64 bs))) (drop 64 bs))"

declare absorb.simps [simp del]

definition md5_pad :: "u8 list \<Rightarrow> u8 list" where
  "md5_pad m = m @ [0x80] @ replicate (nat ((55 - int (length m)) mod 64)) 0 @
     le_bytes 8 (of_nat (8 * length m) :: u64)"

definition md5_digest :: "u8 list \<Rightarrow> u8 list" where
  "md5_digest m = hash_bytes (absorb (0x67452301, 0xefcdab89, 0x98badcfe, 0x10325476) (md5_pad m))"

section \<open>The context represents the message so far\<close>

abbreviation md5_iv :: "u32 \<times> u32 \<times> u32 \<times> u32" where
  "md5_iv \<equiv> (0x67452301, 0xefcdab89, 0x98badcfe, 0x10325476)"

definition md5_rep :: "md5_ctx \<Rightarrow> u8 list \<Rightarrow> bool" where
  "md5_rep ctx m \<longleftrightarrow> length (md5_block ctx) = 64 \<and> md5_count ctx = of_nat (length m) \<and>
     (\<exists>full tail. m = full @ tail \<and> 64 dvd length full \<and> length tail < 64 \<and>
        md5_hash ctx = absorb md5_iv full \<and> take (length tail) (md5_block ctx) = tail)"

lemma absorb_step:
  "\<not> length bs < 64 \<Longrightarrow> absorb h bs = absorb (md5_transform h (block_words (take 64 bs))) (drop 64 bs)"
  by (subst absorb.simps) simp

lemma absorb_append: "64 dvd length xs \<Longrightarrow> absorb h (xs @ ys) = absorb (absorb h xs) ys"
proof (induction h xs rule: absorb.induct)
  case (1 h bs)
  show ?case
  proof (cases "length bs < 64")
    case True
    with 1(2) have "bs = []" by (auto dest: dvd_imp_le)
    then show ?thesis by (simp add: absorb.simps [of h "[]"])
  next
    case False
    then have "64 dvd length (drop 64 bs)" using 1(2) by (simp add: dvd_diff_nat)
    from 1(1) [OF False this] False show ?thesis
      by (simp add: absorb_step)
  qed
qed

lemma absorb_block: "length bs = 64 \<Longrightarrow> absorb h bs = md5_transform h (block_words bs)"
  by (subst absorb.simps, subst absorb.simps) simp

lemma absorb_two:
  assumes "64 dvd length full" "length xs = 64" "length ys = 64"
  shows "absorb h (full @ xs @ ys) =
    md5_transform (md5_transform (absorb h full) (block_words xs)) (block_words ys)"
  using assms absorb_append [of xs "absorb h full" ys] by (simp add: absorb_append absorb_block)

lemma length_put: "off + length bs \<le> length blk \<Longrightarrow> length (put off bs blk) = length blk"
  by (simp add: put_def)

lemma put_0 [simp]: "put 0 bs blk = bs @ drop (length bs) blk"
  by (simp add: put_def)

lemma md5_blocks_spec:
  assumes "length (md5_block ctx) = 64"
  shows "\<exists>full rest ctx'. md5_blocks ctx data = (ctx', rest) \<and> data = full @ rest \<and> 64 dvd length full \<and>
    length rest < 64 \<and> md5_hash ctx' = absorb (md5_hash ctx) full \<and> md5_count ctx' = md5_count ctx \<and>
    length (md5_block ctx') = 64"
  using assms
proof (induction ctx data rule: md5_blocks.induct)
  case (1 ctx data)
  show ?case
  proof (cases "64 \<le> length data")
    case False
    then show ?thesis using 1(2)
      by (intro exI [of _ "[]"] exI [of _ data] exI [of _ ctx]) (simp add: md5_blocks.simps absorb.simps)
  next
    case True
    let ?b = "take 64 data"
    let ?c = "md5_transform_helper (ctx\<lparr>md5_block := put 0 ?b (md5_block ctx)\<rparr>)"
    have lb: "length ?b = 64" using True by simp
    have c: "md5_block ?c = ?b" "md5_count ?c = md5_count ctx"
      "md5_hash ?c = absorb (md5_hash ctx) ?b"
      using 1(2) lb by (simp_all add: md5_transform_helper_def absorb_block)
    have "length (md5_block ?c) = 64" using c(1) lb by simp
    from 1(1) [OF True this] obtain full rest ctx' where
      f: "md5_blocks ?c (drop 64 data) = (ctx', rest)" "drop 64 data = full @ rest" "64 dvd length full"
      "length rest < 64" "md5_hash ctx' = absorb (md5_hash ?c) full" "md5_count ctx' = md5_count ?c"
      "length (md5_block ctx') = 64" by blast
    have "md5_blocks ctx data = (ctx', rest)" using True f(1) by (subst md5_blocks.simps) simp
    moreover have "data = (?b @ full) @ rest" using f(2) by (metis append.assoc append_take_drop_id)
    moreover have "64 dvd length (?b @ full)" using f(3) lb by simp
    moreover have "absorb (md5_hash ?c) full = absorb (md5_hash ctx) (?b @ full)"
      using c(3) lb by (simp add: absorb_append)
    ultimately show ?thesis using f(4-7) c(2) by metis
  qed
qed

lemma count_mod: "unat (of_nat n AND 0x3f :: u64) = n mod 64"
proof -
  have "(0x3f :: u64) = mask 6" by (simp add: mask_eq_exp_minus_1)
  then have "unat (of_nat n AND 0x3f :: u64) = take_bit 6 (unat (of_nat n :: u64))"
    by (simp only: take_bit_eq_mask [symmetric] unsigned_take_bit_eq)
  also have "\<dots> = (n mod 2 ^ 64) mod 64" by (simp add: take_bit_eq_mod unat_of_nat)
  also have "\<dots> = n mod 64" by (simp add: mod_mod_cancel)
  finally show ?thesis .
qed

lemma tail_offset:
  assumes "m = full @ tail" "64 dvd length full" "length tail < 64"
  shows "length m mod 64 = length tail"
  using assms by (auto elim!: dvdE)

lemma md5_rep_init: "length (md5_block ctx) = 64 \<Longrightarrow> md5_rep (md5_init ctx) []"
  by (auto simp: md5_rep_def md5_init_def absorb.simps)

lemma md5_rep_update:
  assumes "md5_rep ctx m"
  shows "md5_rep (md5_update ctx data) (m @ data)"
proof -
  obtain full tail where r: "length (md5_block ctx) = 64" "md5_count ctx = of_nat (length m)"
    "m = full @ tail" "64 dvd length full" "length tail < 64" "md5_hash ctx = absorb md5_iv full"
    "take (length tail) (md5_block ctx) = tail"
    using assms by (auto simp: md5_rep_def)
  have off: "unat (md5_count ctx AND 0x3f) = length tail"
    unfolding r(2) count_mod by (rule tail_offset [OF r(3-5)])
  let ?av = "64 - length tail"
  show ?thesis
  proof (cases "?av > length data")
    case True
    have "md5_update ctx data = ctx\<lparr>md5_count := md5_count ctx + of_nat (length data),
        md5_block := put (length tail) data (md5_block ctx)\<rparr>"
      using True r(5) by (simp add: md5_update_def off Let_def)
    moreover have "take (length (tail @ data)) (put (length tail) data (md5_block ctx)) = tail @ data"
      using r(1,5,7) by (simp add: put_def)
    ultimately show ?thesis
      using r True unfolding md5_rep_def
      by (simp add: length_put, intro exI [of _ full] exI [of _ "tail @ data"]) simp
  next
    case False
    let ?d = "take ?av data"
    let ?b = "tail @ ?d"
    have lb: "length ?b = 64" using False r(5) by simp
    let ?c = "md5_transform_helper (ctx\<lparr>md5_count := md5_count ctx + of_nat (length data),
        md5_block := put (length tail) ?d (md5_block ctx)\<rparr>)"
    have "put (length tail) ?d (md5_block ctx) = ?b" using r(1,7) lb by (simp add: put_def)
    then have c: "md5_block ?c = ?b" "md5_count ?c = of_nat (length (m @ data))"
      "md5_hash ?c = absorb md5_iv (full @ ?b)"
      using r(2,4,6) lb by (simp_all add: md5_transform_helper_def absorb_append absorb_block)
    have "length (md5_block ?c) = 64" using c(1) lb by simp
    from md5_blocks_spec [OF this, of "drop ?av data"] obtain full' rest ctx' where
      f: "md5_blocks ?c (drop ?av data) = (ctx', rest)" "drop ?av data = full' @ rest" "64 dvd length full'"
      "length rest < 64" "md5_hash ctx' = absorb (md5_hash ?c) full'" "md5_count ctx' = md5_count ?c"
      "length (md5_block ctx') = 64" by blast
    have u: "md5_update ctx data = ctx'\<lparr>md5_block := put 0 rest (md5_block ctx')\<rparr>"
      using False r(5) f(1) by (simp add: md5_update_def off Let_def)
    have "m @ data = (full @ ?b @ full') @ rest"
      using r(3) f(2) by (metis append.assoc append_take_drop_id)
    moreover have "64 dvd length (full @ ?b @ full')" using r(4) lb f(3) by simp
    moreover have "absorb (md5_hash ?c) full' = absorb md5_iv (full @ ?b @ full')"
      using c(3) absorb_append [of "full @ ?b" md5_iv full'] r(4) lb by simp
    ultimately show ?thesis
      using u f(4-7) c(2) unfolding md5_rep_def
      by (simp, intro exI [of _ "full @ ?b @ full'"] exI [of _ rest]) simp
  qed
qed

section \<open>The last blocks\<close>

lemma length_le_bytes [simp]: "length (le_bytes n w) = n"
  by (simp add: le_bytes_def)

lemma le_bytes_count:
  "le_bytes 4 (ucast (push_bit 3 c) :: u32) @ le_bytes 4 (ucast (drop_bit 29 c) :: u32)
     = le_bytes 8 (push_bit 3 c :: u64)"
proof (rule nth_equalityI, simp)
  fix i
  assume "i < length (le_bytes 4 (ucast (push_bit 3 c) :: u32) @ le_bytes 4 (ucast (drop_bit 29 c) :: u32))"
  then have i: "i < 8" by simp
  show "(le_bytes 4 (ucast (push_bit 3 c) :: u32) @ le_bytes 4 (ucast (drop_bit 29 c) :: u32)) ! i
      = le_bytes 8 (push_bit 3 c :: u64) ! i"
  proof (cases "i < 4")
    case True
    then show ?thesis
      by (simp add: nth_append le_bytes_def)
        (rule bit_word_eqI, simp only: bit_ucast_iff bit_drop_bit_eq comp_def, auto)
  next
    case False
    then have e: "8 * i = 32 + 8 * (i - 4)" by simp
    show ?thesis using False i
      by (simp add: nth_append le_bytes_def)
        (rule bit_word_eqI, simp only: bit_ucast_iff bit_drop_bit_eq comp_def bit_push_bit_iff e, auto
          simp: add.commute)
  qed
qed

lemma push_bit_count: "push_bit 3 (of_nat n :: u64) = of_nat (8 * n)"
  by (simp add: push_bit_eq_mult)

lemma pad_mod:
  "(55 - int (64 * k + t)) mod 64 = (55 - int t) mod 64"
  "(55 - int (64 * k + t)) mod 64 = (119 - int t) mod 64"
proof -
  have "55 - int (64 * k + t) = 55 - int t + (- int k) * 64" by simp
  then show *: "(55 - int (64 * k + t)) mod 64 = (55 - int t) mod 64" by (metis mod_mult_self1)
  have "119 - int t = 55 - int t + 1 * 64" by simp
  then show "(55 - int (64 * k + t)) mod 64 = (119 - int t) mod 64" using * by (metis mod_mult_self1)
qed

lemma md5_final_digest:
  assumes "md5_rep ctx m"
  shows "md5_final ctx = (md5_digest m, md5_cleared)"
proof -
  obtain full tail where r: "length (md5_block ctx) = 64" "md5_count ctx = of_nat (length m)"
    "m = full @ tail" "64 dvd length full" "length tail < 64" "md5_hash ctx = absorb md5_iv full"
    "take (length tail) (md5_block ctx) = tail"
    using assms by (auto simp: md5_rep_def)
  let ?t = "length tail" and ?bits = "le_bytes 8 (of_nat (8 * length m) :: u64)"
  have off: "unat (md5_count ctx AND 0x3f) = ?t"
    unfolding r(2) count_mod by (rule tail_offset [OF r(3-5)])
  have bits: "le_bytes 4 (ucast (push_bit 3 (md5_count ctx)) :: u32) @
      le_bytes 4 (ucast (drop_bit 29 (md5_count ctx)) :: u32) = ?bits"
    using le_bytes_count [of "md5_count ctx"] by (simp only: r(2) push_bit_count)
  have b1: "put ?t [0x80] (md5_block ctx) = tail @ [0x80] @ drop (?t + 1) (md5_block ctx)"
    using r(7) by (simp add: put_def)
  obtain k where k: "length full = 64 * k" using r(4) by blast
  show ?thesis
  proof (cases "?t \<le> 55")
    case True
    have "(55 - int (length m)) mod 64 = (55 - int ?t) mod 64"
      unfolding r(3) length_append k by (rule pad_mod(1))
    also have "\<dots> = 55 - int ?t" using True by simp
    finally have pad: "md5_pad m = full @ tail @ [0x80] @ replicate (55 - ?t) 0 @ ?bits"
      unfolding md5_pad_def r(3) by simp
    have "put 56 ?bits (put (?t + 1) (replicate (55 - ?t) 0) (tail @ [0x80] @ drop (?t + 1) (md5_block ctx)))
        = tail @ [0x80] @ replicate (55 - ?t) 0 @ ?bits"
      using True r(1) Suc_diff_le [of ?t 55] by (simp add: put_def)
    moreover have "nat (56 - (int ?t + 1)) = 55 - ?t" using True by simp
    ultimately show ?thesis
      using True r(4,6)
      by (simp add: md5_final_def off bits b1 Let_def md5_digest_def pad absorb_append absorb_block)
  next
    case False
    let ?z = "replicate (63 - ?t) 0 :: u8 list"
    have "(55 - int (length m)) mod 64 = (119 - int ?t) mod 64"
      unfolding r(3) length_append k by (rule pad_mod(2))
    also have "\<dots> = 119 - int ?t" using False r(5) by simp
    finally have "nat ((55 - int (length m)) mod 64) = 63 - ?t + 56" using False r(5) by simp
    then have pad: "md5_pad m = full @ (tail @ [0x80] @ ?z) @ (replicate 56 0 @ ?bits)"
      unfolding md5_pad_def r(3) by (simp add: replicate_add)
    have p1: "put (?t + 1) ?z (tail @ [0x80] @ drop (?t + 1) (md5_block ctx)) = tail @ [0x80] @ ?z"
      using False r(1,5) by (simp add: put_def)
    have p2: "put 56 ?bits (put 0 (replicate 56 0) (tail @ [0x80] @ ?z)) = replicate 56 0 @ ?bits"
      using False r(5) by (simp add: put_def)
    have n: "nat (56 - (int ?t + 1) + 8) = 63 - ?t" using r(5) by simp
    have "length (tail @ [0x80] @ ?z) = 64" using r(5) by simp
    then have ab: "absorb md5_iv (md5_pad m) =
        md5_transform (md5_transform (absorb md5_iv full) (block_words (tail @ [0x80] @ ?z)))
          (block_words (replicate 56 0 @ ?bits))"
      unfolding pad using r(4) by (intro absorb_two) simp_all
    have "md5_final ctx = (hash_bytes (absorb md5_iv (md5_pad m)), md5_cleared)"
      unfolding ab md5_final_def off bits b1 Let_def n
      using False r(6) p2 by (simp only: md5_transform_helper_def) (simp add: p1 [simplified])
    then show ?thesis by (simp only: md5_digest_def)
  qed
qed

section \<open>Properties\<close>

abbreviation md5_start :: md5_ctx where
  "md5_start \<equiv> md5_init md5_cleared"

interpretation md5: stream_digest md5_start md5_update "fst \<circ> md5_final" md5_rep md5_digest
  by unfold_locales
    (simp_all add: md5_rep_init md5_cleared_def md5_rep_update md5_final_digest)

text \<open>
  C8: feeding a message to \<^verbatim>\<open>md5_update\<close> in any pieces, whatever their sizes, and then calling
  \<^verbatim>\<open>md5_final\<close> gives the digest of the whole message in the form of RFC 1321: one pass of the
  compression function over the message padded with \<^verbatim>\<open>0x80\<close>, zeros and its bit length.
\<close>

theorem md5_streaming:
  "fst (md5_final (foldl md5_update (md5_init md5_cleared) chunks)) = md5_digest (concat chunks)"
  using md5.chunks_digest [of chunks] by simp

text \<open>
  The padded message is a whole number of 64-byte blocks, starts with the message, adds
  between 9 and 72 bytes, and \<^verbatim>\<open>md5_final\<close> always leaves the context zeroed and returns 16 bytes,
  so that nothing of the message stays in memory.
\<close>

lemma md5_final_clears:
  "snd (md5_final (foldl md5_update (md5_init md5_cleared) chunks)) = md5_cleared \<and>
   length (fst (md5_final (foldl md5_update (md5_init md5_cleared) chunks))) = 16 \<and>
   64 dvd length (md5_pad m) \<and> take (length m) (md5_pad m) = m \<and>
   length m + 9 \<le> length (md5_pad m) \<and> length (md5_pad m) \<le> length m + 72"
proof -
  have "md5_rep (foldl md5_update md5_start chunks) ([] @ concat chunks)"
    by (rule md5.rep_chunks [OF md5.rep_init])
  from md5_final_digest [OF this]
  have f: "md5_final (foldl md5_update md5_start chunks) = (md5_digest (concat chunks), md5_cleared)"
    by simp
  have l: "length (md5_digest x) = 16" for x
    by (simp add: md5_digest_def hash_bytes_def split: prod.split)
  have n: "0 \<le> (55 - int (length m)) mod 64" "(55 - int (length m)) mod 64 < 64" by simp_all
  have "(int (length m) + 9 + (55 - int (length m)) mod 64) mod 64
      = (int (length m) + 9 + (55 - int (length m))) mod 64" by (rule mod_add_right_eq)
  then have z: "(int (length m) + 9 + (55 - int (length m)) mod 64) mod 64 = 0" by simp
  have e: "int (length (md5_pad m)) = int (length m) + 9 + (55 - int (length m)) mod 64"
    using n(1) by (simp add: md5_pad_def)
  with n have b: "length m + 9 \<le> length (md5_pad m)" "length (md5_pad m) \<le> length m + 72" by linarith+
  from e z have "int (length (md5_pad m)) mod 64 = 0" by simp
  then have "64 dvd length (md5_pad m)" by presburger
  then show ?thesis using b by (simp add: f l) (simp add: md5_pad_def)
qed

end
