(* ===== verification/Ifinfo.thy ===== *)
theory Ifinfo
  imports Cvos_Prelude
begin

text \<open>
  The interface addresses of \<^verbatim>\<open>utils.c\<close>: the linked list behind the static pointer \<^verbatim>\<open>if_info\<close>, filled
  from what \<^verbatim>\<open>getifaddrs\<close> returns and freed by \<^verbatim>\<open>utl_IfGetInfo\<close>. \<^verbatim>\<open>malloc\<close> succeeds. A field that was
  never written is \<open>None\<close>; reading it as a string is a fault.
\<close>

section \<open>The list\<close>

record if_ipv4_info =
  if_name :: string
  ip_addr :: "string option"
  hd_addr :: "string option"
  raw_hd_addr :: "string option"

text \<open>The static pointer: null, a list of nodes, or left pointing to freed memory.\<close>

datatype if_ptr = If_Null | If_List "if_ipv4_info list" | If_Dangling

text \<open>
  An entry of \<^verbatim>\<open>getifaddrs\<close>: the name and the address, of the family \<^verbatim>\<open>AF_INET\<close> with the text that
  \<^verbatim>\<open>inet_ntop\<close> gives, \<^verbatim>\<open>AF_PACKET\<close> with its six bytes, or another.
\<close>

datatype if_addr = Inet string | Packet "u8 list" | Other_Family

type_synonym ifaddr = "string \<times> if_addr option"

definition hex_digit :: "nat \<Rightarrow> char" where
  "hex_digit n = ''0123456789abcdef'' ! (n mod 16)"

definition hex2 :: "u8 \<Rightarrow> string" where
  "hex2 b = [hex_digit (unat b div 16), hex_digit (unat b)]"

definition mac_text :: "u8 list \<Rightarrow> string" where
  "mac_text bs = concat (map (\<lambda>i. hex2 (bs ! i) @ (if i < 5 then '':'' else [])) [0..<6])"

definition raw_mac_text :: "u8 list \<Rightarrow> string" where
  "raw_mac_text bs = concat (map (\<lambda>i. hex2 (bs ! i)) [0..<6])"

text \<open>The two texts that \<^verbatim>\<open>_if_prt_if_info\<close> leaves in the caller's buffers, and its result.\<close>

definition if_prt_if_info :: "if_addr \<Rightarrow> string \<Rightarrow> string \<Rightarrow> int \<times> string \<times> string" where
  "if_prt_if_info a buf raw =
     (case a of
        Inet t \<Rightarrow> (0, t, raw)
      | Packet bs \<Rightarrow> (0, mac_text bs, raw_mac_text bs)
      | Other_Family \<Rightarrow> (-1, buf, raw))"

definition if_store :: "if_addr \<Rightarrow> string \<Rightarrow> string \<Rightarrow> if_ipv4_info \<Rightarrow> if_ipv4_info" where
  "if_store a buf raw p =
     (case a of
        Inet t \<Rightarrow> p\<lparr>ip_addr := Some buf\<rparr>
      | Packet bs \<Rightarrow> p\<lparr>hd_addr := Some buf, raw_hd_addr := Some raw\<rparr>
      | Other_Family \<Rightarrow> p)"

definition if_node :: "string \<Rightarrow> if_ipv4_info" where
  "if_node name = \<lparr>if_name = name, ip_addr = Some [], hd_addr = Some [], raw_hd_addr = None\<rparr>"

text \<open>The walk of \<^verbatim>\<open>_if_add_to_link\<close>: the node of that name is overwritten, a new one goes to the end.\<close>

fun if_update :: "string \<Rightarrow> (if_ipv4_info \<Rightarrow> if_ipv4_info) \<Rightarrow> if_ipv4_info list \<Rightarrow> if_ipv4_info list" where
  "if_update name f [] = [f (if_node name)]"
| "if_update name f (p # ps) = (if if_name p = name then f p # ps else p # if_update name f ps)"

definition if_add_to_link :: "string \<Rightarrow> if_addr \<Rightarrow> string \<Rightarrow> string \<Rightarrow> if_ptr \<Rightarrow> if_ptr cres" where
  "if_add_to_link name a buf raw ptr =
     (case ptr of
        If_Null \<Rightarrow> Inr (If_List [if_store a buf raw (if_node name)])
      | If_List ps \<Rightarrow> Inr (If_List (if_update name (if_store a buf raw) ps))
      | If_Dangling \<Rightarrow> Inl Use_After_Free)"

text \<open>The loop of \<^verbatim>\<open>_if_get_if_info\<close>; the buffers keep the last texts.\<close>

fun if_collect :: "string \<Rightarrow> ifaddr list \<Rightarrow> string \<Rightarrow> string \<Rightarrow> if_ptr \<Rightarrow> if_ptr cres" where
  "if_collect name [] buf raw ptr = Inr ptr"
| "if_collect name ((n, addr) # rest) buf raw ptr =
     (if n = ''lo'' then if_collect name rest buf raw ptr
      else case addr of
        None \<Rightarrow> if_collect name rest buf raw ptr
      | Some a \<Rightarrow>
          if n \<noteq> name then if_collect name rest buf raw ptr
          else case if_prt_if_info a buf raw of (ret, buf', raw') \<Rightarrow>
            if ret = 0
            then cbind (if_add_to_link n a buf' raw' ptr) (if_collect name rest buf' raw')
            else if_collect name rest buf' raw' ptr)"

definition if_get_if_info :: "ifaddr list option \<Rightarrow> string \<Rightarrow> if_ptr \<Rightarrow> (int \<times> if_ptr) cres" where
  "if_get_if_info ifas name ptr =
     (case ifas of
        None \<Rightarrow> Inr (-1, ptr)
      | Some l \<Rightarrow> cbind (if_collect name l [] [] ptr) (\<lambda>ptr'. Inr (0, ptr')))"

section \<open>\<^verbatim>\<open>utl_IfGetInfo\<close>\<close>

text \<open>\<^verbatim>\<open>strcpy\<close> of a field of the first node to a caller's buffer, when that is not null.\<close>

definition if_field :: "(if_ipv4_info \<Rightarrow> string option) \<Rightarrow> bool \<Rightarrow> if_ptr \<Rightarrow> string option cres" where
  "if_field f wanted ptr =
     (if \<not> wanted then Inr None
      else case ptr of
        If_Null \<Rightarrow> Inl Null_Deref
      | If_Dangling \<Rightarrow> Inl Use_After_Free
      | If_List [] \<Rightarrow> Inl Null_Deref
      | If_List (p # ps) \<Rightarrow> (case f p of None \<Rightarrow> Inl Out_Of_Bounds | Some t \<Rightarrow> Inr (Some t)))"

text \<open>Freeing the list reads every node; the static pointer keeps its value.\<close>

definition if_free :: "if_ptr \<Rightarrow> if_ptr cres" where
  "if_free ptr =
     (case ptr of
        If_Null \<Rightarrow> Inr If_Null
      | If_Dangling \<Rightarrow> Inl Use_After_Free
      | If_List ps \<Rightarrow> Inr If_Dangling)"

record if_result =
  out_ip :: "string option"
  out_mac :: "string option"
  out_raw :: "string option"

definition utl_IfGetInfo ::
  "ifaddr list option \<Rightarrow> string \<Rightarrow> bool \<Rightarrow> bool \<Rightarrow> bool \<Rightarrow> if_ptr \<Rightarrow> (int \<times> if_result \<times> if_ptr) cres" where
  "utl_IfGetInfo ifas name ip mac raw ptr =
     cbind (if_get_if_info ifas name ptr) (\<lambda>(ret, ptr1).
       if ret = 0 then
         cbind (if_field hd_addr mac ptr1) (\<lambda>m.
         cbind (if_field ip_addr ip ptr1) (\<lambda>i.
         cbind (if_field raw_hd_addr raw ptr1) (\<lambda>r.
         cbind (if_free ptr1) (\<lambda>ptr2.
           Inr (ret, \<lparr>out_ip = i, out_mac = m, out_raw = r\<rparr>, ptr2)))))
       else
         cbind (if_free ptr1) (\<lambda>ptr2. Inr (ret, \<lparr>out_ip = None, out_mac = None, out_raw = None\<rparr>, ptr2)))"

section \<open>What a call returns\<close>

fun if_inets :: "string \<Rightarrow> ifaddr list \<Rightarrow> string list" where
  "if_inets name [] = []"
| "if_inets name ((n, Some (Inet t)) # rest) = (if n = name then t # if_inets name rest else if_inets name rest)"
| "if_inets name (e # rest) = if_inets name rest"

fun if_packets :: "string \<Rightarrow> ifaddr list \<Rightarrow> u8 list list" where
  "if_packets name [] = []"
| "if_packets name ((n, Some (Packet bs)) # rest) =
     (if n = name then bs # if_packets name rest else if_packets name rest)"
| "if_packets name (e # rest) = if_packets name rest"

definition if_filled :: "string \<Rightarrow> ifaddr list \<Rightarrow> if_ipv4_info \<Rightarrow> if_ipv4_info" where
  "if_filled name l p =
     \<lparr>if_name = if_name p,
      ip_addr = (if if_inets name l = [] then ip_addr p else Some (last (if_inets name l))),
      hd_addr = (if if_packets name l = [] then hd_addr p else Some (mac_text (last (if_packets name l)))),
      raw_hd_addr = (if if_packets name l = [] then raw_hd_addr p
                     else Some (raw_mac_text (last (if_packets name l))))\<rparr>"

lemma if_filled_Nil: "if_filled name [] p = p"
  by (simp add: if_filled_def)

lemma if_filled_Cons:
  "if_filled name ((n, addr) # rest) p =
     (case addr of
        None \<Rightarrow> if_filled name rest p
      | Some a \<Rightarrow> if n \<noteq> name then if_filled name rest p
          else if_filled name rest
                 (case a of Inet t \<Rightarrow> p\<lparr>ip_addr := Some t\<rparr>
                  | Packet bs \<Rightarrow> p\<lparr>hd_addr := Some (mac_text bs), raw_hd_addr := Some (raw_mac_text bs)\<rparr>
                  | Other_Family \<Rightarrow> p))"
  by (cases p) (simp add: if_filled_def split: option.split if_addr.split)

lemma if_collect_node:
  "name \<noteq> ''lo'' \<Longrightarrow> if_name p = name \<Longrightarrow>
   if_collect name l buf raw (If_List [p]) = Inr (If_List [if_filled name l p])"
proof (induction l arbitrary: buf raw p)
  case Nil
  then show ?case by (simp add: if_filled_Nil)
next
  case (Cons e rest)
  obtain n addr where e: "e = (n, addr)" by (cases e)
  show ?case
  proof (cases "\<exists>a. addr = Some a \<and> n = name")
    case False
    then show ?thesis using Cons e by (auto simp: if_filled_Cons split: option.split)
  next
    case True
    then obtain a where "addr = Some a" "n = name" by auto
    then show ?thesis using Cons e
      by (cases a) (simp_all add: if_filled_Cons if_prt_if_info_def if_add_to_link_def if_store_def)
  qed
qed

lemma if_collect_null:
  "name \<noteq> ''lo'' \<Longrightarrow> if_inets name l \<noteq> [] \<or> if_packets name l \<noteq> [] \<Longrightarrow>
   if_collect name l buf raw If_Null = if_collect name l buf raw (If_List [if_node name])"
proof (induction l arbitrary: buf raw)
  case (Cons e rest)
  obtain n addr where e: "e = (n, addr)" by (cases e)
  show ?case
  proof (cases "\<exists>a. addr = Some a \<and> n = name \<and> a \<noteq> Other_Family")
    case False
    then have "if_inets name (e # rest) = if_inets name rest" "if_packets name (e # rest) = if_packets name rest"
      using e by (cases addr; cases "the addr"; auto)+
    then show ?thesis using Cons False e
      by (auto simp: if_prt_if_info_def split: option.split if_addr.split)
  next
    case True
    then obtain a where "addr = Some a" "n = name" "a \<noteq> Other_Family" by auto
    then show ?thesis using Cons(2) e
      by (cases a) (simp_all add: if_prt_if_info_def if_add_to_link_def if_node_def)
  qed
qed simp

lemma if_collect_dangling:
  "if_collect name l buf raw If_Dangling \<in> {Inl Use_After_Free, Inr If_Dangling}"
proof (induction l arbitrary: buf raw)
  case (Cons e rest)
  obtain n addr where e: "e = (n, addr)" by (cases e)
  show ?case
  proof (cases addr)
    case None
    then show ?thesis using Cons e by simp
  next
    case (Some a)
    obtain r b' w' where "if_prt_if_info a buf raw = (r, b', w')" by (cases "if_prt_if_info a buf raw")
    then show ?thesis using Cons e Some by (simp add: if_add_to_link_def)
  qed
qed simp

lemma if_dangling_faults: "utl_IfGetInfo ifas name ip mac raw If_Dangling = Inl Use_After_Free"
proof (cases ifas)
  case None
  then show ?thesis by (simp add: utl_IfGetInfo_def if_get_if_info_def if_free_def)
next
  case (Some l)
  then show ?thesis using if_collect_dangling [of name l "[]" "[]"]
    by (auto simp: utl_IfGetInfo_def if_get_if_info_def if_free_def if_field_def)
qed

text \<open>
  the first call of \<^verbatim>\<open>utl_IfGetInfo\<close> for an interface that has both kinds of address returns its
  last IPv4 address and the two texts of its last hardware address. It leaves the static pointer at
  the freed list, so that every later call, with any arguments and whatever the system answers,
  uses freed memory.
\<close>

lemma if_info_second_call_faults:
  assumes "name \<noteq> ''lo''" "if_inets name l \<noteq> []" "if_packets name l \<noteq> []"
  shows "case utl_IfGetInfo (Some l) name True True True If_Null of
           Inl e \<Rightarrow> False
         | Inr (ret, res, ptr) \<Rightarrow>
             ret = 0 \<and> res = \<lparr>out_ip = Some (last (if_inets name l)),
                              out_mac = Some (mac_text (last (if_packets name l))),
                              out_raw = Some (raw_mac_text (last (if_packets name l)))\<rparr> \<and>
             utl_IfGetInfo ifas name' ip mac raw ptr = Inl Use_After_Free"
proof -
  have "if_collect name l [] [] If_Null = Inr (If_List [if_filled name l (if_node name)])"
    using assms by (simp add: if_collect_null if_collect_node if_node_def)
  then show ?thesis using assms(2,3)
    by (simp add: utl_IfGetInfo_def [of "Some l" name] if_get_if_info_def if_field_def if_free_def if_filled_def
        if_dangling_faults)
qed

lemma if_info_second_call_faults_witness:
  "case utl_IfGetInfo (Some [(''lo'', Some (Inet ''127.0.0.1'')), (''eth0'', Some (Packet [0, 17, 34, 51, 68, 255])),
                             (''eth0'', Some (Inet ''10.0.0.2''))]) ''eth0'' True True True If_Null of
     Inl e \<Rightarrow> False
   | Inr (ret, res, ptr) \<Rightarrow>
       ret = 0 \<and> res = \<lparr>out_ip = Some ''10.0.0.2'', out_mac = Some ''00:11:22:33:44:ff'',
                        out_raw = Some ''0011223344ff''\<rparr> \<and>
       utl_IfGetInfo None ''eth0'' False False False ptr = Inl Use_After_Free"
proof -
  let ?l = "[(''lo'', Some (Inet ''127.0.0.1'')), (''eth0'', Some (Packet [0, 17, 34, 51, 68, 255])),
             (''eth0'', Some (Inet ''10.0.0.2''))]"
  have a: "mac_text (last (if_packets ''eth0'' ?l)) = ''00:11:22:33:44:ff''"
    "raw_mac_text (last (if_packets ''eth0'' ?l)) = ''0011223344ff''"
    "last (if_inets ''eth0'' ?l) = ''10.0.0.2''" by code_simp+
  have "''eth0'' \<noteq> ''lo''" "if_inets ''eth0'' ?l \<noteq> []" "if_packets ''eth0'' ?l \<noteq> []" by simp_all
  from if_info_second_call_faults [OF this, of None "''eth0''" False False False]
  show ?thesis unfolding a .
qed

end
