(* ===== verification/Utils.thy ===== *)
theory Utils
  imports Cfg_Api Md5 Net Timer Ifinfo
begin

text \<open>
  The helpers of \<^verbatim>\<open>utils.c\<close>: named pipes, the killing of a process, daily time windows, FTP addresses,
  session tokens, directories by date, pid files and the index of a name. Strings are character
  lists; the local buffer \<^verbatim>\<open>str\<close> of 32 bytes is a list of 32 characters with its NULs.
\<close>

section \<open>Named pipes\<close>

definition PIPE_BUF :: int where "PIPE_BUF = 4096"

text \<open>\<open>exists\<close> is the answer of \<^verbatim>\<open>access\<close>, the numbers those of \<^verbatim>\<open>mkfifo\<close> and \<^verbatim>\<open>open\<close>.\<close>

definition FifoOpen :: "string option \<Rightarrow> bool \<Rightarrow> int \<Rightarrow> int \<Rightarrow> int" where
  "FifoOpen fifo_name exists r_mkfifo fd =
     (if fifo_name = None then -1
      else if \<not> exists \<and> r_mkfifo < 0 then -2
      else if fd < 0 then -3 else fd)"

definition FifoClose :: "int \<Rightarrow> int \<Rightarrow> int" where
  "FifoClose fifo_fd r_close = (if 0 \<le> fifo_fd then r_close else 0)"

text \<open>
  \<open>buf\<close> is the message structure the caller passes; a piece longer than it overruns it. A negative
  count is refused by \<^verbatim>\<open>read\<close>.
\<close>

definition FifoRevMsg :: "u8 list \<Rightarrow> u32 \<Rightarrow> inbox \<Rightarrow> (int \<times> u8 list \<times> inbox) cres" where
  "FifoRevMsg buf MsgBodyLen ib =
     (let len = sint MsgBodyLen in
      if PIPE_BUF \<le> len then Inr (-1, buf, ib)
      else cbind (buf_write buf 0 (le_bytes 8 (0xFFFF :: u64))) (\<lambda>buf1.
        if len < 0 then Inr (-4, buf1, ib)
        else case sock_recv ib (nat len) of (r, bs, ib') \<Rightarrow>
          if r \<le> 0 then Inr (-4, buf1, ib')
          else cbind (buf_write buf1 0 bs) (\<lambda>buf2. Inr (r, buf2, ib'))))"

text \<open>The message goes out with its 8-byte type; the result counts the bytes written.\<close>

definition FifoSend ::
  "string option \<Rightarrow> u8 list option \<Rightarrow> u32 \<Rightarrow> bool \<Rightarrow> int \<Rightarrow> int \<Rightarrow> int list \<Rightarrow> (int \<times> u8 list) cres" where
  "FifoSend fifo_name MsgBuf MsgBodyLen exists r_mkfifo fd ks =
     (case MsgBuf of
        None \<Rightarrow> Inr (-1, [])
      | Some buf \<Rightarrow>
          let len = sint (MsgBodyLen + 8) in
          if fifo_name = None then Inr (-1, [])
          else if \<not> exists \<and> r_mkfifo < 0 then Inr (-2, [])
          else if fd < 0 then Inr (-3, [])
          else if PIPE_BUF \<le> len then Inr (-4, [])
          else if length buf < nat len then Inl Out_Of_Bounds
          else let (r, cnt, rest, wire) = send_loop ks (take (nat len) buf) 0 0 [] in Inr (int cnt, wire))"

section \<open>Killing a process\<close>

text \<open>The answers of \<^verbatim>\<open>waitpid\<close> with \<^verbatim>\<open>WNOHANG\<close>, one per round: \<open>None\<close> when the process runs on.\<close>

primrec wait_rounds :: "(nat \<Rightarrow> int) \<Rightarrow> nat \<Rightarrow> int option" where
  "wait_rounds q 0 = None"
| "wait_rounds q (Suc k) =
     (case wait_rounds q k of
        Some r \<Rightarrow> Some r
      | None \<Rightarrow> if q k < 0 then Some (-3) else if q k = 0 then None else Some 0)"

text \<open>
  \<open>waits\<close> are the answers of the blocking \<^verbatim>\<open>waitpid\<close> after \<^verbatim>\<open>SIGKILL\<close>; the call has not returned
  (\<open>None\<close>) while they are negative.
\<close>

definition utl_KillForced :: "int \<Rightarrow> int \<Rightarrow> (nat \<Rightarrow> int) \<Rightarrow> int \<Rightarrow> int list \<Rightarrow> int option" where
  "utl_KillForced pid r_term q r_kill waits =
     (if pid \<le> 0 then Some (-1)
      else if r_term < 0 then Some (-2)
      else case wait_rounds q 100 of
        Some r \<Rightarrow> Some r
      | None \<Rightarrow> if r_kill < 0 then Some (-5)
                else if \<exists>r \<in> set waits. 0 \<le> r then Some 1 else None)"

section \<open>The local string buffer\<close>

text \<open>
  \<^verbatim>\<open>strncpy (dst, src, n)\<close> with a length that the code computes: a negative one is a huge \<^verbatim>\<open>size_t\<close>.
  No terminator is written when the source has \<open>n\<close> characters or more.
\<close>

definition chars_ncpy :: "string \<Rightarrow> string \<Rightarrow> int \<Rightarrow> string cres" where
  "chars_ncpy dst src n =
     (if n < 0 \<or> int (length dst) < n then Inl Out_Of_Bounds
      else let s = take (nat n) src in Inr (s @ replicate (nat n - length s) NUL @ drop (nat n) dst))"

text \<open>\<^verbatim>\<open>strchr\<close>: the offset of the first occurrence.\<close>

definition c_strchr :: "string \<Rightarrow> char \<Rightarrow> nat option" where
  "c_strchr s c = (if c \<in> set s then Some (length (takeWhile (\<lambda>x. x \<noteq> c) s)) else None)"

section \<open>Time windows\<close>

text \<open>
  One end of the window: the hour is copied to the buffer and read from there, the minute is read
  behind the colon. Without a colon the length is the negative of an address.
\<close>

definition read_hh_mm :: "string \<Rightarrow> string \<Rightarrow> (int \<times> int \<times> string) cres" where
  "read_hh_mm str p1 =
     (case c_strchr p1 (CHR '':'') of
        None \<Rightarrow> Inl Out_Of_Bounds
      | Some k \<Rightarrow> cbind (chars_ncpy str p1 (int k)) (\<lambda>str1.
          cbind (buf_string str1) (\<lambda>h. Inr (c_atoi h, c_atoi (drop (k + 1) p1), str1))))"

definition utl_IsInDuration :: "string option \<Rightarrow> string option \<Rightarrow> int \<Rightarrow> int \<Rightarrow> int cres" where
  "utl_IsInDuration pBeginTime pEndTime hour minute =
     (case pBeginTime of None \<Rightarrow> Inr (-1) | Some b \<Rightarrow>
      case pEndTime of None \<Rightarrow> Inr (-1) | Some e \<Rightarrow>
        cbind (read_hh_mm (replicate 32 NUL) b) (\<lambda>(bh, bm, str1).
        cbind (read_hh_mm str1 e) (\<lambda>(eh, em, str2).
          Inr (if (hour = bh \<and> minute \<ge> bm \<or> hour > bh) \<and> (hour = eh \<and> minute < em \<or> hour < eh)
               then 1 else 0))))"

section \<open>FTP addresses\<close>

record ftpsvr =
  ftp_user :: string
  ftp_passwd :: string
  ftp_server :: string
  ftp_port :: int

text \<open>
  The three copies share the buffer. A null address is skipped; the result is printed at the end,
  so a null structure is a fault.
\<close>

definition utl_NetSetFtpSvr :: "string option \<Rightarrow> ftpsvr option \<Rightarrow> ftpsvr cres" where
  "utl_NetSetFtpSvr iFtpUrl oFtpConf =
     (case oFtpConf of None \<Rightarrow> Inl Null_Deref | Some conf \<Rightarrow>
      case iFtpUrl of None \<Rightarrow> Inr conf | Some url \<Rightarrow>
      case c_strchr url (CHR ''/'') of None \<Rightarrow> Inl Null_Deref | Some a \<Rightarrow>
      let p1 = drop a url in
      case c_strchr p1 (CHR '':'') of None \<Rightarrow> Inl Out_Of_Bounds | Some k1 \<Rightarrow>
      cbind (chars_ncpy (replicate 32 NUL) (drop 2 p1) (int k1 - 2)) (\<lambda>str1.
      cbind (buf_string str1) (\<lambda>user.
      let p2 = drop k1 p1 in
      case c_strchr p2 (CHR ''@'') of None \<Rightarrow> Inl Out_Of_Bounds | Some k2 \<Rightarrow>
      cbind (chars_ncpy str1 (drop 1 p2) (int k2 - 1)) (\<lambda>str2.
      cbind (buf_string str2) (\<lambda>passwd.
      let p3 = drop k2 p2 in
      case c_strchr p3 (CHR '':'') of None \<Rightarrow> Inl Out_Of_Bounds | Some k3 \<Rightarrow>
      cbind (chars_ncpy str2 (drop 1 p3) (int k3 - 1)) (\<lambda>str3.
      cbind (buf_string str3) (\<lambda>server.
        Inr \<lparr>ftp_user = user, ftp_passwd = passwd, ftp_server = server,
             ftp_port = c_atoi (drop (k3 + 1) p3)\<rparr>)))))))"

section \<open>Tokens\<close>

text \<open>\<open>ctx\<close> is the uninitialised context on the stack; the result is the digest and its hexadecimal text.\<close>

definition utl_TokenCreate :: "md5_ctx \<Rightarrow> string \<Rightarrow> u64 \<Rightarrow> u8 list \<times> string" where
  "utl_TokenCreate ctx str seconds =
     (let ctx1 = md5_update (md5_init ctx) (map of_char str);
          ctx2 = md5_update ctx1 (le_bytes 8 seconds);
          sum = fst (md5_final ctx2)
      in (sum, concat (map hex2 sum)))"

section \<open>Dates as text and as directories\<close>

definition zero_pad :: "nat \<Rightarrow> int \<Rightarrow> string" where
  "zero_pad n i = (let d = dec i in replicate (n - length d) (CHR ''0'') @ d)"

text \<open>\<open>t\<close> is what \<^verbatim>\<open>localtime\<close> returns, with its month from 0 and its year from 1900.\<close>

definition utl_TimeGetStamp :: "c_tm \<Rightarrow> string" where
  "utl_TimeGetStamp t =
     zero_pad 4 (tm_year t + 1900) @ ''-'' @ zero_pad 2 (tm_mon t + 1) @ ''-'' @ zero_pad 2 (tm_mday t) @ '' '' @
     zero_pad 2 (tm_hour t) @ '':'' @ zero_pad 2 (tm_min t) @ '':'' @ zero_pad 2 (tm_sec t)"

text \<open>
  The directories that exist; \<open>can\<close> says which ones \<^verbatim>\<open>mkdir\<close> is able to make. The command is put
  together in 128 bytes.
\<close>

definition utl_NewDir :: "(string \<Rightarrow> bool) \<Rightarrow> string \<Rightarrow> (string \<Rightarrow> bool) \<Rightarrow> (int \<times> (string \<Rightarrow> bool)) cres" where
  "utl_NewDir can dir dirs =
     (if dirs dir then Inr (0, dirs)
      else if 128 \<le> length (''mkdir '' @ dir @ '' 2>/dev/null'') then Inl Out_Of_Bounds
      else if can dir then Inr (0, dirs(dir := True)) else Inr (-1, dirs))"

definition year_dir :: "string \<Rightarrow> c_tm \<Rightarrow> string" where
  "year_dir TopDir t = TopDir @ ''/'' @ zero_pad 4 (tm_year t + 1900)"

definition month_dir :: "string \<Rightarrow> c_tm \<Rightarrow> nat \<Rightarrow> string" where
  "month_dir TopDir t i = year_dir TopDir t @ ''/'' @ zero_pad 2 (tm_mon t + 1 + int i)"

fun make_months ::
  "(string \<Rightarrow> bool) \<Rightarrow> string \<Rightarrow> c_tm \<Rightarrow> nat list \<Rightarrow> int \<Rightarrow> (string \<Rightarrow> bool) \<Rightarrow> (int \<times> (string \<Rightarrow> bool)) cres" where
  "make_months can TopDir t [] ret dirs = Inr (ret, dirs)"
| "make_months can TopDir t (i # rest) ret dirs =
     (if 256 \<le> length (month_dir TopDir t i) then Inl Out_Of_Bounds
      else cbind (utl_NewDir can (month_dir TopDir t i) dirs) (\<lambda>(r, dirs'). make_months can TopDir t rest r dirs'))"

definition utl_SetupDateAsDir ::
  "(string \<Rightarrow> bool) \<Rightarrow> string \<Rightarrow> c_tm \<Rightarrow> (string \<Rightarrow> bool) \<Rightarrow> (int \<times> (string \<Rightarrow> bool)) cres" where
  "utl_SetupDateAsDir can TopDir t dirs =
     (if 256 \<le> length (year_dir TopDir t) then Inl Out_Of_Bounds
      else cbind (utl_NewDir can (year_dir TopDir t) dirs) (\<lambda>(ret, dirs1).
        if ret = 0 then make_months can TopDir t [0..<12] ret dirs1 else Inr (ret, dirs1)))"

section \<open>Pid files and names\<close>

definition utl_LogMyPid :: "world \<Rightarrow> string option \<Rightarrow> 32 word \<Rightarrow> (int \<times> world) cres" where
  "utl_LogMyPid w pidfile pid = Cfg_WriteInt w pidfile (Some ''pid'') (Some ''pid'') (scast pid)"

definition utl_GetMyPid :: "world \<Rightarrow> string option \<Rightarrow> int cres" where
  "utl_GetMyPid w pidfile =
     cbind (Cfg_ReadInt w pidfile (Some ''pid'') (Some ''pid'') (-1)) (\<lambda>(ret, v).
       Inr (case v of None \<Rightarrow> -1 | Some pid \<Rightarrow> pid))"

text \<open>The array has 64 entries or a null one before; reading past its end is a fault.\<close>

fun find_name :: "string \<Rightarrow> string option list \<Rightarrow> nat \<Rightarrow> nat \<Rightarrow> int cres" where
  "find_name name arr i 0 = Inr (-1)"
| "find_name name [] i (Suc n) = Inl Out_Of_Bounds"
| "find_name name (None # arr) i (Suc n) = Inr (-1)"
| "find_name name (Some s # arr) i (Suc n) = (if name = s then Inr (int i) else find_name name arr (Suc i) n)"

definition JsonFindIndex :: "string \<Rightarrow> string option list \<Rightarrow> int cres" where
  "JsonFindIndex JsonName NameArray = find_name JsonName NameArray 0 64"

end
