(* ===== verification/Json_String.thy ===== *)
theory Json_String
  imports Cfg_Text
begin

text \<open>
  The strings of \<^verbatim>\<open>libjson.c\<close>: \<^verbatim>\<open>parse_hex4\<close>, the transcoding from UTF-16 escapes to UTF-8,
  \<^verbatim>\<open>parse_string\<close> and \<^verbatim>\<open>print_string_ptr\<close>. A pointer into a text is what is left of the text from there;
  the empty list is the terminator, which can be read but not passed.
\<close>

section \<open>Results of the parser\<close>

text \<open>
  A value with the rest of the text, a null result with the place stored in the error pointer, or a
  fault. \<open>P_Fuel\<close> is for the recursion of the values only.
\<close>

datatype 'a pres = P_Ok 'a string | P_Fail string | P_Fault c_fault | P_Fuel

fun pbind :: "'a pres \<Rightarrow> ('a \<Rightarrow> string \<Rightarrow> 'b pres) \<Rightarrow> 'b pres" where
  "pbind (P_Ok x r) f = f x r"
| "pbind (P_Fail e) f = P_Fail e"
| "pbind (P_Fault e) f = P_Fault e"
| "pbind P_Fuel f = P_Fuel"

abbreviation QUOTE :: char where "QUOTE \<equiv> CHR 0x22"
abbreviation BSL :: char where "BSL \<equiv> CHR 0x5C"

section \<open>Hexadecimal escapes\<close>

definition hex_value :: "char \<Rightarrow> nat option" where
  "hex_value c =
     (let n = of_char c in
      if 48 \<le> n \<and> n \<le> 57 then Some (n - 48)
      else if 65 \<le> n \<and> n \<le> 70 then Some (n - 55)
      else if 97 \<le> n \<and> n \<le> 102 then Some (n - 87)
      else None)"

text \<open>The first character that is no digit ends the reading with 0.\<close>

fun hex_run :: "nat \<Rightarrow> u32 \<Rightarrow> string \<Rightarrow> u32" where
  "hex_run 0 h s = h"
| "hex_run (Suc k) h [] = 0"
| "hex_run (Suc k) h (c # cs) =
     (case hex_value c of None \<Rightarrow> 0 | Some v \<Rightarrow> hex_run k (push_bit 4 h + of_nat v) cs)"

definition parse_hex4 :: "string \<Rightarrow> u32" where
  "parse_hex4 s = hex_run 4 0 s"

section \<open>UTF-8\<close>

definition utf8_len :: "u32 \<Rightarrow> nat" where
  "utf8_len uc = (if uc < 0x80 then 1 else if uc < 0x800 then 2 else if uc < 0x10000 then 3 else 4)"

definition firstByteMark :: "u8 list" where
  "firstByteMark = [0x00, 0x00, 0xC0, 0xE0, 0xF0, 0xF8, 0xFC]"

text \<open>The falling cases of the \<^verbatim>\<open>switch\<close>: the bytes are stored from the last one to the first.\<close>

fun utf8_cont :: "nat \<Rightarrow> u32 \<Rightarrow> u8 list \<Rightarrow> u32 \<times> u8 list" where
  "utf8_cont 0 uc bs = (uc, bs)"
| "utf8_cont (Suc k) uc bs = utf8_cont k (drop_bit 6 uc) (ucast ((uc OR 0x80) AND 0xBF) # bs)"

definition utf8_bytes :: "u32 \<Rightarrow> u8 list" where
  "utf8_bytes uc =
     (let len = utf8_len uc; (uc', bs) = utf8_cont (len - 1) uc []
      in (ucast uc' OR firstByteMark ! len) # bs)"

definition utf8_chars :: "u32 \<Rightarrow> string" where
  "utf8_chars uc = map (\<lambda>b. char_of (unat b)) (utf8_bytes uc)"

section \<open>\<^verbatim>\<open>parse_string\<close>\<close>

text \<open>
  The first loop: how many characters there are to the closing quote or the terminator, and \<open>len\<close>.
  A backslash in front of the terminator takes the pointer past it.
\<close>

fun scan_string :: "string \<Rightarrow> (nat \<times> nat) cres" where
  "scan_string [] = Inr (0, 0)"
| "scan_string (c # cs) =
     (if c = QUOTE then Inr (0, 0)
      else if c = BSL then
        (case cs of
           [] \<Rightarrow> Inl Out_Of_Bounds
         | d # ds \<Rightarrow> cbind (scan_string ds) (\<lambda>(k, len). Inr (k + 2, len + 1)))
      else cbind (scan_string cs) (\<lambda>(k, len). Inr (k + 1, len + 1)))"

definition escape_value :: "char \<Rightarrow> char" where
  "escape_value d =
     (if d = CHR ''b'' then CHR 0x08 else if d = CHR ''f'' then CHR 0x0C
      else if d = CHR ''n'' then CHR 0x0A else if d = CHR ''r'' then CHR 0x0D
      else if d = CHR ''t'' then CHR 0x09 else d)"

text \<open>
  The case \<^verbatim>\<open>'u'\<close>, on the text behind the letter with \<open>k\<close> characters left up to the end: the code
  point and the number of characters consumed, or nothing when the escape is refused.
\<close>

definition unicode_escape :: "nat \<Rightarrow> string \<Rightarrow> (u32 \<times> nat) option" where
  "unicode_escape k ds =
     (let uc = parse_hex4 ds in
      if k \<le> 3 then None
      else if 0xDC00 \<le> uc \<and> uc \<le> 0xDFFF \<or> uc = 0 then None
      else if 0xD800 \<le> uc \<and> uc \<le> 0xDBFF then
        (if k < 9 then None
         else case drop 4 ds of
             c1 # c2 # r \<Rightarrow>
               if c1 \<noteq> BSL \<or> c2 \<noteq> CHR ''u'' then None
               else
                 let uc2 = parse_hex4 r in
                 if uc2 < 0xDC00 \<or> 0xDFFF < uc2 then None
                 else Some (0x10000 + (push_bit 10 (uc AND 0x3FF) OR (uc2 AND 0x3FF)), 10)
           | _ \<Rightarrow> None)
      else Some (uc, 4))"

text \<open>The second loop, with \<open>k\<close> characters left: the characters stored, or nothing for an invalid escape.\<close>

function decode_string :: "nat \<Rightarrow> string \<Rightarrow> string option cres" where
  "decode_string k s =
     (if k = 0 then Inr (Some [])
      else case s of
        [] \<Rightarrow> Inl Out_Of_Bounds
      | c # cs \<Rightarrow>
          if c \<noteq> BSL then cbind (decode_string (k - 1) cs) (\<lambda>r. Inr (map_option ((#) c) r))
          else case cs of
            [] \<Rightarrow> Inl Out_Of_Bounds
          | d # ds \<Rightarrow>
              if d = CHR ''u'' then
                (case unicode_escape (k - 2) ds of
                   None \<Rightarrow> Inr None
                 | Some (uc, n) \<Rightarrow>
                     cbind (decode_string (k - 2 - n) (drop n ds)) (\<lambda>r. Inr (map_option ((@) (utf8_chars uc)) r)))
              else cbind (decode_string (k - 2) ds) (\<lambda>r. Inr (map_option ((#) (escape_value d)) r)))"
  by pat_completeness auto
termination by (relation "measure fst") auto

declare decode_string.simps [simp del]

text \<open>The buffer has \<open>len + 1\<close> bytes; the terminator needs one.\<close>

definition parse_string :: "string \<Rightarrow> string pres" where
  "parse_string str =
     (case str of
        [] \<Rightarrow> P_Fail str
      | q # s \<Rightarrow>
          if q \<noteq> QUOTE then P_Fail str
          else case scan_string s of
            Inl e \<Rightarrow> P_Fault e
          | Inr (k, len) \<Rightarrow>
              (case decode_string k s of
                 Inl e \<Rightarrow> P_Fault e
               | Inr None \<Rightarrow> P_Fail str
               | Inr (Some out) \<Rightarrow>
                   if len < length out then P_Fault Out_Of_Bounds
                   else P_Ok out (case drop k s of
                                    c # r \<Rightarrow> if c = QUOTE then r else c # r
                                  | [] \<Rightarrow> [])))"

section \<open>\<^verbatim>\<open>print_string_ptr\<close>\<close>

definition special_char :: "char \<Rightarrow> bool" where
  "special_char c \<longleftrightarrow> (of_char c :: nat) < 32 \<or> c = QUOTE \<or> c = BSL"

text \<open>The bytes that a character takes in the second loop, beyond the backslash, and its size in the first.\<close>

definition escape_text :: "char \<Rightarrow> string" where
  "escape_text c =
     (if \<not> special_char c then [c]
      else BSL #
        (if c = BSL then [BSL] else if c = QUOTE then [QUOTE]
         else if c = CHR 0x08 then ''b'' else if c = CHR 0x0C then ''f''
         else if c = CHR 0x0A then ''n'' else if c = CHR 0x0D then ''r''
         else if c = CHR 0x09 then ''t''
         else ''u00'' @ [hex_char (of_char c div 16), hex_char (of_char c mod 16)]))"

definition escape_size :: "char \<Rightarrow> nat" where
  "escape_size c =
     (if c \<in> set [QUOTE, BSL, CHR 0x08, CHR 0x0C, CHR 0x0A, CHR 0x0D, CHR 0x09] then 2
      else if (of_char c :: nat) < 32 then 6 else 1)"

text \<open>The size that is allocated, and the text that is written with its terminator.\<close>

definition print_string_size :: "string option \<Rightarrow> nat" where
  "print_string_size so =
     (case so of
        None \<Rightarrow> 3
      | Some s \<Rightarrow> if list_ex special_char s then sum_list (map escape_size s) + 3 else length s + 3)"

definition print_string_text :: "string option \<Rightarrow> string" where
  "print_string_text so =
     (case so of
        None \<Rightarrow> [QUOTE, QUOTE]
      | Some s \<Rightarrow> if list_ex special_char s then QUOTE # concat (map escape_text s) @ [QUOTE]
                  else QUOTE # s @ [QUOTE])"

definition print_string_ptr :: "string option \<Rightarrow> string cres" where
  "print_string_ptr so =
     (if print_string_size so < length (print_string_text so) + 1 then Inl Out_Of_Bounds
      else Inr (print_string_text so))"

end
