(* ===== verification/Json_String_Props.thy ===== *)
theory Json_String_Props
  imports Json_String
begin

text \<open>
  The strings of \<^verbatim>\<open>libjson.c\<close>: the transcoding is UTF-8, the two loops of \<^verbatim>\<open>parse_string\<close> agree on the
  size of the buffer, and what \<^verbatim>\<open>print_string_ptr\<close> writes is read back.
\<close>

section \<open>UTF-8\<close>

text \<open>The encoding as the Unicode standard states it.\<close>

definition utf8_spec :: "nat \<Rightarrow> string" where
  "utf8_spec cp =
     (if cp < 0x80 then [char_of cp]
      else if cp < 0x800 then [char_of (0xC0 + cp div 64), char_of (0x80 + cp mod 64)]
      else if cp < 0x10000 then
        [char_of (0xE0 + cp div 4096), char_of (0x80 + cp div 64 mod 64), char_of (0x80 + cp mod 64)]
      else
        [char_of (0xF0 + cp div 262144), char_of (0x80 + cp div 4096 mod 64),
         char_of (0x80 + cp div 64 mod 64), char_of (0x80 + cp mod 64)])"

lemma byte_cont: "\<forall>m \<in> set [0..<256]. ((of_nat m :: u8) OR 0x80) AND 0xBF = 0x80 + of_nat (m mod 64)"
  by code_simp

lemma nat_mark_2: "\<forall>m \<in> set [0..<32]. m OR 192 = 192 + (m :: nat)"
  by code_simp

lemma nat_mark_3: "\<forall>m \<in> set [0..<16]. m OR 224 = 224 + (m :: nat)"
  by code_simp

lemma nat_mark_4: "\<forall>m \<in> set [0..<8]. m OR 240 = 240 + (m :: nat)"
  by code_simp

lemma cont_byte: "unat (ucast ((uc OR 0x80) AND 0xBF) :: u8) = 128 + unat (uc :: u32) mod 64"
proof -
  define m where "m = unat uc mod 256"
  have "(ucast uc :: u8) = of_nat m"
    by (simp add: word_unat_eq_iff m_def unsigned_ucast_eq take_bit_eq_mod unat_of_nat)
  then have "(ucast ((uc OR 0x80) AND 0xBF) :: u8) = (of_nat m OR 0x80) AND 0xBF"
    by (simp add: unsigned_and_eq unsigned_or_eq)
  also have "\<dots> = 0x80 + of_nat (m mod 64)" using byte_cont by (simp add: m_def)
  also have "\<dots> = of_nat (128 + m mod 64)" by simp
  finally have "unat (ucast ((uc OR 0x80) AND 0xBF) :: u8) = (128 + m mod 64) mod 256"
    by (simp only: unat_of_nat) simp
  also have "\<dots> = 128 + m mod 64" by simp
  finally show ?thesis by (simp add: m_def mod_mod_cancel)
qed

lemma lead_byte:
  "unat (uc :: u32) < 128 \<Longrightarrow> unat (ucast uc OR 0 :: u8) = unat uc"
  "unat uc < 32 \<Longrightarrow> unat (ucast uc OR 0xC0 :: u8) = 192 + unat uc"
  "unat uc < 16 \<Longrightarrow> unat (ucast uc OR 0xE0 :: u8) = 224 + unat uc"
  "unat uc < 8 \<Longrightarrow> unat (ucast uc OR 0xF0 :: u8) = 240 + unat uc"
  using nat_mark_2 nat_mark_3 nat_mark_4 by (simp_all add: unsigned_ucast_eq unsigned_or_eq take_bit_nat_eq_self)

lemma unat_drop: "unat (drop_bit k (uc :: u32)) = unat uc div 2 ^ k"
proof -
  have "unat uc < 2 ^ 32" using unsigned_less [of uc, where ?'a = nat] by simp
  then show ?thesis
    by (simp only: unsigned_drop_bit_eq) (simp add: drop_bit_eq_div take_bit_nat_eq_self)
qed

lemma utf8_chars_spec:
  assumes "unat uc < 0x110000"
  shows "utf8_chars uc = utf8_spec (unat uc)"
proof -
  have cmp: "uc < 0x80 \<longleftrightarrow> unat uc < 0x80" "uc < 0x800 \<longleftrightarrow> unat uc < 0x800" "uc < 0x10000 \<longleftrightarrow> unat uc < 0x10000"
    by (simp_all add: word_less_nat_alt)
  consider "unat uc < 0x80" | "0x80 \<le> unat uc" "unat uc < 0x800" | "0x800 \<le> unat uc" "unat uc < 0x10000" | "0x10000 \<le> unat uc"
    by linarith
  then show ?thesis
  proof cases
    case 1
    then have "utf8_len uc = 1" by (simp add: utf8_len_def cmp)
    then show ?thesis using 1 lead_byte(1) [of uc]
      by (simp add: utf8_chars_def utf8_bytes_def firstByteMark_def utf8_spec_def)
  next
    case 2
    then have "utf8_len uc = Suc (Suc 0)" by (simp add: utf8_len_def cmp)
    then show ?thesis using 2 lead_byte(2) [of "drop_bit 6 uc"]
      by (simp add: utf8_chars_def utf8_bytes_def firstByteMark_def utf8_spec_def cont_byte unat_drop)
  next
    case 3
    then have "utf8_len uc = Suc (Suc (Suc 0))" by (simp add: utf8_len_def cmp)
    then show ?thesis using 3 lead_byte(3) [of "drop_bit 12 uc"]
      by (simp add: utf8_chars_def utf8_bytes_def firstByteMark_def utf8_spec_def cont_byte unat_drop)
  next
    case 4
    then have "utf8_len uc = Suc (Suc (Suc (Suc 0)))" by (simp add: utf8_len_def cmp)
    then show ?thesis using 4 assms lead_byte(4) [of "drop_bit 18 uc"]
      by (simp add: utf8_chars_def utf8_bytes_def firstByteMark_def utf8_spec_def cont_byte unat_drop)
  qed
qed

section \<open>The loops of \<^verbatim>\<open>parse_string\<close>\<close>

lemma hex_value_plain: "hex_value c = Some v \<Longrightarrow> c \<noteq> QUOTE \<and> c \<noteq> BSL"
  by (auto simp: hex_value_def Let_def)

lemma hex_run_nonzero:
  assumes "hex_run (Suc k) h s \<noteq> 0"
  obtains c cs v where "s = c # cs" "hex_value c = Some v" "hex_run k (push_bit 4 h + of_nat v) cs \<noteq> 0"
  using assms by (cases s) (auto split: option.splits)

lemma parse_hex4_digits:
  assumes "parse_hex4 s \<noteq> 0"
  obtains a b c d r where "s = [a, b, c, d] @ r"
    "hex_value a \<noteq> None" "hex_value b \<noteq> None" "hex_value c \<noteq> None" "hex_value d \<noteq> None"
proof -
  have "hex_run (Suc (Suc (Suc (Suc 0)))) 0 s \<noteq> 0"
    using assms by (simp add: parse_hex4_def numeral_eq_Suc del: hex_run.simps)
  then obtain a v r1 h1 where 1: "s = a # r1" "hex_value a = Some v" "hex_run (Suc (Suc (Suc 0))) h1 r1 \<noteq> 0"
    by (rule hex_run_nonzero) (rule that)
  from 1(3) obtain b w r2 h2 where 2: "r1 = b # r2" "hex_value b = Some w" "hex_run (Suc (Suc 0)) h2 r2 \<noteq> 0"
    by (rule hex_run_nonzero) (rule that)
  from 2(3) obtain c x r3 h3 where 3: "r2 = c # r3" "hex_value c = Some x" "hex_run (Suc 0) h3 r3 \<noteq> 0"
    by (rule hex_run_nonzero) (rule that)
  from 3(3) obtain d y r4 h4 where 4: "r3 = d # r4" "hex_value d = Some y" "hex_run 0 h4 r4 \<noteq> 0"
    by (rule hex_run_nonzero) (rule that)
  show thesis by (rule that [of a b c d r4]) (simp_all add: 1 2 3 4)
qed

lemma scan_plain: "c \<noteq> QUOTE \<Longrightarrow> c \<noteq> BSL \<Longrightarrow>
    scan_string (c # cs) = cbind (scan_string cs) (\<lambda>(k, len). Inr (k + 1, len + 1))"
  by simp

lemma scan_escape:
  "scan_string (BSL # d # ds) = cbind (scan_string ds) (\<lambda>(k, len). Inr (k + 2, len + 1))"
  by simp

declare scan_string.simps(2) [simp del]

lemma scan_hex4:
  assumes "parse_hex4 s \<noteq> 0" "scan_string s = Inr (k, len)"
  shows "\<exists>k' len'. scan_string (drop 4 s) = Inr (k', len') \<and> k = k' + 4 \<and> len = len' + 4"
proof -
  obtain a b c d r where s: "s = [a, b, c, d] @ r" and h: "hex_value a \<noteq> None" "hex_value b \<noteq> None"
      "hex_value c \<noteq> None" "hex_value d \<noteq> None"
    using assms(1) by (rule parse_hex4_digits)
  then show ?thesis using assms(2) hex_value_plain
    by (cases "scan_string r") (auto simp: scan_plain)
qed

lemma utf8_cont_length: "length (snd (utf8_cont n uc bs)) = n + length bs"
  by (induction n arbitrary: uc bs) auto

lemma utf8_chars_length: "length (utf8_chars uc) \<le> 4"
proof -
  have "length (utf8_chars uc) = Suc (utf8_len uc - 1)"
    using utf8_cont_length [of "utf8_len uc - 1" uc "[]"]
    by (cases "utf8_cont (utf8_len uc - 1) uc []") (simp add: utf8_chars_def utf8_bytes_def Let_def)
  also have "\<dots> \<le> 4" by (simp add: utf8_len_def)
  finally show ?thesis .
qed

text \<open>The pointers of the second loop stay in step with the first one, and the output fits.\<close>

lemma unicode_escape_scan:
  assumes "unicode_escape k ds = Some (uc, n)" "scan_string ds = Inr (k, len)"
  shows "\<exists>k' len'. scan_string (drop n ds) = Inr (k', len') \<and> k = k' + n \<and> len' + 4 \<le> len"
proof -
  have u: "parse_hex4 ds \<noteq> 0" "3 < k" using assms(1) by (auto simp: unicode_escape_def Let_def split: if_splits)
  from scan_hex4 [OF u(1) assms(2)] obtain k1 l1 where
    s1: "scan_string (drop 4 ds) = Inr (k1, l1)" "k = k1 + 4" "len = l1 + 4" by blast
  show ?thesis
  proof (cases "n = 4")
    case True
    then show ?thesis using s1 by simp
  next
    case False
    then obtain r where r: "drop 4 ds = BSL # CHR ''u'' # r" "n = 10" "\<not> (parse_hex4 r < 0xDC00)"
      using assms(1) by (auto simp: unicode_escape_def Let_def split: if_splits list.splits)
    then have z: "parse_hex4 r \<noteq> 0" by auto
    obtain k2 l2 where s2: "scan_string r = Inr (k2, l2)" "k1 = k2 + 2" "l1 = l2 + 1"
      using s1(1) r(1) by (cases "scan_string r") (auto simp: scan_escape)
    from scan_hex4 [OF z s2(1)] obtain k3 l3 where
      s3: "scan_string (drop 4 r) = Inr (k3, l3)" "k2 = k3 + 4" "l2 = l3 + 4" by blast
    have "drop 10 ds = drop 6 (drop 4 ds)" by simp
    also have "\<dots> = drop 4 r" using r(1) by simp
    finally show ?thesis using s1 s2 s3 r(2) by simp
  qed
qed

lemma decode_safe:
  "scan_string s = Inr (k, len) \<Longrightarrow>
   k \<le> length s \<and> (case decode_string k s of Inl e \<Rightarrow> False | Inr None \<Rightarrow> True | Inr (Some out) \<Rightarrow> length out \<le> len)"
proof (induction "length s" arbitrary: s k len rule: less_induct)
  case less
  show ?case
  proof (cases s)
    case Nil
    then show ?thesis using less.prems by (simp add: decode_string.simps)
  next
    case (Cons c cs)
    show ?thesis
    proof (cases "c = QUOTE \<or> c \<noteq> BSL")
      case True
      then consider "c = QUOTE" | "c \<noteq> QUOTE" "c \<noteq> BSL" by auto
      then show ?thesis
      proof cases
        case 1
        then show ?thesis using less.prems Cons by (simp add: scan_string.simps decode_string.simps)
      next
        case 2
        obtain k' len' where p: "scan_string cs = Inr (k', len')" "k = Suc k'" "len = Suc len'"
          using less.prems Cons 2 by (cases "scan_string cs") (auto simp: scan_plain)
        have "length cs < length s" using Cons by simp
        from less.hyps [OF this p(1)] show ?thesis using Cons 2 p
          by (subst decode_string.simps) (auto split: sum.splits option.splits)
      qed
    next
      case False
      then have c: "c = BSL" by simp
      then obtain d ds where cs: "cs = d # ds"
        using less.prems Cons by (cases cs) (auto simp: scan_string.simps)
      obtain k' len' where p: "scan_string ds = Inr (k', len')" "k = k' + 2" "len = len' + 1"
        using less.prems Cons c cs by (cases "scan_string ds") (auto simp: scan_escape)
      have sh: "length ds < length s" using Cons cs by simp
      note ih = less.hyps [OF sh p(1)]
      show ?thesis
      proof (cases "d = CHR ''u''")
        case False
        then show ?thesis using ih Cons c cs p
          by (subst decode_string.simps) (auto split: sum.splits option.splits)
      next
        case True
        show ?thesis
        proof (cases "unicode_escape k' ds")
          case None
          then show ?thesis using ih Cons c cs p True by (subst decode_string.simps) simp
        next
          case (Some x)
          obtain uc n where x: "x = (uc, n)" by (cases x)
          from unicode_escape_scan [OF _ p(1)] Some x obtain k2 len2 where
            q: "scan_string (drop n ds) = Inr (k2, len2)" "k' = k2 + n" "len2 + 4 \<le> len'" by blast
          have "length (drop n ds) < length s" using sh by simp
          from less.hyps [OF this q(1)] show ?thesis
            using ih Cons c cs p q True Some x utf8_chars_length [of uc]
            by (subst decode_string.simps) (auto split: sum.splits option.splits)
        qed
      qed
    qed
  qed
qed

lemma scan_fault: "scan_string s = Inl e \<Longrightarrow> e = Out_Of_Bounds \<and> s \<noteq> [] \<and> last s = BSL"
proof (induction s rule: scan_string.induct)
  case (2 c cs)
  show ?case
  proof (cases "c = QUOTE \<or> c \<noteq> BSL")
    case True
    then consider "c = QUOTE" | "c \<noteq> QUOTE" "c \<noteq> BSL" by auto
    then show ?thesis
    proof cases
      case 1
      then show ?thesis using 2 by (simp add: scan_string.simps)
    next
      case 2
      then show ?thesis using "2.prems" "2.IH" by (cases "scan_string cs") (auto simp: scan_plain)
    qed
  next
    case False
    then show ?thesis using "2.prems" "2.IH"
      by (cases cs) (auto simp: scan_string.simps(2) split: sum.splits, (cases "scan_string (tl cs)"; auto)+)
  qed
qed simp

section \<open>Printing\<close>

lemma print_string_fits: "print_string_size so = length (print_string_text so) + 1"
proof -
  have "length (escape_text c) = escape_size c" for c
    by (auto simp: escape_text_def escape_size_def special_char_def)
  then have "length (concat (map escape_text s)) = sum_list (map escape_size s)" for s
    by (induction s) auto
  then show ?thesis by (auto simp: print_string_text_def print_string_size_def split: option.split)
qed

lemma print_string_ok: "print_string_ptr so = Inr (print_string_text so)"
  using print_string_fits [of so] by (simp add: print_string_ptr_def)

lemma print_string_concat: "print_string_text (Some s) = QUOTE # concat (map escape_text s) @ [QUOTE]"
proof -
  have "\<not> list_ex special_char s \<Longrightarrow> concat (map escape_text s) = s"
    by (induction s) (auto simp: escape_text_def)
  then show ?thesis by (simp add: print_string_text_def)
qed

section \<open>Reading back\<close>

lemma hex_char_value: "d < 16 \<Longrightarrow> hex_value (hex_char d) = Some d"
  by (simp add: hex_value_def hex_char_def of_char_of)

lemma parse_hex4_unfold: "parse_hex4 s = hex_run (Suc (Suc (Suc (Suc 0)))) 0 s"
  by (simp add: parse_hex4_def numeral_eq_Suc del: hex_run.simps)

lemma combine_hex:
  fixes a :: nat
  assumes "a * 16 + b = u" "u * 16 + c = v" "v * 16 + d = w"
  shows "a * 4096 + b * 256 + c * 16 + d = w"
  using assms by simp

lemma parse_hex4_text:
  assumes "n < 65536"
  shows "parse_hex4 ([hex_char (n div 4096), hex_char (n div 256 mod 16), hex_char (n div 16 mod 16),
      hex_char (n mod 16)] @ r) = of_nat n"
proof -
  have "hex_value (hex_char (n div 4096)) = Some (n div 4096)" using assms hex_char_value by simp
  moreover have "hex_value (hex_char (m mod 16)) = Some (m mod 16)" for m using hex_char_value by simp
  ultimately have "parse_hex4 ([hex_char (n div 4096), hex_char (n div 256 mod 16), hex_char (n div 16 mod 16),
      hex_char (n mod 16)] @ r) =
      of_nat (n div 4096 * 4096 + n div 256 mod 16 * 256 + n div 16 mod 16 * 16 + n mod 16)"
    unfolding parse_hex4_unfold by (simp add: push_bit_eq_mult algebra_simps)
  also have "n div 4096 * 4096 + n div 256 mod 16 * 256 + n div 16 mod 16 * 16 + n mod 16 = n"
  proof (rule combine_hex)
    show "n div 4096 * 16 + n div 256 mod 16 = n div 256"
      using div_mult_mod_eq [of "n div 256" 16] by (simp only: div_mult2_eq [symmetric]) simp
    show "n div 256 * 16 + n div 16 mod 16 = n div 16"
      using div_mult_mod_eq [of "n div 16" 16] by (simp only: div_mult2_eq [symmetric]) simp
  qed (rule div_mult_mod_eq)
  finally show ?thesis .
qed

lemma control_escape:
  assumes "(of_char c :: nat) < 32" "c \<noteq> NUL"
  shows "unicode_escape (k + 4) (''00'' @ [hex_char (of_char c div 16), hex_char (of_char c mod 16)] @ r) =
      Some (of_nat (of_char c), 4)"
    "utf8_chars (of_nat (of_char c)) = [c]"
proof -
  define n where "n = (of_char c :: nat)"
  have c: "c = char_of n" by (simp add: n_def)
  have "n \<noteq> 0"
  proof
    assume "n = 0"
    then show False using c assms(2) by (simp add: char_of_def)
  qed
  then have n: "n < 32" "n \<noteq> 0" using assms(1) by (auto simp: n_def)
  have "hex_char 0 = CHR ''0''" unfolding hex_char_def by code_simp
  moreover have "n div 4096 = 0" "n div 256 mod 16 = 0" "n div 16 mod 16 = n div 16" using n by simp_all
  ultimately have "parse_hex4 (''00'' @ [hex_char (n div 16), hex_char (n mod 16)] @ r) = of_nat n"
    using parse_hex4_text [of n r] n by simp
  moreover have "(of_nat n :: u32) \<noteq> 0" "\<not> 0xDC00 \<le> (of_nat n :: u32)" "\<not> 0xD800 \<le> (of_nat n :: u32)"
    using n by (simp_all add: word_of_nat_eq_0_iff nat_dvd_not_less word_le_nat_alt unat_of_nat)
  ultimately show "unicode_escape (k + 4) (''00'' @ [hex_char (of_char c div 16), hex_char (of_char c mod 16)] @ r) =
      Some (of_nat (of_char c), 4)"
    unfolding n_def [symmetric] by (simp add: unicode_escape_def)
  show "utf8_chars (of_nat (of_char c)) = [c]"
    using utf8_chars_spec [of "of_nat n"] n unfolding n_def [symmetric] c
    by (simp add: utf8_spec_def unat_of_nat)
qed

lemma decode_plain:
  "c \<noteq> BSL \<Longrightarrow> decode_string (Suc k) (c # cs) = cbind (decode_string k cs) (\<lambda>r. Inr (map_option ((#) c) r))"
  by (subst decode_string.simps) simp

lemma decode_escape:
  "d \<noteq> CHR ''u'' \<Longrightarrow> decode_string (Suc (Suc k)) (BSL # d # ds) =
     cbind (decode_string k ds) (\<lambda>r. Inr (map_option ((#) (escape_value d)) r))"
  by (subst decode_string.simps) simp

lemma decode_unicode:
  "unicode_escape k ds = Some (uc, n) \<Longrightarrow> decode_string (Suc (Suc k)) (BSL # CHR ''u'' # ds) =
     cbind (decode_string (k - n) (drop n ds)) (\<lambda>r. Inr (map_option ((@) (utf8_chars uc)) r))"
  by (subst decode_string.simps) simp

lemma decode_escape_text:
  assumes "c \<noteq> NUL" "decode_string k cs = Inr (Some out)"
  shows "decode_string (length (escape_text c) + k) (escape_text c @ cs) = Inr (Some (c # out))"
proof (cases "special_char c")
  case False
  then show ?thesis using assms(2) by (simp add: escape_text_def decode_plain special_char_def)
next
  case True
  show ?thesis
  proof (cases "c \<in> set [QUOTE, BSL, CHR 0x08, CHR 0x0C, CHR 0x0A, CHR 0x0D, CHR 0x09]")
    case True
    then show ?thesis using assms(2) by (auto simp: escape_text_def special_char_def decode_escape escape_value_def)
  next
    case False
    then have c: "(of_char c :: nat) < 32" using True by (auto simp: special_char_def)
    have e: "escape_text c = BSL # CHR ''u'' # ''00'' @ [hex_char (of_char c div 16), hex_char (of_char c mod 16)]"
      using True False by (simp add: escape_text_def)
    have l: "length (escape_text c) + k = Suc (Suc (k + 4))" by (simp add: e)
    have "decode_string (Suc (Suc (k + 4))) (BSL # CHR ''u'' #
        (''00'' @ [hex_char (of_char c div 16), hex_char (of_char c mod 16)] @ cs)) = Inr (Some (c # out))"
      unfolding decode_unicode [OF control_escape(1) [OF c assms(1), of k cs]]
      using control_escape(2) [OF c assms(1)] assms(2) by simp
    then show ?thesis unfolding l by (simp add: e)
  qed
qed

lemma of_char_bound: "(of_char c :: nat) < 256"
  by (cases c) (simp add: of_char_def horner_sum_simps split: if_splits)

lemma char_nul: "n < 256 \<Longrightarrow> char_of n = NUL \<longleftrightarrow> n = (0 :: nat)"
proof
  assume "n < 256" "char_of n = NUL"
  then have "of_char (char_of n) = (of_char NUL :: nat)" by simp
  then show "n = 0" using \<open>n < 256\<close> by (simp add: of_char_of)
qed (simp add: char_of_def)

lemma scan_escape_text:
  "scan_string cs = Inr (k, len) \<Longrightarrow>
   \<exists>len'. scan_string (escape_text c @ cs) = Inr (length (escape_text c) + k, len')"
proof -
  assume a: "scan_string cs = Inr (k, len)"
  have "hex_value (hex_char (of_char c div 16)) \<noteq> None" "hex_value (hex_char (of_char c mod 16)) \<noteq> None"
    using hex_char_value of_char_bound [of c] by (auto simp: less_mult_imp_div_less)
  then have "hex_char (of_char c div 16) \<notin> {QUOTE, BSL}" "hex_char (of_char c mod 16) \<notin> {QUOTE, BSL}"
    using hex_value_plain by blast+
  then show ?thesis using a
    by (auto simp: escape_text_def scan_plain scan_escape special_char_def)
qed

lemma parse_print_string:
  assumes "NUL \<notin> set s"
  shows "parse_string (print_string_text (Some s) @ r) = P_Ok s r"
proof -
  have d: "decode_string (length (concat (map escape_text s))) (concat (map escape_text s) @ QUOTE # r) = Inr (Some s)"
    using assms
  proof (induction s)
    case Nil
    then show ?case by (simp add: decode_string.simps)
  next
    case (Cons c s)
    then have "c \<noteq> NUL" "NUL \<notin> set s" by auto
    then show ?case
      using Cons.IH decode_escape_text [of c "length (concat (map escape_text s))" "concat (map escape_text s) @ QUOTE # r" s]
      by simp
  qed
  have "\<exists>len. scan_string (concat (map escape_text s) @ QUOTE # r) = Inr (length (concat (map escape_text s)), len)"
  proof (induction s)
    case Nil
    then show ?case by (simp add: scan_string.simps)
  next
    case (Cons c s)
    then show ?case using scan_escape_text by force
  qed
  then obtain len where
    sc: "scan_string (concat (map escape_text s) @ QUOTE # r) = Inr (length (concat (map escape_text s)), len)" ..
  have "length s \<le> len" using decode_safe [OF sc] d by simp
  then show ?thesis using sc d by (simp add: parse_string_def print_string_concat)
qed

end
