(* ===== verification/Json_Double.thy ===== *)
theory Json_Double
  imports Complex_Main Cfg_Text
begin

text \<open>
  The double-precision numbers that \<^verbatim>\<open>libjson.c\<close> computes with: a value is a rational
  number, an infinity or no number; every operation is the exact one followed by rounding to nearest,
  ties to even, as IEEE 754 has it. The two zeros are one value: nothing the source does tells them
  apart. The conversions to text are those of \<^verbatim>\<open>printf\<close>.
\<close>

section \<open>Rounding\<close>

datatype dbl = D_NaN | D_Inf bool | D_Fin rat

text \<open>The number of digits, and the exponent of the greatest power of the base that is not above \<open>x\<close>.\<close>

function digit_count :: "int \<Rightarrow> int \<Rightarrow> int" where
  "digit_count b n = (if n \<le> 0 \<or> b < 2 then 0 else 1 + digit_count b (n div b))"
  by pat_completeness auto
termination by (relation "measure (\<lambda>(b, n). nat n)") (auto simp: int_div_less_self)

declare digit_count.simps [simp del]

definition flog :: "int \<Rightarrow> rat \<Rightarrow> int" where
  "flog b x =
     (let (p, q) = quotient_of x; l = digit_count b p - digit_count b q
      in if of_int b powi l \<le> x then l else l - 1)"

definition half_even :: "rat \<Rightarrow> int" where
  "half_even x =
     (let n = \<lfloor>x\<rfloor>; r = x - of_int n
      in if r < 1 / 2 \<or> (r = 1 / 2 \<and> even n) then n else n + 1)"

text \<open>53 bits of precision, the least exponent \<open>-1074\<close>, overflow to the infinities.\<close>

definition round_dbl :: "rat \<Rightarrow> dbl" where
  "round_dbl x =
     (if x = 0 then D_Fin 0
      else
        let u = 2 powi (max (-1074) (flog 2 \<bar>x\<bar> - 52)); y = of_int (half_even (\<bar>x\<bar> / u)) * u
        in if 2 ^ 1024 \<le> y then D_Inf (x < 0) else D_Fin (if x < 0 then - y else y))"

section \<open>Arithmetic\<close>

definition d_of_int :: "int \<Rightarrow> dbl" where
  "d_of_int i = round_dbl (of_int i)"

fun d_add :: "dbl \<Rightarrow> dbl \<Rightarrow> dbl" where
  "d_add (D_Fin x) (D_Fin y) = round_dbl (x + y)"
| "d_add (D_Inf s) (D_Inf t) = (if s = t then D_Inf s else D_NaN)"
| "d_add (D_Inf s) (D_Fin y) = D_Inf s"
| "d_add (D_Fin x) (D_Inf t) = D_Inf t"
| "d_add D_NaN b = D_NaN"
| "d_add a D_NaN = D_NaN"

fun d_mul :: "dbl \<Rightarrow> dbl \<Rightarrow> dbl" where
  "d_mul (D_Fin x) (D_Fin y) = round_dbl (x * y)"
| "d_mul (D_Inf s) (D_Inf t) = D_Inf (s \<noteq> t)"
| "d_mul (D_Inf s) (D_Fin y) = (if y = 0 then D_NaN else D_Inf (s \<noteq> (y < 0)))"
| "d_mul (D_Fin x) (D_Inf t) = (if x = 0 then D_NaN else D_Inf (t \<noteq> (x < 0)))"
| "d_mul D_NaN b = D_NaN"
| "d_mul a D_NaN = D_NaN"

fun d_neg :: "dbl \<Rightarrow> dbl" where
  "d_neg (D_Fin x) = D_Fin (- x)"
| "d_neg (D_Inf s) = D_Inf (\<not> s)"
| "d_neg D_NaN = D_NaN"

fun d_abs :: "dbl \<Rightarrow> dbl" where
  "d_abs (D_Fin x) = D_Fin \<bar>x\<bar>"
| "d_abs (D_Inf s) = D_Inf False"
| "d_abs D_NaN = D_NaN"

fun d_floor :: "dbl \<Rightarrow> dbl" where
  "d_floor (D_Fin x) = d_of_int \<lfloor>x\<rfloor>"
| "d_floor d = d"

fun d_le :: "dbl \<Rightarrow> dbl \<Rightarrow> bool" where
  "d_le (D_Fin x) (D_Fin y) = (x \<le> y)"
| "d_le (D_Inf s) (D_Inf t) = (s \<or> \<not> t)"
| "d_le (D_Inf s) (D_Fin y) = s"
| "d_le (D_Fin x) (D_Inf t) = (\<not> t)"
| "d_le D_NaN b = False"
| "d_le a D_NaN = False"

definition d_less :: "dbl \<Rightarrow> dbl \<Rightarrow> bool" where
  "d_less a b \<longleftrightarrow> d_le a b \<and> \<not> d_le b a"

fun d_is0 :: "dbl \<Rightarrow> bool" where
  "d_is0 (D_Fin x) = (x = 0)"
| "d_is0 d = False"

text \<open>
  The conversion to a 32-bit integer truncates; out of range it is undefined in C and gives the least
  integer on x86-64.
\<close>

fun d_to_int :: "dbl \<Rightarrow> int" where
  "d_to_int (D_Fin x) =
     (let i = (if x < 0 then - \<lfloor>- x\<rfloor> else \<lfloor>x\<rfloor>) in if - (2 ^ 31) \<le> i \<and> i < 2 ^ 31 then i else - (2 ^ 31))"
| "d_to_int d = - (2 ^ 31)"

text \<open>
  \<^verbatim>\<open>pow(10.0, k)\<close> at an integer \<open>k\<close>, correctly rounded; the exponent that the parser computes is
  always one. Beyond 400 the result is infinite or zero.
\<close>

fun d_pow10 :: "dbl \<Rightarrow> dbl" where
  "d_pow10 (D_Fin x) =
     (if 400 < x then D_Inf False else if x < - 400 then D_Fin 0 else round_dbl (10 powi \<lfloor>x\<rfloor>))"
| "d_pow10 (D_Inf s) = (if s then D_Fin 0 else D_Inf False)"
| "d_pow10 D_NaN = D_NaN"

section \<open>Text\<close>

definition pad0 :: "nat \<Rightarrow> nat \<Rightarrow> string" where
  "pad0 w n = (let d = nat_digits n in replicate (w - length d) (CHR ''0'') @ d)"

definition sign_text :: "rat \<Rightarrow> string" where
  "sign_text x = (if x < 0 then ''-'' else [])"

definition fmt_f0 :: "rat \<Rightarrow> string" where
  "fmt_f0 x = sign_text x @ nat_digits (nat (half_even \<bar>x\<bar>))"

definition fmt_f :: "rat \<Rightarrow> string" where
  "fmt_f x =
     (let n = nat (half_even (\<bar>x\<bar> * 10 ^ 6))
      in sign_text x @ nat_digits (n div 10 ^ 6) @ ''.'' @ pad0 6 (n mod 10 ^ 6))"

definition fmt_e :: "rat \<Rightarrow> string" where
  "fmt_e x =
     (let (n, k) =
        (if x = 0 then (0, 0)
         else
           let k = flog 10 \<bar>x\<bar>; n = nat (half_even (\<bar>x\<bar> * 10 powi (6 - k)))
           in if n = 10 ^ 7 then (10 ^ 6, k + 1) else (n, k))
      in sign_text x @ nat_digits (n div 10 ^ 6) @ ''.'' @ pad0 6 (n mod 10 ^ 6) @
         ''e'' @ (if k < 0 then ''-'' else ''+'') @ pad0 2 (nat \<bar>k\<bar>))"

section \<open>Facts on rounding\<close>

lemma digit_count_bounds:
  "2 \<le> b \<Longrightarrow> 0 < n \<Longrightarrow>
   1 \<le> digit_count b n \<and> b ^ nat (digit_count b n - 1) \<le> n \<and> n < b ^ nat (digit_count b n)"
proof (induction b n rule: digit_count.induct)
  case (1 b n)
  have dc: "digit_count b n = 1 + digit_count b (n div b)"
    using 1 by (subst digit_count.simps) simp
  have mod: "n = b * (n div b) + n mod b" "0 \<le> n mod b" "n mod b < b" using 1 by auto
  show ?case
  proof (cases "0 < n div b")
    case True
    define d where "d = digit_count b (n div b)"
    have ih: "1 \<le> d" "b ^ nat (d - 1) \<le> n div b" "n div b < b ^ nat d"
      using 1 True by (auto simp: d_def)
    have "nat (digit_count b n - 1) = Suc (nat (d - 1))" "nat (digit_count b n) = Suc (nat d)"
      using ih(1) dc by (simp_all add: d_def)
    then have pw: "b ^ nat (digit_count b n - 1) = b * b ^ nat (d - 1)" "b ^ nat (digit_count b n) = b * b ^ nat d"
      by simp_all
    have "b * b ^ nat (d - 1) \<le> b * (n div b)" using ih(2) 1 by simp
    moreover have "b * (n div b + 1) \<le> b * b ^ nat d" using ih(3) 1 by (intro mult_left_mono) auto
    then have "b * (n div b) + b \<le> b * b ^ nat d" by (simp add: algebra_simps)
    ultimately show ?thesis using mod ih(1) dc unfolding pw d_def by linarith
  next
    case False
    then have z: "n div b = 0" using 1 by (simp add: not_less order.antisym pos_imp_zdiv_nonneg_iff)
    then have "n < b" using mod by simp
    then show ?thesis using dc z 1 by (simp add: digit_count.simps)
  qed
qed

lemma digit_count_powi:
  assumes "2 \<le> b" "0 < n"
  shows "of_int b powi (digit_count b n - 1) \<le> (of_int n :: rat)" "(of_int n :: rat) < of_int b powi digit_count b n"
  using digit_count_bounds [OF assms]
  by (simp_all add: power_int_def flip: of_int_power)

lemma powi_less_cancel:
  fixes b :: rat
  assumes "1 < b" "b powi m < b powi n"
  shows "m < n"
  using assms power_int_increasing [of n m b] by (meson less_le_not_le not_less order_less_imp_le)

lemma flog_bounds:
  assumes b: "2 \<le> b" and x: "0 < x"
  shows "of_int b powi flog b x \<le> x" "x < of_int b powi (flog b x + 1)"
proof -
  obtain p q where pq: "quotient_of x = (p, q)" by (metis surj_pair)
  have q: "0 < q" using quotient_of_denom_pos [OF pq] .
  have xe: "x = of_int p / of_int q" using quotient_of_div [OF pq] .
  have p: "0 < p" using x xe q by (simp add: zero_less_divide_iff)
  define B where "B = (of_int b :: rat)"
  have B: "1 < B" "0 < B" using b by (simp_all add: B_def)
  define l where "l = digit_count b p - digit_count b q"
  note P = digit_count_powi [OF b p, folded B_def] and Q = digit_count_powi [OF b q, folded B_def]
  have q': "0 < (of_int q :: rat)" using q by simp
  have "B powi (l - 1) \<le> x"
  proof -
    have "B powi (l - 1) * of_int q \<le> B powi (l - 1) * B powi digit_count b q"
      using Q(2) B by (intro mult_left_mono) auto
    also have "\<dots> = B powi (digit_count b p - 1)"
      using B by (simp add: l_def flip: power_int_add)
    also have "\<dots> \<le> of_int p" by (rule P(1))
    finally show ?thesis using q' by (simp add: xe pos_le_divide_eq)
  qed
  moreover have "x < B powi (l + 1)"
  proof -
    have "of_int p < B powi digit_count b p" by (rule P(2))
    also have "\<dots> = B powi (l + 1) * B powi (digit_count b q - 1)"
      using B by (simp add: l_def flip: power_int_add)
    also have "\<dots> \<le> B powi (l + 1) * of_int q" using Q(1) B by (intro mult_left_mono) auto
    finally show ?thesis using q' by (simp add: xe pos_divide_less_eq)
  qed
  ultimately show "of_int b powi flog b x \<le> x" "x < of_int b powi (flog b x + 1)"
    by (auto simp: flog_def pq Let_def B_def l_def split: if_splits)
qed

lemma flog_less:
  assumes "2 \<le> b" "0 < x" "x < of_int b powi n"
  shows "flog b x < n"
  using flog_bounds(1) [OF assms(1,2)] assms by (intro powi_less_cancel [of "of_int b"]) auto

lemma flog_ge:
  assumes "2 \<le> b" "0 < x" "of_int b powi n \<le> x"
  shows "n \<le> flog b x"
  using flog_bounds(2) [OF assms(1,2)] assms powi_less_cancel [of "of_int b" n "flog b x + 1"] by fastforce

lemma half_even_int [simp]: "half_even (of_int n) = n"
  by (simp add: half_even_def)

lemma half_even_le: "x \<le> of_int n \<Longrightarrow> half_even x \<le> n"
proof -
  assume "x \<le> of_int n"
  then consider "x = of_int n" | "\<lfloor>x\<rfloor> < n" by (metis floor_of_int floor_mono order_le_less floor_less_iff order_less_le)
  then show ?thesis by cases (auto simp: half_even_def Let_def)
qed

lemma half_even_ge: "of_int n \<le> x \<Longrightarrow> n \<le> half_even x"
  by (simp add: half_even_def Let_def le_floor_iff) (simp add: le_floor_iff [symmetric])

lemma round_dbl_int:
  assumes "\<bar>i\<bar> < 2 ^ 53"
  shows "round_dbl (of_int i) = D_Fin (of_int i)"
proof (cases "i = 0")
  case True
  then show ?thesis by (simp add: round_dbl_def)
next
  case False
  let ?x = "\<bar>of_int i :: rat\<bar>"
  have "flog 2 ?x < 53"
  proof (rule flog_less)
    have "of_int \<bar>i\<bar> < (of_int (2 ^ 53) :: rat)" using assms by (simp only: of_int_less_iff)
    then show "?x < of_int 2 powi 53" by (simp add: power_int_def)
  qed (use False in auto)
  define e where "e = max (-1074) (flog 2 ?x - 52)"
  have e: "e \<le> 0" using \<open>flog 2 ?x < 53\<close> by (simp add: e_def)
  have "?x / 2 powi e = of_int (\<bar>i\<bar> * 2 ^ nat (- e))"
  proof -
    have "2 powi e = (1 / 2 ^ nat (- e) :: rat)"
      using e by (simp add: power_int_def inverse_eq_divide power_one_over)
    then show ?thesis by simp
  qed
  then have "half_even (?x / 2 powi e) = \<bar>i\<bar> * 2 ^ nat (- e)" by (simp only: half_even_int)
  then have "of_int (half_even (?x / 2 powi e)) = ?x / 2 powi e" using \<open>?x / 2 powi e = _\<close> by metis
  then have y: "of_int (half_even (?x / 2 powi e)) * 2 powi e = ?x" by simp
  have "\<bar>i\<bar> < 2 ^ 1024" using assms by (rule order_less_trans) simp
  then have "\<not> 2 ^ 1024 \<le> ?x"
    by (simp only: of_int_abs [symmetric] not_le) (metis of_int_less_iff of_int_numeral of_int_power)
  then show ?thesis
    using False by (simp only: round_dbl_def Let_def y [unfolded e_def]) auto
qed

section \<open>The length of the texts\<close>

lemma nat_digits_short: "0 < k \<Longrightarrow> n < 10 ^ k \<Longrightarrow> length (nat_digits n) \<le> k"
  using nat_digits_length [of n "k - 1"] by simp

lemma pad0_length: "0 < w \<Longrightarrow> n < 10 ^ w \<Longrightarrow> length (pad0 w n) = w"
  using nat_digits_short [of w n] by (simp add: pad0_def Let_def)

lemma dec_short: "0 < k \<Longrightarrow> \<bar>i\<bar> < 10 ^ k \<Longrightarrow> length (dec i) \<le> Suc k"
  using nat_digits_short [of k "nat i"] nat_digits_short [of k "nat (- i)"] by (auto simp: dec_def nat_less_iff)

lemma fmt_f0_length:
  assumes "0 < k" "\<bar>x\<bar> \<le> 10 ^ k"
  shows "length (fmt_f0 x) \<le> k + 2"
proof -
  have "half_even \<bar>x\<bar> \<le> 10 ^ k" using assms(2) by (intro half_even_le) simp
  moreover have "(10 :: int) ^ k < 10 ^ Suc k" by simp
  ultimately have "half_even \<bar>x\<bar> < 10 ^ Suc k" by linarith
  then have "nat (half_even \<bar>x\<bar>) < 10 ^ Suc k" by (simp add: nat_less_iff del: power_Suc)
  then have "length (nat_digits (nat (half_even \<bar>x\<bar>))) \<le> Suc k" by (intro nat_digits_short) auto
  then show ?thesis by (cases "x < 0") (simp_all add: fmt_f0_def sign_text_def)
qed

lemma fmt_f_length:
  assumes "0 < k" "\<bar>x\<bar> \<le> 10 ^ k"
  shows "length (fmt_f x) \<le> k + 9"
proof -
  define n where "n = nat (half_even (\<bar>x\<bar> * 10 ^ 6))"
  have "half_even (\<bar>x\<bar> * 10 ^ 6) \<le> 10 ^ (k + 6)"
    using assms(2) by (intro half_even_le) (simp add: power_add)
  then have "n \<le> 10 ^ (k + 6)" by (simp add: n_def nat_le_iff)
  then have "n div 10 ^ 6 \<le> 10 ^ (k + 6) div 10 ^ 6" by (rule div_le_mono)
  also have "\<dots> = 10 ^ k" by (simp add: power_add)
  also have "\<dots> < (10 :: nat) ^ Suc k" by simp
  finally have "length (nat_digits (n div 10 ^ 6)) \<le> Suc k" by (intro nat_digits_short) auto
  moreover have "length (pad0 6 (n mod 10 ^ 6)) = 6" by (rule pad0_length) auto
  ultimately show ?thesis unfolding fmt_f_def n_def [symmetric] Let_def by (simp add: sign_text_def)
qed

lemma fmt_e_length:
  assumes "x \<noteq> 0 \<Longrightarrow> 10 powi (- 998) \<le> \<bar>x\<bar>" "\<bar>x\<bar> < 10 powi 998"
  shows "length (fmt_e x) \<le> 14"
proof -
  obtain n k where nk: "(if x = 0 then (0, 0)
         else
           let k = flog 10 \<bar>x\<bar>; n = nat (half_even (\<bar>x\<bar> * 10 powi (6 - k)))
           in if n = 10 ^ 7 then (10 ^ 6, k + 1) else (n, k)) = (n :: nat, k)" by (metis surj_pair)
  have "n < 10 ^ 7 \<and> \<bar>k\<bar> \<le> 999"
  proof (cases "x = 0")
    case True
    then show ?thesis using nk by auto
  next
    case False
    define l where "l = flog 10 \<bar>x\<bar>"
    have "\<bar>x\<bar> < 10 powi (l + 1)" using flog_bounds(2) [of 10 "\<bar>x\<bar>"] False by (simp add: l_def)
    then have "\<bar>x\<bar> * 10 powi (6 - l) \<le> 10 powi (l + 1) * 10 powi (6 - l)" by (intro mult_right_mono) auto
    also have "\<dots> = of_int (10 ^ 7)" by (simp flip: power_int_add)
    finally have "half_even (\<bar>x\<bar> * 10 powi (6 - l)) \<le> 10 ^ 7" by (rule half_even_le)
    define h where "h = nat (half_even (\<bar>x\<bar> * 10 powi (6 - l)))"
    have "h \<le> 10 ^ 7" using \<open>half_even _ \<le> 10 ^ 7\<close> by (simp add: h_def nat_le_iff)
    moreover have "(if h = 10 ^ 7 then (10 ^ 6, l + 1) else (h, l)) = (n, k)"
      using nk unfolding if_not_P [OF False] Let_def l_def [symmetric] h_def [symmetric] .
    moreover have "0 < \<bar>x\<bar>" using False by simp
    note flog_less [OF _ this, of 10 998, unfolded of_int_numeral, OF _ assms(2)]
      and flog_ge [OF _ this, of 10 "- 998", unfolded of_int_numeral, OF _ assms(1) [OF False]]
    then have "l < 998" "- 998 \<le> l" by (simp_all only: l_def)
    ultimately show ?thesis by (auto split: if_splits)
  qed
  then have n: "n div 10 ^ 6 < 10 ^ 1" and k: "nat \<bar>k\<bar> < 10 ^ 3" by auto
  have "length (nat_digits (n div 10 ^ 6)) \<le> 1" using n by (intro nat_digits_short) auto
  moreover have "length (pad0 6 (n mod 10 ^ 6)) = 6" by (rule pad0_length) auto
  moreover have "length (nat_digits (nat \<bar>k\<bar>)) \<le> 3" using k by (intro nat_digits_short) auto
  then have "length (pad0 2 (nat \<bar>k\<bar>)) \<le> 3" by (simp add: pad0_def Let_def)
  moreover have "length (if k < 0 then ''-'' else ''+'') = 1" "length (sign_text x) \<le> 1" by (simp_all add: sign_text_def)
  ultimately show ?thesis unfolding fmt_e_def nk by (simp del: if_split)
qed

section \<open>Representable values\<close>

fun dbl_ok :: "dbl \<Rightarrow> bool" where
  "dbl_ok (D_Fin x) = (x = 0 \<or> 2 powi (- 1074) \<le> \<bar>x\<bar> \<and> \<bar>x\<bar> < 2 ^ 1024)"
| "dbl_ok d = True"

lemma round_dbl_ok: "dbl_ok (round_dbl x)"
proof (cases "x = 0")
  case True
  then show ?thesis by (simp add: round_dbl_def)
next
  case False
  define u :: rat where "u = 2 powi (max (-1074) (flog 2 \<bar>x\<bar> - 52))"
  define n where "n = half_even (\<bar>x\<bar> / u)"
  have u: "2 powi (- 1074) \<le> u" "0 < u" unfolding u_def by (intro power_int_increasing) auto
  have "0 \<le> n" unfolding n_def using u by (intro half_even_ge) simp
  then consider "n = 0" | "1 \<le> n" by linarith
  then have y: "of_int n * u = 0 \<or> 2 powi (- 1074) \<le> of_int n * u \<and> 0 < of_int n * u"
  proof cases
    case 2
    then have "1 * u \<le> of_int n * u" using u by (intro mult_right_mono) auto
    then show ?thesis using u by linarith
  qed simp
  have r: "round_dbl x = (if 2 ^ 1024 \<le> of_int n * u then D_Inf (x < 0)
      else D_Fin (if x < 0 then - (of_int n * u) else of_int n * u))"
    using False by (simp only: round_dbl_def Let_def u_def [symmetric] n_def [symmetric] if_False)
  show ?thesis
  proof (cases "2 ^ 1024 \<le> of_int n * u")
    case False
    then show ?thesis using y unfolding r by (auto simp only: dbl_ok.simps if_False not_le split: if_split)
  qed (simp only: r if_True dbl_ok.simps)
qed

lemma dbl_ok_ops [simp]:
  "dbl_ok (d_of_int i)" "dbl_ok (d_mul a b)" "dbl_ok (d_add a b)" "dbl_ok (d_pow10 a)"
  by (simp_all only: d_of_int_def round_dbl_ok)
    (cases a; cases b; simp add: round_dbl_ok)+

end
