(* ===== verification/Json_Parse.thy ===== *)
theory Json_Parse
  imports Json_String_Props Json_Double "HOL-Library.Sublist"
begin

text \<open>
  The items of \<^verbatim>\<open>libjson.c\<close> and its parser. An item is a tree: the chain from \<^verbatim>\<open>child\<close> along
  \<^verbatim>\<open>next\<close> is the list of its children, in order; the items that the parser makes are new, so no two
  positions share one. Allocation does not fail. The three functions that call each other count the
  calls down from a fuel; \<^verbatim>\<open>parse_array\<close> and \<^verbatim>\<open>parse_object\<close> are \<open>parse_bracket\<close> around the loop
  over their entries.
\<close>

section \<open>Items\<close>

abbreviation (input) cJSON_False :: int where "cJSON_False \<equiv> 1"
abbreviation (input) cJSON_True :: int where "cJSON_True \<equiv> 2"
abbreviation (input) cJSON_NULL :: int where "cJSON_NULL \<equiv> 4"
abbreviation (input) cJSON_Number :: int where "cJSON_Number \<equiv> 8"
abbreviation (input) cJSON_String :: int where "cJSON_String \<equiv> 16"
abbreviation (input) cJSON_Array :: int where "cJSON_Array \<equiv> 32"
abbreviation (input) cJSON_Object :: int where "cJSON_Object \<equiv> 64"

record jnode =
  j_type :: int
  j_valuestring :: "string option"
  j_valueint :: int
  j_valuedouble :: dbl
  j_string :: "string option"

definition new_item :: jnode where
  "new_item = \<lparr>j_type = 0, j_valuestring = None, j_valueint = 0, j_valuedouble = D_Fin 0, j_string = None\<rparr>"

datatype cjson = CJ (cj_node: jnode) (cj_child: "cjson list")

section \<open>Numbers\<close>

definition digit_dbl :: "char \<Rightarrow> dbl" where
  "digit_dbl c = d_of_int (int (of_char c) - 48)"

fun int_digits :: "dbl \<Rightarrow> string \<Rightarrow> dbl \<times> string" where
  "int_digits n [] = (n, [])"
| "int_digits n (c # cs) =
     (if isdigit_char c then int_digits (d_add (d_mul n (d_of_int 10)) (digit_dbl c)) cs else (n, c # cs))"

fun frac_digits :: "dbl \<Rightarrow> dbl \<Rightarrow> string \<Rightarrow> dbl \<times> dbl \<times> string" where
  "frac_digits n scale [] = (n, scale, [])"
| "frac_digits n scale (c # cs) =
     (if isdigit_char c
      then frac_digits (d_add (d_mul n (d_of_int 10)) (digit_dbl c)) (d_add scale (d_of_int (-1))) cs
      else (n, scale, c # cs))"

text \<open>The exponent is an \<^verbatim>\<open>int\<close>, which wraps.\<close>

fun exp_digits :: "32 word \<Rightarrow> string \<Rightarrow> 32 word \<times> string" where
  "exp_digits k [] = (k, [])"
| "exp_digits k (c # cs) =
     (if isdigit_char c then exp_digits (k * 10 + (of_nat (of_char c) - 48)) cs else (k, c # cs))"

definition parse_exp :: "string \<Rightarrow> 32 word \<times> string" where
  "parse_exp s =
     (case s of
        c # cs \<Rightarrow>
          if c = CHR ''+'' then exp_digits 0 cs
          else if c = CHR ''-'' then (let (k, r) = exp_digits 0 cs in (- k, r))
          else exp_digits 0 s
      | [] \<Rightarrow> (0, []))"

text \<open>The parts of \<^verbatim>\<open>parse_number\<close>, line by line: sign, leading zero, digits, fraction, exponent.\<close>

definition num_sign :: "string \<Rightarrow> dbl \<times> string" where
  "num_sign s = (if take 1 s = ''-'' then (d_of_int (-1), tl s) else (d_of_int 1, s))"

definition num_zero :: "string \<Rightarrow> string" where
  "num_zero s = (if take 1 s = ''0'' then tl s else s)"

definition num_int :: "string \<Rightarrow> dbl \<times> string" where
  "num_int s =
     (if s \<noteq> [] \<and> isdigit_char (hd s) \<and> hd s \<noteq> CHR ''0'' then int_digits (d_of_int 0) s else (d_of_int 0, s))"

definition num_frac :: "dbl \<Rightarrow> string \<Rightarrow> dbl \<times> dbl \<times> string" where
  "num_frac n s =
     (if take 1 s = ''.'' \<and> tl s \<noteq> [] \<and> isdigit_char (hd (tl s)) then frac_digits n (d_of_int 0) (tl s)
      else (n, d_of_int 0, s))"

definition num_exp :: "string \<Rightarrow> 32 word \<times> string" where
  "num_exp s = (if take 1 s = ''e'' \<or> take 1 s = ''E'' then parse_exp (tl s) else (0, s))"

text \<open>\<^verbatim>\<open>parse_number\<close>: the number and the text behind it.\<close>

definition parse_number :: "string \<Rightarrow> dbl \<times> string" where
  "parse_number num =
     (let (sign, s1) = num_sign num;
          (n, s2) = num_int (num_zero s1);
          (m, scale, s3) = num_frac n s2;
          (k, s4) = num_exp s3
      in (d_mul (d_mul sign m) (d_pow10 (d_add scale (d_of_int (sint k)))), s4))"

section \<open>Values\<close>

definition skip :: "string \<Rightarrow> string" where
  "skip s = dropWhile (\<lambda>c. c \<noteq> NUL \<and> (of_char c :: nat) \<le> 32) s"

text \<open>
  The part of \<^verbatim>\<open>parse_array\<close> and \<^verbatim>\<open>parse_object\<close> around the loop over the entries, on the text
  from the opening bracket.
\<close>

definition parse_bracket :: "char \<Rightarrow> (string \<Rightarrow> cjson list pres) \<Rightarrow> jnode \<Rightarrow> string \<Rightarrow> cjson pres" where
  "parse_bracket close entries item v =
     (let w = skip (tl v)
      in if take 1 w = [close] then P_Ok (CJ item []) (tl w)
         else pbind (entries w) (\<lambda>cs r. if take 1 r = [close] then P_Ok (CJ item cs) (tl r) else P_Fail r))"

fun parse_value :: "nat \<Rightarrow> jnode \<Rightarrow> string \<Rightarrow> cjson pres"
and parse_items :: "nat \<Rightarrow> string \<Rightarrow> cjson list pres"
and parse_members :: "nat \<Rightarrow> string \<Rightarrow> cjson list pres"
where
  "parse_value 0 item v = P_Fuel"
| "parse_value (Suc f) item v =
     (if prefix ''null'' v then P_Ok (CJ (item\<lparr>j_type := cJSON_NULL\<rparr>) []) (drop 4 v)
      else if prefix ''false'' v then P_Ok (CJ (item\<lparr>j_type := cJSON_False\<rparr>) []) (drop 5 v)
      else if prefix ''true'' v then P_Ok (CJ (item\<lparr>j_type := cJSON_True, j_valueint := 1\<rparr>) []) (drop 4 v)
      else case v of
        [] \<Rightarrow> P_Fail v
      | c # w \<Rightarrow>
          if c = QUOTE then
            pbind (parse_string v) (\<lambda>s r. P_Ok (CJ (item\<lparr>j_valuestring := Some s, j_type := cJSON_String\<rparr>) []) r)
          else if c = CHR ''-'' \<or> isdigit_char c then
            (let (n, r) = parse_number v
             in P_Ok (CJ (item\<lparr>j_valuedouble := n, j_valueint := d_to_int n, j_type := cJSON_Number\<rparr>) []) r)
          else if c = CHR ''['' then parse_bracket (CHR '']'') (parse_items f) (item\<lparr>j_type := cJSON_Array\<rparr>) v
          else if c = CHR ''{'' then parse_bracket (CHR ''}'') (parse_members f) (item\<lparr>j_type := cJSON_Object\<rparr>) v
          else P_Fail v)"
| "parse_items 0 v = P_Fuel"
| "parse_items (Suc f) v =
     pbind (parse_value f new_item (skip v)) (\<lambda>c r.
       let w = skip r
       in if take 1 w = '','' then pbind (parse_items f (tl w)) (\<lambda>cs r'. P_Ok (c # cs) r')
          else P_Ok [c] w)"
| "parse_members 0 v = P_Fuel"
| "parse_members (Suc f) v =
     pbind (parse_string (skip v)) (\<lambda>s r.
       let w = skip r
       in if take 1 w \<noteq> '':'' then P_Fail w
          else pbind (parse_value f (new_item\<lparr>j_type := cJSON_String, j_string := Some s\<rparr>) (skip (tl w))) (\<lambda>c r'.
            let w' = skip r'
            in if take 1 w' = '','' then pbind (parse_members f (tl w')) (\<lambda>cs r''. P_Ok (c # cs) r'')
               else P_Ok [c] w'))"

definition json_fuel :: "string \<Rightarrow> nat" where
  "json_fuel s = 2 * length s + 1"

text \<open>\<^verbatim>\<open>cJSON_ParseWithOpts\<close>: the item with the end of the text read, or the place of the error.\<close>

definition cJSON_ParseWithOpts :: "string \<Rightarrow> bool \<Rightarrow> cjson pres" where
  "cJSON_ParseWithOpts value require_null_terminated =
     (let v = skip value
      in pbind (parse_value (json_fuel v) new_item v) (\<lambda>c end.
           if require_null_terminated then
             (let end' = skip end in if end' \<noteq> [] then P_Fail end' else P_Ok c end')
           else P_Ok c end))"

definition cJSON_Parse :: "string \<Rightarrow> cjson pres" where
  "cJSON_Parse value = cJSON_ParseWithOpts value False"

end
