(* ===== verification/Json_Heap.thy ===== *)
theory Json_Heap
  imports Json_Parse
begin

unbundle bit_operations_syntax

text \<open>
  The items of \<^verbatim>\<open>libjson.c\<close> as cells of a heap with their pointers \<^verbatim>\<open>next\<close>, \<^verbatim>\<open>prev\<close> and \<^verbatim>\<open>child\<close>,
  and the operations that walk and relink them. An access through a null pointer or to a cell that was
  freed is a fault; the walks to the end of a chain count down from a fuel, so that a cyclic chain is
  the fault \<open>Diverges\<close>. Strings are values; the heap keeps a list of those that were given to
  \<^verbatim>\<open>cJSON_free\<close>, in order.
\<close>

section \<open>The heap\<close>

record jcell = jnode +
  it_next :: "nat option"
  it_prev :: "nat option"
  it_child :: "nat option"

record jheap =
  hp_cells :: "nat \<Rightarrow> jcell option"
  hp_free :: nat
  hp_strs :: "string list"

abbreviation (input) cJSON_IsReference :: int where "cJSON_IsReference \<equiv> 256"
abbreviation (input) cJSON_StringIsConst :: int where "cJSON_StringIsConst \<equiv> 512"

definition cell_at :: "jheap \<Rightarrow> nat \<Rightarrow> jcell cres" where
  "cell_at h a = (case hp_cells h a of None \<Rightarrow> Inl Use_After_Free | Some k \<Rightarrow> Inr k)"

definition set_cell :: "jheap \<Rightarrow> nat \<Rightarrow> (jcell \<Rightarrow> jcell) \<Rightarrow> jheap cres" where
  "set_cell h a f = cbind (cell_at h a) (\<lambda>k. Inr (h\<lparr>hp_cells := (hp_cells h)(a \<mapsto> f k)\<rparr>))"

definition free_cell :: "jheap \<Rightarrow> nat \<Rightarrow> jheap cres" where
  "free_cell h a = cbind (cell_at h a) (\<lambda>_. Inr (h\<lparr>hp_cells := (hp_cells h)(a := None)\<rparr>))"

definition free_string :: "jheap \<Rightarrow> string option \<Rightarrow> jheap" where
  "free_string h s = (case s of None \<Rightarrow> h | Some t \<Rightarrow> h\<lparr>hp_strs := hp_strs h @ [t]\<rparr>)"

definition new_cell :: jcell where
  "new_cell = jnode.extend new_item \<lparr>it_next = None, it_prev = None, it_child = None\<rparr>"

definition cJSON_New_Item :: "jheap \<Rightarrow> nat \<times> jheap" where
  "cJSON_New_Item h =
     (hp_free h, h\<lparr>hp_cells := (hp_cells h)(hp_free h \<mapsto> new_cell), hp_free := Suc (hp_free h)\<rparr>)"

section \<open>Names\<close>

definition c_tolower :: "char \<Rightarrow> nat" where
  "c_tolower c = (let n = of_char c in if 65 \<le> n \<and> n \<le> 90 then n + 32 else n)"

fun lower_cmp :: "string \<Rightarrow> string \<Rightarrow> int" where
  "lower_cmp [] [] = 0"
| "lower_cmp [] (d # ds) = - int (c_tolower d)"
| "lower_cmp (c # cs) [] = int (c_tolower c)"
| "lower_cmp (c # cs) (d # ds) =
     (if c_tolower c = c_tolower d then lower_cmp cs ds else int (c_tolower c) - int (c_tolower d))"

definition cJSON_strcasecmp :: "string option \<Rightarrow> string option \<Rightarrow> int" where
  "cJSON_strcasecmp s1 s2 =
     (case s1 of
        None \<Rightarrow> (if s2 = None then 0 else 1)
      | Some a \<Rightarrow> (case s2 of None \<Rightarrow> 1 | Some b \<Rightarrow> lower_cmp a b))"

section \<open>Walking a chain\<close>

text \<open>\<^verbatim>\<open>while (c && which>0) c=c->next,which--\<close>\<close>

fun nth_item :: "jheap \<Rightarrow> nat option \<Rightarrow> nat \<Rightarrow> nat option cres" where
  "nth_item h c 0 = Inr c"
| "nth_item h None (Suc k) = Inr None"
| "nth_item h (Some a) (Suc k) = cbind (cell_at h a) (\<lambda>x. nth_item h (it_next x) k)"

text \<open>\<^verbatim>\<open>while (c && c->next) c=c->next\<close>, from an item.\<close>

fun last_item :: "nat \<Rightarrow> jheap \<Rightarrow> nat \<Rightarrow> nat cres" where
  "last_item 0 h a = Inl Diverges"
| "last_item (Suc f) h a =
     cbind (cell_at h a) (\<lambda>x. case it_next x of None \<Rightarrow> Inr a | Some b \<Rightarrow> last_item f h b)"

fun count_items :: "nat \<Rightarrow> jheap \<Rightarrow> nat option \<Rightarrow> nat \<Rightarrow> nat cres" where
  "count_items f h None i = Inr i"
| "count_items 0 h (Some a) i = Inl Diverges"
| "count_items (Suc f) h (Some a) i = cbind (cell_at h a) (\<lambda>x. count_items f h (it_next x) (i + 1))"

text \<open>\<^verbatim>\<open>while (c && cJSON_strcasecmp(c->string,string)) i++,c=c->next\<close>\<close>

fun find_item :: "nat \<Rightarrow> jheap \<Rightarrow> string option \<Rightarrow> nat option \<Rightarrow> nat \<Rightarrow> (nat option \<times> nat) cres" where
  "find_item f h s None i = Inr (None, i)"
| "find_item 0 h s (Some a) i = Inl Diverges"
| "find_item (Suc f) h s (Some a) i =
     cbind (cell_at h a) (\<lambda>x.
       if cJSON_strcasecmp (j_string x) s = 0 then Inr (Some a, i)
       else find_item f h s (it_next x) (i + 1))"

definition cJSON_GetArraySize :: "nat \<Rightarrow> jheap \<Rightarrow> nat \<Rightarrow> nat cres" where
  "cJSON_GetArraySize f h array = cbind (cell_at h array) (\<lambda>k. count_items f h (it_child k) 0)"

definition cJSON_GetArrayItem :: "jheap \<Rightarrow> nat option \<Rightarrow> int \<Rightarrow> nat option cres" where
  "cJSON_GetArrayItem h array i =
     (case array of None \<Rightarrow> Inr None | Some a \<Rightarrow> cbind (cell_at h a) (\<lambda>k. nth_item h (it_child k) (nat i)))"

definition cJSON_GetObjectItem :: "nat \<Rightarrow> jheap \<Rightarrow> nat option \<Rightarrow> string option \<Rightarrow> nat option cres" where
  "cJSON_GetObjectItem f h object s =
     (case object of None \<Rightarrow> Inr None
      | Some a \<Rightarrow> cbind (cell_at h a) (\<lambda>k. cbind (find_item f h s (it_child k) 0) (\<lambda>(c, i). Inr c)))"

definition cJSON_HasObjectItem :: "nat \<Rightarrow> jheap \<Rightarrow> nat option \<Rightarrow> string option \<Rightarrow> bool cres" where
  "cJSON_HasObjectItem f h object s = cbind (cJSON_GetObjectItem f h object s) (\<lambda>c. Inr (c \<noteq> None))"

section \<open>Adding\<close>

definition suffix_object :: "jheap \<Rightarrow> nat \<Rightarrow> nat \<Rightarrow> jheap cres" where
  "suffix_object h prev item =
     cbind (set_cell h prev (\<lambda>k. k\<lparr>it_next := Some item\<rparr>)) (\<lambda>h'. set_cell h' item (\<lambda>k. k\<lparr>it_prev := Some prev\<rparr>))"

definition cJSON_AddItemToArray :: "nat \<Rightarrow> jheap \<Rightarrow> nat \<Rightarrow> nat option \<Rightarrow> jheap cres" where
  "cJSON_AddItemToArray f h array item =
     cbind (cell_at h array) (\<lambda>k.
       case item of
         None \<Rightarrow> Inr h
       | Some i \<Rightarrow>
           (case it_child k of
              None \<Rightarrow> set_cell h array (\<lambda>k. k\<lparr>it_child := Some i\<rparr>)
            | Some c \<Rightarrow> cbind (last_item f h c) (\<lambda>l. suffix_object h l i)))"

text \<open>\<^verbatim>\<open>strdup\<close> of a null pointer faults.\<close>

definition cJSON_AddItemToObject :: "nat \<Rightarrow> jheap \<Rightarrow> nat \<Rightarrow> string option \<Rightarrow> nat option \<Rightarrow> jheap cres" where
  "cJSON_AddItemToObject f h object s item =
     (case item of
        None \<Rightarrow> Inr h
      | Some i \<Rightarrow>
          cbind (cell_at h i) (\<lambda>k.
          case s of
             None \<Rightarrow> Inl Null_Deref
           | Some n \<Rightarrow>
               cbind (set_cell (free_string h (j_string k)) i (\<lambda>k. k\<lparr>j_string := Some n\<rparr>))
                 (\<lambda>h'. cJSON_AddItemToArray f h' object (Some i))))"

definition cJSON_AddItemToObjectCS :: "nat \<Rightarrow> jheap \<Rightarrow> nat \<Rightarrow> string option \<Rightarrow> nat option \<Rightarrow> jheap cres" where
  "cJSON_AddItemToObjectCS f h object s item =
     (case item of
        None \<Rightarrow> Inr h
      | Some i \<Rightarrow>
          cbind (cell_at h i) (\<lambda>k.
            let h1 = (if j_type k AND cJSON_StringIsConst = 0 then free_string h (j_string k) else h)
            in cbind (set_cell h1 i (\<lambda>k. k\<lparr>j_string := s, j_type := j_type k OR cJSON_StringIsConst\<rparr>))
                 (\<lambda>h'. cJSON_AddItemToArray f h' object (Some i))))"

text \<open>A reference shares the children and the string of its item.\<close>

definition create_reference :: "jheap \<Rightarrow> nat \<Rightarrow> (nat \<times> jheap) cres" where
  "create_reference h item =
     (let (r, h1) = cJSON_New_Item h
      in cbind (cell_at h1 item) (\<lambda>k.
         cbind (set_cell h1 r (\<lambda>_. k\<lparr>j_string := None, j_type := j_type k OR cJSON_IsReference,
           it_next := None, it_prev := None\<rparr>)) (\<lambda>h2. Inr (r, h2))))"

definition cJSON_AddItemReferenceToArray :: "nat \<Rightarrow> jheap \<Rightarrow> nat \<Rightarrow> nat \<Rightarrow> jheap cres" where
  "cJSON_AddItemReferenceToArray f h array item =
     cbind (create_reference h item) (\<lambda>(r, h'). cJSON_AddItemToArray f h' array (Some r))"

definition cJSON_AddItemReferenceToObject :: "nat \<Rightarrow> jheap \<Rightarrow> nat \<Rightarrow> string option \<Rightarrow> nat \<Rightarrow> jheap cres" where
  "cJSON_AddItemReferenceToObject f h object s item =
     cbind (create_reference h item) (\<lambda>(r, h'). cJSON_AddItemToObject f h' object s (Some r))"

section \<open>Deleting\<close>

fun cJSON_Delete :: "nat \<Rightarrow> jheap \<Rightarrow> nat option \<Rightarrow> jheap cres" where
  "cJSON_Delete f h None = Inr h"
| "cJSON_Delete 0 h (Some c) = Inl Diverges"
| "cJSON_Delete (Suc f) h (Some c) =
     cbind (cell_at h c) (\<lambda>k.
     cbind (if j_type k AND cJSON_IsReference = 0 \<and> it_child k \<noteq> None then cJSON_Delete f h (it_child k) else Inr h) (\<lambda>h1.
     let h2 = (if j_type k AND cJSON_IsReference = 0 then free_string h1 (j_valuestring k) else h1);
         h3 = (if j_type k AND cJSON_StringIsConst = 0 then free_string h2 (j_string k) else h2)
     in cbind (free_cell h3 c) (\<lambda>h4. cJSON_Delete f h4 (it_next k))))"

section \<open>Detaching, inserting and replacing\<close>

definition set_link :: "(nat option \<Rightarrow> jcell \<Rightarrow> jcell) \<Rightarrow> jheap \<Rightarrow> nat option \<Rightarrow> nat option \<Rightarrow> jheap cres" where
  "set_link g h a v = (case a of None \<Rightarrow> Inr h | Some x \<Rightarrow> set_cell h x (g v))"

abbreviation set_next :: "nat option \<Rightarrow> jcell \<Rightarrow> jcell" where
  "set_next v k \<equiv> k\<lparr>it_next := v\<rparr>"

abbreviation set_prev :: "nat option \<Rightarrow> jcell \<Rightarrow> jcell" where
  "set_prev v k \<equiv> k\<lparr>it_prev := v\<rparr>"

definition cJSON_DetachItemFromArray :: "jheap \<Rightarrow> nat \<Rightarrow> int \<Rightarrow> (nat option \<times> jheap) cres" where
  "cJSON_DetachItemFromArray h array which =
     cbind (cell_at h array) (\<lambda>k0.
     cbind (nth_item h (it_child k0) (nat which)) (\<lambda>r.
       case r of
         None \<Rightarrow> Inr (None, h)
       | Some c \<Rightarrow>
           cbind (cell_at h c) (\<lambda>k.
           cbind (set_link set_next h (it_prev k) (it_next k)) (\<lambda>h1.
           cbind (cell_at h1 c) (\<lambda>k1.
           cbind (set_link set_prev h1 (it_next k1) (it_prev k1)) (\<lambda>h2.
           cbind (cell_at h2 c) (\<lambda>k2.
           cbind (if it_child k0 = Some c then set_cell h2 array (\<lambda>x. x\<lparr>it_child := it_next k2\<rparr>) else Inr h2) (\<lambda>h3.
           cbind (set_cell h3 c (\<lambda>x. x\<lparr>it_prev := None, it_next := None\<rparr>)) (\<lambda>h4. Inr (Some c, h4))))))))))"

definition cJSON_DeleteItemFromArray :: "nat \<Rightarrow> jheap \<Rightarrow> nat \<Rightarrow> int \<Rightarrow> jheap cres" where
  "cJSON_DeleteItemFromArray f h array which =
     cbind (cJSON_DetachItemFromArray h array which) (\<lambda>(c, h'). cJSON_Delete f h' c)"

definition cJSON_DetachItemFromObject :: "nat \<Rightarrow> jheap \<Rightarrow> nat \<Rightarrow> string option \<Rightarrow> (nat option \<times> jheap) cres" where
  "cJSON_DetachItemFromObject f h object s =
     cbind (cell_at h object) (\<lambda>k.
     cbind (find_item f h s (it_child k) 0) (\<lambda>(c, i).
       if c \<noteq> None then cJSON_DetachItemFromArray h object (int i) else Inr (None, h)))"

definition cJSON_DeleteItemFromObject :: "nat \<Rightarrow> jheap \<Rightarrow> nat \<Rightarrow> string option \<Rightarrow> jheap cres" where
  "cJSON_DeleteItemFromObject f h object s =
     cbind (cJSON_DetachItemFromObject f h object s) (\<lambda>(c, h'). cJSON_Delete f h' c)"

definition cJSON_InsertItemInArray :: "nat \<Rightarrow> jheap \<Rightarrow> nat \<Rightarrow> int \<Rightarrow> nat \<Rightarrow> jheap cres" where
  "cJSON_InsertItemInArray f h array which newitem =
     cbind (cell_at h array) (\<lambda>k0.
     cbind (nth_item h (it_child k0) (nat which)) (\<lambda>r.
       case r of
         None \<Rightarrow> cJSON_AddItemToArray f h array (Some newitem)
       | Some c \<Rightarrow>
           cbind (cell_at h c) (\<lambda>k.
           cbind (set_cell h newitem (\<lambda>x. x\<lparr>it_next := Some c, it_prev := it_prev k\<rparr>)) (\<lambda>h1.
           cbind (set_cell h1 c (\<lambda>x. x\<lparr>it_prev := Some newitem\<rparr>)) (\<lambda>h2.
             if it_child k0 = Some c then set_cell h2 array (\<lambda>x. x\<lparr>it_child := Some newitem\<rparr>)
             else cbind (cell_at h2 newitem) (\<lambda>n.
               case it_prev n of
                 None \<Rightarrow> Inl Null_Deref
               | Some p \<Rightarrow> set_cell h2 p (\<lambda>x. x\<lparr>it_next := Some newitem\<rparr>)))))))"

definition cJSON_ReplaceItemInArray :: "nat \<Rightarrow> jheap \<Rightarrow> nat \<Rightarrow> int \<Rightarrow> nat \<Rightarrow> jheap cres" where
  "cJSON_ReplaceItemInArray f h array which newitem =
     cbind (cell_at h array) (\<lambda>k0.
     cbind (nth_item h (it_child k0) (nat which)) (\<lambda>r.
       case r of
         None \<Rightarrow> Inr h
       | Some c \<Rightarrow>
           cbind (cell_at h c) (\<lambda>k.
           cbind (set_cell h newitem (\<lambda>x. x\<lparr>it_next := it_next k, it_prev := it_prev k\<rparr>)) (\<lambda>h1.
           cbind (set_link set_prev h1 (it_next k) (Some newitem)) (\<lambda>h2.
           cbind (if it_child k0 = Some c then set_cell h2 array (\<lambda>x. x\<lparr>it_child := Some newitem\<rparr>)
                  else cbind (cell_at h2 newitem) (\<lambda>n.
                    case it_prev n of
                      None \<Rightarrow> Inl Null_Deref
                    | Some p \<Rightarrow> set_cell h2 p (\<lambda>x. x\<lparr>it_next := Some newitem\<rparr>))) (\<lambda>h3.
           cbind (set_cell h3 c (\<lambda>x. x\<lparr>it_next := None, it_prev := None\<rparr>)) (\<lambda>h4. cJSON_Delete f h4 (Some c))))))))"

definition cJSON_ReplaceItemInObject :: "nat \<Rightarrow> jheap \<Rightarrow> nat \<Rightarrow> string option \<Rightarrow> nat \<Rightarrow> jheap cres" where
  "cJSON_ReplaceItemInObject f h object s newitem =
     cbind (cell_at h object) (\<lambda>k.
     cbind (find_item f h s (it_child k) 0) (\<lambda>(c, i).
       if c = None then Inr h
       else (case s of
               None \<Rightarrow> Inl Null_Deref
             | Some n \<Rightarrow> cbind (set_cell h newitem (\<lambda>x. x\<lparr>j_string := Some n\<rparr>)) (\<lambda>h'.
                 cJSON_ReplaceItemInArray f h' object (int i) newitem))))"

end
