(* ===== verification/Json_Heap_Props.thy ===== *)
theory Json_Heap_Props
  imports Json_Heap
begin

text \<open>
  The operations on the heap against lists: the children of an item are a doubly linked chain, and adding,
  detaching, inserting and replacing are the list operations on it. Deleting frees every cell of the tree
  once and no other.
\<close>

section \<open>Chains\<close>

text \<open>The cells \<open>xs\<close> from the pointer \<open>c\<close> to the pointer \<open>d\<close>, with \<open>p\<close> in front of the first.\<close>

fun seg :: "jheap \<Rightarrow> nat option \<Rightarrow> nat option \<Rightarrow> nat list \<Rightarrow> nat option \<Rightarrow> bool" where
  "seg h c p [] d \<longleftrightarrow> c = d"
| "seg h c p (x # xs) d \<longleftrightarrow>
     c = Some x \<and> (\<exists>k. hp_cells h x = Some k \<and> it_prev k = p \<and> seg h (it_next k) (Some x) xs d)"

definition last_of :: "nat option \<Rightarrow> nat list \<Rightarrow> nat option" where
  "last_of p xs = (if xs = [] then p else Some (last xs))"

definition array_of :: "jheap \<Rightarrow> nat \<Rightarrow> nat list \<Rightarrow> bool" where
  "array_of h a xs \<longleftrightarrow> distinct (a # xs) \<and> (\<exists>k. hp_cells h a = Some k \<and> seg h (it_child k) None xs None)"

lemma seg_append: "seg h c p (ys @ zs) d \<longleftrightarrow> (\<exists>e. seg h c p ys e \<and> seg h e (last_of p ys) zs d)"
  by (induction ys arbitrary: c p) (auto simp: last_of_def)

lemma seg_frame:
  assumes "\<And>x. x \<in> set xs \<Longrightarrow> hp_cells h' x = hp_cells h x"
  shows "seg h' c p xs d = seg h c p xs d"
  using assms by (induction xs arbitrary: c p) auto

lemma seg_live: "seg h c p xs d \<Longrightarrow> x \<in> set xs \<Longrightarrow> hp_cells h x \<noteq> None"
  by (induction xs arbitrary: c p) auto

lemma seg_head: "seg h c p xs d \<Longrightarrow> c = (if xs = [] then d else Some (hd xs))"
  by (cases xs) auto

text \<open>A write to a live cell, and the writes to a cell that may be none.\<close>

definition put :: "jheap \<Rightarrow> nat \<Rightarrow> (jcell \<Rightarrow> jcell) \<Rightarrow> jheap" where
  "put h a f = h\<lparr>hp_cells := (hp_cells h)(a := map_option f (hp_cells h a))\<rparr>"

definition put_opt :: "jheap \<Rightarrow> nat option \<Rightarrow> (jcell \<Rightarrow> jcell) \<Rightarrow> jheap" where
  "put_opt h a f = (case a of None \<Rightarrow> h | Some x \<Rightarrow> put h x f)"

lemma set_cell_put: "hp_cells h a \<noteq> None \<Longrightarrow> set_cell h a f = Inr (put h a f)"
  by (auto simp: set_cell_def cell_at_def put_def)

lemma set_link_put: "(\<And>x. a = Some x \<Longrightarrow> hp_cells h x \<noteq> None) \<Longrightarrow> set_link g h a v = Inr (put_opt h a (g v))"
  by (cases a) (simp_all add: set_link_def put_opt_def set_cell_put)

lemma put_cells: "hp_cells (put h a f) x = (if x = a then map_option f (hp_cells h a) else hp_cells h x)"
  by (simp add: put_def)

lemma put_opt_cells: "hp_cells (put_opt h a f) x = (if a = Some x then map_option f (hp_cells h x) else hp_cells h x)"
  by (cases a) (auto simp: put_opt_def put_cells)

text \<open>The two ways to relink a chain: at its end and at its start.\<close>

lemma seg_set_next:
  assumes "seg h c p ys e" "distinct ys" "ys \<noteq> []"
  shows "seg (put h (last ys) (set_next e')) c p ys e'"
  using assms
proof (induction ys arbitrary: c p)
  case (Cons y ys)
  show ?case
  proof (cases ys)
    case (Cons z zs)
    then have "last ys \<noteq> y" using Cons.prems by (metis distinct.simps(2) last_in_set list.distinct(1))
    then show ?thesis using Cons.IH Cons.prems Cons by (auto simp: put_cells)
  qed (use Cons.prems in \<open>auto simp: put_cells\<close>)
qed simp

lemma seg_set_prev:
  assumes "seg h c p zs d" "distinct zs" "zs \<noteq> []"
  shows "seg (put h (hd zs) (set_prev p')) c p' zs d"
proof -
  obtain z zs' where zs: "zs = z # zs'" using assms(3) by (cases zs) auto
  obtain k where k: "hp_cells h z = Some k" "c = Some z" "seg h (it_next k) (Some z) zs' d" using assms(1) zs by auto
  have "seg (put h z (set_prev p')) (it_next k) (Some z) zs' d"
    using k(3) assms(2) zs by (subst seg_frame) (auto simp: put_cells)
  then show ?thesis using k zs by (simp add: put_cells)
qed

lemma seg_set_data:
  assumes "\<And>k. it_next (f k) = it_next k \<and> it_prev (f k) = it_prev k"
  shows "seg (put h a f) c p xs d = seg h c p xs d"
  by (induction xs arbitrary: c p) (auto simp: put_cells assms)

section \<open>The walks\<close>

lemma nth_item_seg: "seg h c p xs None \<Longrightarrow> nth_item h c n = Inr (if n < length xs then Some (xs ! n) else None)"
proof (induction n arbitrary: c p xs)
  case 0
  then show ?case by (cases xs) auto
next
  case (Suc n)
  then show ?case by (cases xs) (auto simp: cell_at_def)
qed

lemma last_item_seg: "seg h (Some a) p xs None \<Longrightarrow> length xs \<le> f \<Longrightarrow> last_item f h a = Inr (last xs)"
proof (induction f arbitrary: a p xs)
  case 0
  then show ?case by (cases xs) auto
next
  case (Suc f)
  then obtain ys k where "xs = a # ys" "hp_cells h a = Some k" "seg h (it_next k) (Some a) ys None" by (cases xs) auto
  then show ?case using Suc.IH [of _ "Some a" ys] Suc.prems(2) by (cases ys) (auto simp: cell_at_def)
qed

lemma count_items_seg: "seg h c p xs None \<Longrightarrow> length xs \<le> f \<Longrightarrow> count_items f h c i = Inr (i + length xs)"
proof (induction xs arbitrary: f c p i)
  case (Cons x xs)
  then show ?case by (cases f) (auto simp: cell_at_def)
qed simp

definition has_name :: "jheap \<Rightarrow> string option \<Rightarrow> nat \<Rightarrow> bool" where
  "has_name h s x \<longleftrightarrow> (\<exists>k. hp_cells h x = Some k \<and> cJSON_strcasecmp (j_string k) s = 0)"

lemma find_item_seg:
  "seg h c p xs None \<Longrightarrow> length xs \<le> f \<Longrightarrow>
   find_item f h s c i =
     (let n = length (takeWhile (\<lambda>x. \<not> has_name h s x) xs)
      in Inr (if n < length xs then Some (xs ! n) else None, i + n))"
proof (induction xs arbitrary: f c p i)
  case (Cons x xs)
  then show ?case by (cases f) (auto simp: cell_at_def has_name_def Let_def)
qed simp

section \<open>What relinking leaves alone\<close>

text \<open>
  Only the links of the cells in \<open>S\<close> and the child pointer of \<open>a\<close> differ; no cell appears or goes, and
  types, values and names stay.
\<close>

definition relinks :: "nat \<Rightarrow> nat set \<Rightarrow> jheap \<Rightarrow> jheap \<Rightarrow> bool" where
  "relinks a S h h' \<longleftrightarrow>
     (\<forall>x. map_option jnode.truncate (hp_cells h' x) = map_option jnode.truncate (hp_cells h x) \<and>
        (x \<noteq> a \<longrightarrow> map_option it_child (hp_cells h' x) = map_option it_child (hp_cells h x)) \<and>
        (x \<notin> insert a S \<longrightarrow> hp_cells h' x = hp_cells h x))"

lemma relinks_refl: "relinks a S h h"
  by (simp add: relinks_def)

lemma relinks_put:
  assumes "relinks a S h h'" "\<And>k. jnode.truncate (f k) = jnode.truncate k"
    "x = a \<or> x \<in> S \<and> (\<forall>k. it_child (f k) = it_child k)"
  shows "relinks a S h (put h' x f)"
proof -
  have "map_option (g \<circ> f) m = map_option g m" if "\<And>k. g (f k) = g k" for g :: "jcell \<Rightarrow> 'b" and m
    using that by (cases m) simp_all
  then show ?thesis
    using assms by (auto simp: relinks_def put_cells option.map_comp o_def)
qed

lemma truncate_links [simp]:
  "jnode.truncate (k\<lparr>it_next := v\<rparr>) = jnode.truncate k" "jnode.truncate (k\<lparr>it_prev := v\<rparr>) = jnode.truncate k"
  "jnode.truncate (k\<lparr>it_child := v\<rparr>) = jnode.truncate k"
  by (simp_all add: jnode.truncate_def)

lemma relinks_put_opt:
  assumes "relinks a S h h'" "\<And>k. jnode.truncate (f k) = jnode.truncate k" "\<And>k. it_child (f k) = it_child k"
    "\<And>x. q = Some x \<Longrightarrow> x \<in> S"
  shows "relinks a S h (put_opt h' q f)"
  using assms relinks_put [OF assms(1,2)] by (cases q) (simp_all add: put_opt_def)

section \<open>Detaching\<close>

lemma array_split:
  assumes "array_of h a (ys @ c # zs)"
  obtains k0 k where "hp_cells h a = Some k0" "hp_cells h c = Some k" "seg h (it_child k0) None ys (Some c)"
    "it_prev k = last_of None ys" "seg h (it_next k) (Some c) zs None"
    "it_next k = (if zs = [] then None else Some (hd zs))" "it_child k0 = Some c \<longleftrightarrow> ys = []"
proof -
  obtain k0 where k0: "hp_cells h a = Some k0" "seg h (it_child k0) None (ys @ c # zs) None" "distinct (a # ys @ c # zs)"
    using assms by (auto simp: array_of_def)
  then obtain k where k: "seg h (it_child k0) None ys (Some c)" "hp_cells h c = Some k" "it_prev k = last_of None ys"
    "seg h (it_next k) (Some c) zs None" unfolding seg_append by auto
  have "it_child k0 = Some c \<longleftrightarrow> ys = []"
    using seg_head [OF k(1)] k0(3) by (cases ys) auto
  then show ?thesis using that k0(1) k seg_head [OF k(4)] by blast
qed

lemma detach_relinks:
  assumes "array_of h a (ys @ c # zs)" "nat which = length ys"
  shows "\<exists>h'. cJSON_DetachItemFromArray h a which = Inr (Some c, h') \<and> array_of h' a (ys @ zs) \<and>
    (\<exists>k. hp_cells h' c = Some k \<and> it_prev k = None \<and> it_next k = None) \<and> relinks a (set (ys @ c # zs)) h h' \<and> hp_free h' = hp_free h"
proof -
  obtain k0 k where k0: "hp_cells h a = Some k0" and k: "hp_cells h c = Some k"
    and ys: "seg h (it_child k0) None ys (Some c)" and pk: "it_prev k = last_of None ys"
    and zs: "seg h (it_next k) (Some c) zs None" and nk: "it_next k = (if zs = [] then None else Some (hd zs))"
    and ch: "it_child k0 = Some c \<longleftrightarrow> ys = []"
    using array_split [OF assms(1)] by blast
  have d: "distinct (a # ys @ c # zs)" using assms(1) by (simp add: array_of_def)
  define h1 where "h1 = put_opt h (last_of None ys) (set_next (it_next k))"
  define h2 where "h2 = put_opt h1 (it_next k) (set_prev (it_prev k))"
  define h3 where "h3 = (if ys = [] then put h2 a (\<lambda>x. x\<lparr>it_child := it_next k\<rparr>) else h2)"
  define h4 where "h4 = put h3 c (\<lambda>x. x\<lparr>it_prev := None, it_next := None\<rparr>)"
  have live: "hp_cells h x \<noteq> None" if "x \<in> set (a # ys @ c # zs)" for x
    using that k0 k seg_live [OF ys, of x] seg_live [OF zs, of x] by auto
  have r1: "relinks a (set (ys @ c # zs)) h h1"
    unfolding h1_def by (intro relinks_put_opt relinks_refl) (auto simp: last_of_def split: if_splits)
  have r2: "relinks a (set (ys @ c # zs)) h h2"
    unfolding h2_def using r1 by (intro relinks_put_opt) (auto simp: nk split: if_splits)
  have r3: "relinks a (set (ys @ c # zs)) h h3"
    unfolding h3_def using r2 by (auto intro: relinks_put)
  have r4: "relinks a (set (ys @ c # zs)) h h4"
    unfolding h4_def using r3 by (intro relinks_put) (auto simp: jnode.truncate_def)
  have alive: "relinks a S h g \<Longrightarrow> hp_cells h x \<noteq> None \<Longrightarrow> hp_cells g x \<noteq> None" for S g x
    unfolding relinks_def by (metis map_option_is_None)
  have "nth_item h (it_child k0) (length ys) = Inr (Some c)"
    using nth_item_seg [of h "it_child k0" None "ys @ c # zs" "length ys"] assms(1) k0 by (simp add: array_of_def)
  moreover have "set_link set_next h (it_prev k) (it_next k) = Inr h1"
    unfolding h1_def pk by (intro set_link_put live) (auto simp: last_of_def split: if_splits)
  moreover have "set_link set_prev h1 (it_next k) (it_prev k) = Inr h2"
    unfolding h2_def by (intro set_link_put alive [OF r1] live) (auto simp: nk split: if_splits)
  moreover have "(if it_child k0 = Some c then set_cell h2 a (\<lambda>x. x\<lparr>it_child := it_next k\<rparr>) else Inr h2) = Inr h3"
    using alive [OF r2 live, of a] by (simp add: ch h3_def set_cell_put)
  moreover have "set_cell h3 c (\<lambda>x. x\<lparr>it_prev := None, it_next := None\<rparr>) = Inr h4"
    using alive [OF r3 live, of c] by (simp add: h4_def set_cell_put)
  moreover have "hp_cells h1 c = Some k" "hp_cells h2 c = Some k"
    using k d hd_in_set [of zs] last_in_set [of ys]
    by (auto simp: h1_def h2_def put_opt_cells nk last_of_def split: if_splits)
  ultimately have run: "cJSON_DetachItemFromArray h a which = Inr (Some c, h4)"
    using assms(2) k0 k by (simp add: cJSON_DetachItemFromArray_def cell_at_def)
  have cells: "hp_cells h4 x = hp_cells h x" if "x \<notin> insert a (set (ys @ c # zs))" for x
    using r4 that by (simp add: relinks_def)
  have s1: "seg h1 (it_child k0) None ys (it_next k)" if "ys \<noteq> []"
    using seg_set_next [OF ys _ that] d that by (simp add: h1_def put_opt_def last_of_def)
  have s4: "seg h4 (it_child k0) None ys (it_next k)" if "ys \<noteq> []"
    using s1 [OF that] d that
    by (subst seg_frame [of _ _ h1]) (auto simp: h4_def h3_def h2_def put_cells put_opt_cells nk split: if_splits)
  have ly: "last ys \<notin> set zs" if "ys \<noteq> []"
    using d last_in_set [OF that] by auto
  have z2: "seg h4 (it_next k) (last_of None ys) zs None"
  proof (cases "zs = []")
    case False
    have "seg h1 (it_next k) (Some c) zs None"
      using zs ly by (subst seg_frame [of _ _ h]) (auto simp: h1_def put_opt_cells last_of_def split: if_splits)
    then have "seg h2 (it_next k) (last_of None ys) zs None"
      using seg_set_prev [of h1 _ _ zs] d False by (simp add: h2_def nk put_opt_def pk)
    then show ?thesis
      using d by (subst seg_frame [of _ _ h2]) (auto simp: h4_def h3_def put_cells split: if_splits)
  qed (simp add: nk)
  have ac: "\<exists>k1. hp_cells h4 a = Some k1 \<and> it_child k1 = (if ys = [] then it_next k else it_child k0)"
    using k0 d by (auto simp: h4_def h3_def h2_def h1_def put_cells put_opt_cells last_of_def nk split: if_splits)
  have "array_of h4 a (ys @ zs)"
  proof (cases "ys = []")
    case True
    then show ?thesis using ac z2 d by (auto simp: array_of_def last_of_def)
  next
    case False
    then show ?thesis using ac s4 z2 d by (auto simp: array_of_def seg_append)
  qed
  moreover have "\<exists>k'. hp_cells h4 c = Some k' \<and> it_prev k' = None \<and> it_next k' = None"
    using alive [OF r3 live, of c] by (auto simp: h4_def put_cells)
  moreover have "hp_free h4 = hp_free h"
    by (simp add: h4_def h3_def h2_def h1_def put_def put_opt_def split: option.splits)
  ultimately show ?thesis using run r4 by blast
qed

end
