(* ===== verification/Json_Lists.thy ===== *)
theory Json_Lists
  imports Json_Heap_Props
begin

text \<open>
  Adding, inserting, replacing and deleting on the chains of \<^verbatim>\<open>libjson.c\<close>, as the list operations that
  they implement.
\<close>

section \<open>Adding\<close>

text \<open>An item that is in no chain.\<close>

definition loose :: "jheap \<Rightarrow> nat \<Rightarrow> bool" where
  "loose h i \<longleftrightarrow> (\<exists>k. hp_cells h i = Some k \<and> it_prev k = None \<and> it_next k = None)"

lemma relinks_live: "relinks a S h g \<Longrightarrow> hp_cells h x \<noteq> None \<Longrightarrow> hp_cells g x \<noteq> None"
  unfolding relinks_def by (metis map_option_is_None)

lemma array_live: "array_of h a xs \<Longrightarrow> x \<in> set (a # xs) \<Longrightarrow> hp_cells h x \<noteq> None"
  using seg_live by (fastforce simp: array_of_def)

lemma add_relinks:
  assumes "array_of h a xs" "loose h i" "i \<notin> set (a # xs)" "length xs \<le> f"
  shows "\<exists>h'. cJSON_AddItemToArray f h a (Some i) = Inr h' \<and> array_of h' a (xs @ [i]) \<and>
    relinks a (set (xs @ [i])) h h' \<and> hp_free h' = hp_free h"
proof -
  obtain k0 where k0: "hp_cells h a = Some k0" "seg h (it_child k0) None xs None" "distinct (a # xs)"
    using assms(1) by (auto simp: array_of_def)
  obtain ki where ki: "hp_cells h i = Some ki" "it_prev ki = None" "it_next ki = None"
    using assms(2) by (auto simp: loose_def)
  show ?thesis
  proof (cases "xs = []")
    case True
    define h' where "h' = put h a (\<lambda>k. k\<lparr>it_child := Some i\<rparr>)"
    have "cJSON_AddItemToArray f h a (Some i) = Inr h'"
      using k0 True by (simp add: cJSON_AddItemToArray_def cell_at_def h'_def set_cell_put)
    moreover have "array_of h' a [i]"
      using k0 ki assms(3) by (auto simp: array_of_def h'_def put_cells)
    moreover have "relinks a {i} h h'" unfolding h'_def by (intro relinks_put relinks_refl) auto
    ultimately show ?thesis using True by (simp add: h'_def put_def)
  next
    case False
    obtain c where c: "it_child k0 = Some c" using seg_head [OF k0(2)] False by auto
    define l where "l = last xs"
    have l: "l \<in> set xs" using False by (simp add: l_def)
    define h1 where "h1 = put h l (set_next (Some i))"
    define h2 where "h2 = put h1 i (set_prev (Some l))"
    have "hp_cells h l \<noteq> None" using array_live [OF assms(1)] l by simp
    then have "suffix_object h l i = Inr h2"
      using ki l assms(3) by (simp add: suffix_object_def set_cell_put h1_def h2_def put_cells)
    moreover have "last_item f h c = Inr l"
      using last_item_seg [of h c None xs f] k0(2) c assms(4) by (simp add: l_def)
    ultimately have "cJSON_AddItemToArray f h a (Some i) = Inr h2"
      using k0 c by (simp add: cJSON_AddItemToArray_def cell_at_def)
    moreover have "array_of h2 a (xs @ [i])"
    proof -
      have "seg h1 (it_child k0) None xs (Some i)"
        unfolding h1_def l_def using k0 False by (intro seg_set_next) auto
      then have "seg h2 (it_child k0) None xs (Some i)"
        using assms(3) by (subst seg_frame [of _ _ h1]) (auto simp: h2_def put_cells)
      moreover have "hp_cells h2 a = Some k0" using k0(1,3) l assms(3) by (auto simp: h2_def h1_def put_cells)
      moreover have "seg h2 (Some i) (Some l) [i] None" using ki l assms(3) by (auto simp: h2_def h1_def put_cells)
      ultimately show ?thesis using k0(3) assms(3) False by (auto simp: array_of_def seg_append last_of_def l_def)
    qed
    moreover have "relinks a (set (xs @ [i])) h h2"
      unfolding h2_def h1_def using l by (intro relinks_put relinks_refl) auto
    ultimately show ?thesis by (auto simp: h2_def h1_def put_def)
  qed
qed

section \<open>Inserting\<close>

lemma insert_relinks:
  assumes "array_of h a (ys @ c # zs)" "nat which = length ys" "loose h i" "i \<notin> set (a # ys @ c # zs)"
  shows "\<exists>h'. cJSON_InsertItemInArray f h a which i = Inr h' \<and> array_of h' a (ys @ i # c # zs) \<and>
    relinks a (set (ys @ i # c # zs)) h h'"
proof -
  obtain k0 k where k0: "hp_cells h a = Some k0" and k: "hp_cells h c = Some k"
    and ys: "seg h (it_child k0) None ys (Some c)" and pk: "it_prev k = last_of None ys"
    and zs: "seg h (it_next k) (Some c) zs None" and ch: "it_child k0 = Some c \<longleftrightarrow> ys = []"
    using array_split [OF assms(1)] by blast
  have d: "distinct (a # ys @ c # zs)" using assms(1) by (simp add: array_of_def)
  obtain ki where ki: "hp_cells h i = Some ki" using assms(3) by (auto simp: loose_def)
  define h1 where "h1 = put h i (\<lambda>x. x\<lparr>it_next := Some c, it_prev := it_prev k\<rparr>)"
  define h2 where "h2 = put h1 c (set_prev (Some i))"
  define h3 where "h3 = (if ys = [] then put h2 a (\<lambda>x. x\<lparr>it_child := Some i\<rparr>) else put h2 (last ys) (set_next (Some i)))"
  have lst: "last ys \<in> set ys" if "ys \<noteq> []" using that by simp
  have live: "hp_cells h x \<noteq> None" if "x \<in> set (a # ys @ c # zs)" for x using array_live [OF assms(1) that] .
  have r: "relinks a (set (ys @ i # c # zs)) h h1" "relinks a (set (ys @ i # c # zs)) h h2"
    "relinks a (set (ys @ i # c # zs)) h h3"
    unfolding h3_def h2_def h1_def by (auto intro!: relinks_put relinks_refl simp: jnode.truncate_def lst)
  have "nth_item h (it_child k0) (length ys) = Inr (Some c)"
    using nth_item_seg [of h "it_child k0" None "ys @ c # zs" "length ys"] assms(1) k0 by (simp add: array_of_def)
  moreover have "set_cell h i (\<lambda>x. x\<lparr>it_next := Some c, it_prev := it_prev k\<rparr>) = Inr h1"
    unfolding h1_def using ki by (intro set_cell_put) simp
  moreover have "set_cell h1 c (\<lambda>x. x\<lparr>it_prev := Some i\<rparr>) = Inr h2"
    unfolding h2_def by (intro set_cell_put relinks_live [OF r(1)] live) simp
  moreover have n2: "cell_at h2 i = Inr (ki\<lparr>it_next := Some c, it_prev := it_prev k\<rparr>)"
    using ki assms(4) by (simp add: cell_at_def h2_def h1_def put_cells)
  moreover have "(if it_child k0 = Some c then set_cell h2 a (\<lambda>x. x\<lparr>it_child := Some i\<rparr>)
       else cbind (cell_at h2 i) (\<lambda>n. case it_prev n of None \<Rightarrow> Inl Null_Deref
         | Some p \<Rightarrow> set_cell h2 p (\<lambda>x. x\<lparr>it_next := Some i\<rparr>))) = Inr h3"
    using relinks_live [OF r(2) live] lst by (auto simp: ch pk n2 last_of_def h3_def set_cell_put)
  ultimately have run: "cJSON_InsertItemInArray f h a which i = Inr h3"
    using assms(2) k0 k by (simp add: cJSON_InsertItemInArray_def cell_at_def)
  have ln: "last ys \<noteq> a \<and> last ys \<noteq> c \<and> last ys \<noteq> i \<and> last ys \<notin> set zs" if "ys \<noteq> []"
    using lst [OF that] d assms(4) by auto
  have ne: "a \<noteq> c" "a \<noteq> i" "c \<noteq> i" "c \<notin> set ys" "i \<notin> set ys" "a \<notin> set zs" "c \<notin> set zs" "i \<notin> set zs"
    using d assms(4) by auto
  have fr: "hp_cells h3 x = hp_cells h x" if "x \<noteq> a" "x \<noteq> c" "x \<noteq> i" "ys \<noteq> [] \<Longrightarrow> x \<noteq> last ys" for x
    using that by (cases "ys = []") (simp_all add: h3_def h2_def h1_def put_cells)
  have "hp_cells h3 x = hp_cells h x" if "x \<in> set zs" for x
    using that ln ne by (intro fr) metis+
  then have z3: "seg h3 (it_next k) (Some c) zs None" using zs seg_frame by blast
  have y3: "seg h3 (if ys = [] then Some i else it_child k0) None ys (Some i)"
  proof (cases "ys = []")
    case False
    have "seg h2 (it_child k0) None ys (Some c)"
      using ys d assms(4) by (subst seg_frame [of _ _ h]) (auto simp: h2_def h1_def put_cells)
    then show ?thesis using False d seg_set_next [of h2 "it_child k0" None ys "Some c" "Some i"] by (simp add: h3_def)
  qed simp
  have c3: "hp_cells h3 i = Some (ki\<lparr>it_next := Some c, it_prev := it_prev k\<rparr>)" "hp_cells h3 c = Some (k\<lparr>it_prev := Some i\<rparr>)"
    "\<exists>k1. hp_cells h3 a = Some k1 \<and> it_child k1 = (if ys = [] then Some i else it_child k0)"
    using ki k k0 ln ne by (cases "ys = []"; simp add: h3_def h2_def h1_def put_cells)+
  have "array_of h3 a (ys @ i # c # zs)"
    using c3 y3 z3 d assms(4) pk by (auto simp: array_of_def seg_append)
  then show ?thesis using run r(3) by blast
qed

section \<open>Replacing\<close>

text \<open>The relinking; what is left to do is to delete the item that is out of the chain.\<close>

lemma replace_relinks:
  assumes "array_of h a (ys @ c # zs)" "nat which = length ys" "loose h i" "i \<notin> set (a # ys @ c # zs)"
  shows "\<exists>h'. cJSON_ReplaceItemInArray f h a which i = cJSON_Delete f h' (Some c) \<and> array_of h' a (ys @ i # zs) \<and>
    loose h' c \<and> relinks a (set (i # ys @ c # zs)) h h'"
proof -
  obtain k0 k where k0: "hp_cells h a = Some k0" and k: "hp_cells h c = Some k"
    and ys: "seg h (it_child k0) None ys (Some c)" and pk: "it_prev k = last_of None ys"
    and zs: "seg h (it_next k) (Some c) zs None" and nk: "it_next k = (if zs = [] then None else Some (hd zs))"
    and ch: "it_child k0 = Some c \<longleftrightarrow> ys = []"
    using array_split [OF assms(1)] by blast
  have d: "distinct (a # ys @ c # zs)" using assms(1) by (simp add: array_of_def)
  obtain ki where ki: "hp_cells h i = Some ki" using assms(3) by (auto simp: loose_def)
  define h1 where "h1 = put h i (\<lambda>x. x\<lparr>it_next := it_next k, it_prev := it_prev k\<rparr>)"
  define h2 where "h2 = put_opt h1 (it_next k) (set_prev (Some i))"
  define h3 where "h3 = (if ys = [] then put h2 a (\<lambda>x. x\<lparr>it_child := Some i\<rparr>) else put h2 (last ys) (set_next (Some i)))"
  define h4 where "h4 = put h3 c (\<lambda>x. x\<lparr>it_next := None, it_prev := None\<rparr>)"
  have lst: "last ys \<in> set ys" if "ys \<noteq> []" using that by simp
  have hz: "hd zs \<in> set zs" if "zs \<noteq> []" using that by simp
  have live: "hp_cells h x \<noteq> None" if "x \<in> set (a # ys @ c # zs)" for x using array_live [OF assms(1) that] .
  let ?S = "set (i # ys @ c # zs)"
  have r1: "relinks a ?S h h1"
    unfolding h1_def by (intro relinks_put relinks_refl) (auto simp: jnode.truncate_def)
  then have r2: "relinks a ?S h h2"
    unfolding h2_def by (intro relinks_put_opt) (auto simp: nk split: if_splits)
  then have r3: "relinks a ?S h h3"
    unfolding h3_def by (auto intro!: relinks_put simp: lst)
  then have r4: "relinks a ?S h h4"
    unfolding h4_def by (intro relinks_put) (auto simp: jnode.truncate_def)
  have "nth_item h (it_child k0) (length ys) = Inr (Some c)"
    using nth_item_seg [of h "it_child k0" None "ys @ c # zs" "length ys"] assms(1) k0 by (simp add: array_of_def)
  moreover have "set_cell h i (\<lambda>x. x\<lparr>it_next := it_next k, it_prev := it_prev k\<rparr>) = Inr h1"
    unfolding h1_def using ki by (intro set_cell_put) simp
  moreover have "set_link set_prev h1 (it_next k) (Some i) = Inr h2"
    unfolding h2_def by (intro set_link_put relinks_live [OF r1] live) (auto simp: nk split: if_splits)
  moreover have n2: "cell_at h2 i = Inr (ki\<lparr>it_next := it_next k, it_prev := it_prev k\<rparr>)"
    using ki assms(4) hz by (cases "zs = []") (auto simp: cell_at_def h2_def h1_def put_cells put_opt_cells nk)
  moreover have "(if it_child k0 = Some c then set_cell h2 a (\<lambda>x. x\<lparr>it_child := Some i\<rparr>)
       else cbind (cell_at h2 i) (\<lambda>n. case it_prev n of None \<Rightarrow> Inl Null_Deref
         | Some p \<Rightarrow> set_cell h2 p (\<lambda>x. x\<lparr>it_next := Some i\<rparr>))) = Inr h3"
    using relinks_live [OF r2 live] lst by (auto simp: ch pk n2 last_of_def h3_def set_cell_put)
  moreover have "set_cell h3 c (\<lambda>x. x\<lparr>it_next := None, it_prev := None\<rparr>) = Inr h4"
    unfolding h4_def by (intro set_cell_put relinks_live [OF r3] live) simp
  ultimately have run: "cJSON_ReplaceItemInArray f h a which i = cJSON_Delete f h4 (Some c)"
    using assms(2) k0 k by (simp add: cJSON_ReplaceItemInArray_def cell_at_def)
  have ln: "last ys \<noteq> a \<and> last ys \<noteq> c \<and> last ys \<noteq> i \<and> last ys \<notin> set zs" if "ys \<noteq> []"
    using lst [OF that] d assms(4) by auto
  have hn: "hd zs \<noteq> a \<and> hd zs \<noteq> c \<and> hd zs \<noteq> i \<and> hd zs \<notin> set ys" if "zs \<noteq> []"
    using hz [OF that] d assms(4) by auto
  have ne: "a \<noteq> c" "a \<noteq> i" "c \<noteq> i" "c \<notin> set ys" "i \<notin> set ys" "a \<notin> set ys" "a \<notin> set zs" "c \<notin> set zs" "i \<notin> set zs"
    "distinct ys" "distinct zs"
    using d assms(4) by auto
  have z4: "seg h4 (it_next k) (Some i) zs None"
  proof (cases "zs = []")
    case False
    have "hp_cells h1 x = hp_cells h x" if "x \<in> set zs" for x using that ne by (auto simp: h1_def put_cells)
    then have "seg h1 (it_next k) (Some c) zs None" using zs seg_frame by blast
    then have "seg h2 (it_next k) (Some i) zs None"
      using seg_set_prev [of h1 _ _ zs] ne False by (simp add: h2_def nk put_opt_def)
    moreover have "hp_cells h4 x = hp_cells h2 x" if "x \<in> set zs" for x
    proof -
      have "x \<noteq> a" "x \<noteq> c" "ys \<noteq> [] \<Longrightarrow> x \<noteq> last ys" using that ne ln by metis+
      then show ?thesis by (cases "ys = []") (simp_all add: h4_def h3_def put_cells)
    qed
    ultimately show ?thesis using seg_frame by blast
  qed (simp add: nk)
  have y4: "seg h4 (if ys = [] then Some i else it_child k0) None ys (Some i)"
  proof (cases "ys = []")
    case False
    have "hp_cells h2 x = hp_cells h x" if "x \<in> set ys" for x
    proof -
      have "x \<noteq> i" "zs \<noteq> [] \<Longrightarrow> x \<noteq> hd zs" using that ne hn by metis+
      then show ?thesis by (cases "zs = []") (simp_all add: h2_def h1_def put_cells put_opt_cells nk)
    qed
    then have "seg h2 (it_child k0) None ys (Some c)" using ys seg_frame by blast
    then have "seg h3 (it_child k0) None ys (Some i)"
      using False ne seg_set_next [of h2 "it_child k0" None ys "Some c" "Some i"] by (simp add: h3_def)
    moreover have "hp_cells h4 x = hp_cells h3 x" if "x \<in> set ys" for x using that ne by (auto simp: h4_def put_cells)
    ultimately have "seg h4 (it_child k0) None ys (Some i)" using seg_frame by blast
    then show ?thesis using False by simp
  qed simp
  have nx: "it_next k \<noteq> Some i" "it_next k \<noteq> Some a" using hn by (cases "zs = []"; simp add: nk)+
  have c4: "hp_cells h4 i = Some (ki\<lparr>it_next := it_next k, it_prev := it_prev k\<rparr>)"
    using ki nx ne ln by (cases "ys = []") (simp_all add: h4_def h3_def h2_def h1_def put_cells put_opt_cells)
  have a4: "\<exists>k1. hp_cells h4 a = Some k1 \<and> it_child k1 = (if ys = [] then Some i else it_child k0)"
    using k0 nx ne ln by (cases "ys = []") (simp_all add: h4_def h3_def h2_def h1_def put_cells put_opt_cells)
  have l4: "loose h4 c"
    using relinks_live [OF r3 live, of c] by (auto simp: loose_def h4_def put_cells)
  have "array_of h4 a (ys @ i # zs)"
    using c4 a4 y4 z4 d assms(4) pk by (auto simp: array_of_def seg_append)
  then show ?thesis using run r4 l4 by blast
qed

section \<open>Deleting\<close>

text \<open>
  The cells that a pointer owns: those of the chain, and below each of them the children unless it is a
  reference, in the order in which \<^verbatim>\<open>cJSON_Delete\<close> frees them.
\<close>

inductive owned :: "jheap \<Rightarrow> nat option \<Rightarrow> nat list \<Rightarrow> bool" for h where
  owned_None: "owned h None []"
| owned_Some: "hp_cells h c = Some k \<Longrightarrow>
    owned h (if j_type k AND cJSON_IsReference = 0 then it_child k else None) xs \<Longrightarrow>
    owned h (it_next k) ys \<Longrightarrow> owned h (Some c) (xs @ c # ys)"

inductive_cases owned_SomeE: "owned h (Some c) xs"
inductive_simps owned_None_iff [simp]: "owned h None xs"

text \<open>The strings that go with a cell: not the value of a reference, and not a constant name.\<close>

definition own_strings :: "jcell \<Rightarrow> string list" where
  "own_strings k =
     (if j_type k AND cJSON_IsReference = 0 then (case j_valuestring k of None \<Rightarrow> [] | Some s \<Rightarrow> [s]) else []) @
     (if j_type k AND cJSON_StringIsConst = 0 then (case j_string k of None \<Rightarrow> [] | Some s \<Rightarrow> [s]) else [])"

definition strings_of :: "jheap \<Rightarrow> nat list \<Rightarrow> string list" where
  "strings_of h xs = concat (map (\<lambda>x. case hp_cells h x of None \<Rightarrow> [] | Some k \<Rightarrow> own_strings k) xs)"

definition freed :: "jheap \<Rightarrow> nat list \<Rightarrow> jheap" where
  "freed h xs = h\<lparr>hp_cells := (\<lambda>x. if x \<in> set xs then None else hp_cells h x), hp_strs := hp_strs h @ strings_of h xs\<rparr>"

lemma strings_of_simps [simp]:
  "strings_of h [] = []" "strings_of h (xs @ ys) = strings_of h xs @ strings_of h ys"
  by (simp_all add: strings_of_def)

lemma strings_of_cong: "(\<And>x. x \<in> set xs \<Longrightarrow> hp_cells h' x = hp_cells h x) \<Longrightarrow> strings_of h' xs = strings_of h xs"
  unfolding strings_of_def by (intro arg_cong [where f = concat] map_cong) auto

lemma freed_cells: "hp_cells (freed h xs) x = (if x \<in> set xs then None else hp_cells h x)"
  by (simp add: freed_def)

lemma freed_append:
  assumes "set xs \<inter> set ys = {}"
  shows "freed (freed h xs) ys = freed h (xs @ ys)"
proof -
  have "strings_of (freed h xs) ys = strings_of h ys" using assms by (intro strings_of_cong) (auto simp: freed_cells)
  then show ?thesis by (auto simp: freed_def fun_eq_iff intro!: jheap.equality)
qed

lemma free_one:
  assumes "hp_cells h a = Some k"
  shows "free_cell
    (if j_type k AND cJSON_StringIsConst = 0
     then free_string (if j_type k AND cJSON_IsReference = 0 then free_string h (j_valuestring k) else h) (j_string k)
     else (if j_type k AND cJSON_IsReference = 0 then free_string h (j_valuestring k) else h)) a = Inr (freed h [a])"
  using assms
  by (auto simp: free_cell_def cell_at_def free_string_def freed_def strings_of_def own_strings_def fun_eq_iff
      split: option.splits intro!: jheap.equality)

lemma owned_frame:
  "owned h c xs \<Longrightarrow> (\<And>x. x \<in> set xs \<Longrightarrow> hp_cells h' x = hp_cells h x) \<Longrightarrow> owned h' c xs"
proof (induction rule: owned.induct)
  case (owned_Some c k xs ys)
  have "owned h' (if j_type k AND cJSON_IsReference = 0 then it_child k else None) xs" "owned h' (it_next k) ys"
    using owned_Some by auto
  moreover have "hp_cells h' c = Some k" using owned_Some by simp
  ultimately show ?case by (intro owned.owned_Some)
qed (rule owned.owned_None)

lemma delete_frees:
  "owned h c xs \<Longrightarrow> distinct xs \<Longrightarrow> length xs \<le> f \<Longrightarrow> cJSON_Delete f h c = Inr (freed h xs)"
proof (induction f arbitrary: h c xs)
  case 0
  then show ?case by (cases c) (auto simp: freed_def elim: owned_SomeE)
next
  case (Suc f)
  show ?case
  proof (cases c)
    case None
    then show ?thesis using Suc.prems by (simp add: freed_def)
  next
    case (Some a)
    then obtain k as bs where k: "hp_cells h a = Some k" "xs = as @ a # bs"
      "owned h (if j_type k AND cJSON_IsReference = 0 then it_child k else None) as" "owned h (it_next k) bs"
      using Suc.prems(1) by (auto elim: owned_SomeE)
    have d: "distinct as" "a \<notin> set as" "a \<notin> set bs" "set as \<inter> set bs = {}" "distinct bs" "length as \<le> f" "length bs \<le> f"
      using Suc.prems(2,3) k(2) by auto
    have "(if j_type k AND cJSON_IsReference = 0 \<and> it_child k \<noteq> None then cJSON_Delete f h (it_child k) else Inr h) =
        Inr (freed h as)"
      using Suc.IH [OF k(3) d(1) d(6)] k(3) by (cases "it_child k") (auto simp: freed_def split: if_splits)
    moreover have "hp_cells (freed h as) a = Some k" using k(1) d(2) by (simp add: freed_cells)
    note free_one [OF this]
    moreover have "cJSON_Delete f (freed (freed h as) [a]) (it_next k) = Inr (freed (freed (freed h as) [a]) bs)"
      using d by (intro Suc.IH owned_frame [OF k(4)]) (auto simp: freed_cells)
    moreover have "freed (freed (freed h as) [a]) bs = freed h xs"
      using d by (simp add: freed_append k(2))
    ultimately show ?thesis using Some k(1) by (simp add: cell_at_def Let_def)
  qed
qed

section \<open>The operations as list operations\<close>

lemma detached_split:
  assumes "n < length xs"
  shows "xs = take n xs @ xs ! n # drop (Suc n) xs"
  using assms by (rule id_take_nth_drop)

lemma detach_array:
  assumes "array_of h a xs"
  shows "(nat which < length xs \<and>
      (\<exists>h'. cJSON_DetachItemFromArray h a which = Inr (Some (xs ! nat which), h') \<and>
        array_of h' a (take (nat which) xs @ drop (Suc (nat which)) xs) \<and> loose h' (xs ! nat which) \<and>
        relinks a (set xs) h h')) \<or>
    (length xs \<le> nat which \<and> cJSON_DetachItemFromArray h a which = Inr (None, h))"
proof (cases "nat which < length xs")
  case True
  define n where "n = nat which"
  have s: "xs = take n xs @ xs ! n # drop (Suc n) xs" using True by (intro detached_split) (simp add: n_def)
  have l: "nat which = length (take n xs)" using True by (simp add: n_def)
  have "array_of h a (take n xs @ xs ! n # drop (Suc n) xs)" using assms s by simp
  from detach_relinks [OF this l, folded s] show ?thesis
    using True by (auto simp: loose_def n_def)
next
  case False
  then show ?thesis
    using assms nth_item_seg by (fastforce simp: array_of_def cJSON_DetachItemFromArray_def cell_at_def)
qed

text \<open>
  C25: The chain of children is the list it stands for. Detaching gives the item at the position (the first
  for a negative one) with its links cleared, and leaves the list without it; a position behind the end
  gives nothing and changes nothing. Types, values, names and the children of every item stay as they are.
\<close>

theorem json_detach_refines:
  assumes "array_of h a xs"
  shows "(nat which < length xs \<and>
      (\<exists>h'. cJSON_DetachItemFromArray h a which = Inr (Some (xs ! nat which), h') \<and>
        array_of h' a (take (nat which) xs @ drop (Suc (nat which)) xs) \<and> loose h' (xs ! nat which) \<and>
        relinks a (set xs) h h')) \<or>
    (length xs \<le> nat which \<and> cJSON_DetachItemFromArray h a which = Inr (None, h))"
  by (rule detach_array [OF assms])

lemma insert_array:
  assumes "array_of h a xs" "loose h i" "i \<notin> set (a # xs)" "length xs \<le> f"
  shows "(\<exists>h'. cJSON_InsertItemInArray f h a which i = Inr h' \<and>
      array_of h' a (take (nat which) xs @ i # drop (nat which) xs) \<and> relinks a (insert i (set xs)) h h') \<and>
    (\<exists>h'. cJSON_AddItemToArray f h a (Some i) = Inr h' \<and> array_of h' a (xs @ [i]) \<and> relinks a (insert i (set xs)) h h')"
proof (cases "nat which < length xs")
  case True
  define n where "n = nat which"
  have s: "xs = take n xs @ xs ! n # drop (Suc n) xs" using True by (intro detached_split) (simp add: n_def)
  have l: "nat which = length (take n xs)" using True by (simp add: n_def)
  have arr: "array_of h a (take n xs @ xs ! n # drop (Suc n) xs)" using assms(1) s by simp
  have "i \<notin> set (a # take n xs @ xs ! n # drop (Suc n) xs)" using assms(3) s by metis
  note ins = insert_relinks [OF arr l assms(2) this, of f]
  have "take n xs @ i # xs ! n # drop (Suc n) xs = take n xs @ i # drop n xs"
    using True by (simp add: n_def Cons_nth_drop_Suc)
  moreover have "set (take n xs @ i # xs ! n # drop (Suc n) xs) = insert i (set xs)"
    using arg_cong [OF s, of set] by simp
  ultimately have "\<exists>h'. cJSON_InsertItemInArray f h a which i = Inr h' \<and>
      array_of h' a (take n xs @ i # drop n xs) \<and> relinks a (insert i (set xs)) h h'"
    using ins by simp
  then show ?thesis using add_relinks [OF assms] unfolding n_def by auto
next
  case False
  obtain k0 where k0: "hp_cells h a = Some k0" "seg h (it_child k0) None xs None" using assms(1) by (auto simp: array_of_def)
  have "nth_item h (it_child k0) (nat which) = Inr None"
    using nth_item_seg [OF k0(2), of "nat which"] False by simp
  then have "cJSON_InsertItemInArray f h a which i = cJSON_AddItemToArray f h a (Some i)"
    using k0(1) by (simp add: cJSON_InsertItemInArray_def cell_at_def)
  then show ?thesis using add_relinks [OF assms] False by auto
qed

text \<open>
  C26: Inserting puts a new item in front of the one at the position, or at the end when there is none, and
  adding puts it at the end: in the chain, in both directions, as in the list.
\<close>

theorem json_insert_refines:
  assumes "array_of h a xs" "loose h i" "i \<notin> set (a # xs)" "length xs \<le> f"
  shows "(\<exists>h'. cJSON_InsertItemInArray f h a which i = Inr h' \<and>
      array_of h' a (take (nat which) xs @ i # drop (nat which) xs) \<and> relinks a (insert i (set xs)) h h') \<and>
    (\<exists>h'. cJSON_AddItemToArray f h a (Some i) = Inr h' \<and> array_of h' a (xs @ [i]) \<and> relinks a (insert i (set xs)) h h')"
  by (rule insert_array [OF assms])

lemma relinks_owned:
  assumes "relinks a S h h'" "owned h p cs" "set cs \<inter> insert a S = {}"
  shows "owned h' p cs"
  using assms(1,3) by (intro owned_frame [OF assms(2)]) (auto simp: relinks_def)

text \<open>
  Deleting a child frees that item and every cell below it that it owns (below a reference there is
  none), each once, and nothing else, and the chain is the list without the item.
\<close>

lemma json_delete_child:
  assumes "array_of h a xs" "nat which < length xs" "hp_cells h (xs ! nat which) = Some k"
    "owned h (if j_type k AND cJSON_IsReference = 0 then it_child k else None) cs" "distinct cs"
    "set cs \<inter> set (a # xs) = {}" "length cs < f"
  shows "\<exists>h'. cJSON_DeleteItemFromArray f h a which = Inr h' \<and>
    array_of h' a (take (nat which) xs @ drop (Suc (nat which)) xs) \<and>
    dom (hp_cells h') = dom (hp_cells h) - set (xs ! nat which # cs)"
proof -
  define n c where "n = nat which" and "c = xs ! n"
  have s: "xs = take n xs @ c # drop (Suc n) xs" using assms(2) unfolding c_def n_def by (rule detached_split)
  have l: "nat which = length (take n xs)" using assms(2) by (simp add: n_def)
  have "array_of h a (take n xs @ c # drop (Suc n) xs)" using assms(1) s by simp
  from detach_relinks [OF this l, folded s] obtain h1 k1 where
    h1: "cJSON_DetachItemFromArray h a which = Inr (Some c, h1)" "array_of h1 a (take n xs @ drop (Suc n) xs)"
      "relinks a (set xs) h h1" and k1: "hp_cells h1 c = Some k1" "it_next k1 = None"
    by auto
  have ca: "c \<in> set xs" "c \<noteq> a" using assms(1,2) by (auto simp: c_def n_def array_of_def)
  have "jnode.truncate k1 = jnode.truncate k" "it_child k1 = it_child k"
    using h1(3) k1(1) assms(3) ca unfolding relinks_def c_def n_def by (metis option.map(2) option.sel)+
  then have "j_type k1 = j_type k" "it_child k1 = it_child k"
    by (metis jnode.select_convs(1) jnode.truncate_def, simp)
  moreover have "owned h1 (if j_type k AND cJSON_IsReference = 0 then it_child k else None) cs"
    using relinks_owned [OF h1(3) assms(4)] assms(6) by simp
  ultimately have "owned h1 (if j_type k1 AND cJSON_IsReference = 0 then it_child k1 else None) cs" by (simp only:)
  from owned.owned_Some [OF k1(1) this, of "[]"] have "owned h1 (Some c) (cs @ [c])" using k1(2) by simp
  moreover have "c \<notin> set cs" using ca assms(6) by auto
  ultimately have del: "cJSON_Delete f h1 (Some c) = Inr (freed h1 (cs @ [c]))"
    using assms(5,7) by (intro delete_frees) auto
  have "distinct (a # take n xs @ c # drop (Suc n) xs)" using assms(1) s by (metis array_of_def)
  then have "set (a # take n xs @ drop (Suc n) xs) \<inter> set (cs @ [c]) = {}"
    using assms(6) ca(2) by (auto dest: in_set_takeD in_set_dropD)
  then have same: "hp_cells (freed h1 (cs @ [c])) x = hp_cells h1 x" if "x \<in> set (a # take n xs @ drop (Suc n) xs)" for x
    using that by (auto simp: freed_def)
  obtain k0 where k0: "hp_cells h1 a = Some k0" "seg h1 (it_child k0) None (take n xs @ drop (Suc n) xs) None"
    "distinct (a # take n xs @ drop (Suc n) xs)" using h1(2) by (auto simp: array_of_def)
  have "seg (freed h1 (cs @ [c])) (it_child k0) None (take n xs @ drop (Suc n) xs) None"
    using k0(2) seg_frame [of "take n xs @ drop (Suc n) xs" "freed h1 (cs @ [c])" h1] same by auto
  then have "array_of (freed h1 (cs @ [c])) a (take n xs @ drop (Suc n) xs)"
    using k0 same [of a] by (auto simp: array_of_def)
  moreover have "dom (hp_cells h1) = dom (hp_cells h)"
    using h1(3) unfolding relinks_def dom_def by (metis map_option_is_None)
  then have "dom (hp_cells (freed h1 (cs @ [c]))) = dom (hp_cells h) - set (c # cs)"
    by (auto simp: freed_def dom_def split: if_splits)
  ultimately show ?thesis
    using h1(1) del by (simp add: cJSON_DeleteItemFromArray_def c_def n_def)
qed

text \<open>
  C16: \<^verbatim>\<open>cJSON_Delete\<close> of a pointer to any item, of a root or at the head of a chain, frees each cell of the chain
  and below it once, with none below a reference: no cell is freed twice or used after it was freed, and no
  other changes. The strings freed are the values of these cells but those of references, and their names but
  the constant ones.
\<close>

theorem json_delete_frees:
  assumes "owned h c xs" "distinct xs" "length xs \<le> f"
  shows "\<exists>h'. cJSON_Delete f h c = Inr h' \<and>
    (\<forall>x. hp_cells h' x = (if x \<in> set xs then None else hp_cells h x)) \<and>
    hp_strs h' = hp_strs h @ strings_of h xs"
  using delete_frees [OF assms] by (simp add: freed_def)

section \<open>Names\<close>

lemma of_char_nonzero: "c \<noteq> NUL \<Longrightarrow> 0 < (of_char c :: nat)"
  using char_nul [of "of_char c"] of_char_bound [of c] by auto

lemma lower_cmp_eq:
  "NUL \<notin> set s \<Longrightarrow> NUL \<notin> set t \<Longrightarrow> lower_cmp s t = 0 \<longleftrightarrow> map c_tolower s = map c_tolower t"
  by (induction s t rule: lower_cmp.induct) (auto simp: c_tolower_def Let_def intro: of_char_nonzero)

text \<open>
  Looking up a name gives the first child whose name is the same up to the case of ASCII letters, and
  nothing when there is none; detaching by name takes out that child.
\<close>

lemma json_lookup:
  assumes "array_of h a xs" "length xs \<le> f"
  shows "cJSON_GetObjectItem f h (Some a) s = Inr (find (has_name h s) xs) \<and>
    (case find (has_name h s) xs of
       None \<Rightarrow> cJSON_DetachItemFromObject f h a s = Inr (None, h)
     | Some c \<Rightarrow> \<exists>h'. cJSON_DetachItemFromObject f h a s = Inr (Some c, h') \<and> array_of h' a (remove1 c xs))"
proof -
  obtain k0 where k0: "hp_cells h a = Some k0" "seg h (it_child k0) None xs None" using assms(1) by (auto simp: array_of_def)
  note fi = find_item_seg [OF k0(2) assms(2), of s 0]
  define n where "n = length (takeWhile (\<lambda>x. \<not> has_name h s x) xs)"
  have fd: "find (has_name h s) xs = (if n < length xs then Some (xs ! n) else None)"
    unfolding n_def by (induction xs) auto
  have get: "cJSON_GetObjectItem f h (Some a) s = Inr (find (has_name h s) xs)"
    using k0(1) fi fd by (simp add: cJSON_GetObjectItem_def cell_at_def n_def Let_def)
  show ?thesis
  proof (cases "n < length xs")
    case True
    have sp: "xs = take n xs @ xs ! n # drop (Suc n) xs" using True by (rule detached_split)
    have "array_of h a (take n xs @ xs ! n # drop (Suc n) xs)" using assms(1) sp by simp
    from detach_relinks [OF this, of "int n"] True obtain h' where
      h': "cJSON_DetachItemFromArray h a (int n) = Inr (Some (xs ! n), h')" "array_of h' a (take n xs @ drop (Suc n) xs)"
      by auto
    have "distinct (take n xs @ xs ! n # drop (Suc n) xs)" using assms(1) sp by (metis array_of_def distinct.simps(2))
    then have "remove1 (xs ! n) (take n xs @ xs ! n # drop (Suc n) xs) = take n xs @ drop (Suc n) xs"
      by (simp add: remove1_append)
    then have "remove1 (xs ! n) xs = take n xs @ drop (Suc n) xs" using sp by simp
    then show ?thesis
      using get h' True k0(1) fi fd by (simp add: cJSON_DetachItemFromObject_def cell_at_def n_def Let_def)
  next
    case False
    then show ?thesis
      using get k0(1) fi fd by (simp add: cJSON_DetachItemFromObject_def cell_at_def n_def Let_def)
  qed
qed

section \<open>A sample heap\<close>

text \<open>An object with the members \<open>A\<close>, an array of one null, and \<open>b\<close>, and an item in no chain.\<close>

definition sample_cell :: "int \<Rightarrow> string option \<Rightarrow> nat option \<Rightarrow> nat option \<Rightarrow> nat option \<Rightarrow> jcell" where
  "sample_cell t s n p c = new_cell\<lparr>j_type := t, j_string := s, it_next := n, it_prev := p, it_child := c\<rparr>"

definition sample_heap :: jheap where
  "sample_heap = \<lparr>hp_cells = [0 \<mapsto> sample_cell cJSON_Object None None None (Some 1),
      1 \<mapsto> sample_cell cJSON_Array (Some ''A'') (Some 2) None (Some 3),
      2 \<mapsto> sample_cell cJSON_NULL (Some ''b'') None (Some 1) None,
      3 \<mapsto> sample_cell cJSON_NULL None None None None,
      4 \<mapsto> sample_cell cJSON_True None None None None], hp_free = 5, hp_strs = []\<rparr>"

lemma sample_cells:
  "it_next (sample_cell t s n p c) = n" "it_prev (sample_cell t s n p c) = p" "it_child (sample_cell t s n p c) = c"
  "j_type (sample_cell t s n p c) = t" "j_string (sample_cell t s n p c) = s"
  by (simp_all add: sample_cell_def new_cell_def)

lemma sample_array: "array_of sample_heap 0 [1, 2]"
  by (simp add: array_of_def sample_heap_def sample_cells)

theorem json_detach_refines_witness:
  "(nat 1 < length [1 :: nat, 2] \<and>
      (\<exists>h'. cJSON_DetachItemFromArray sample_heap 0 1 = Inr (Some ([1, 2] ! nat 1), h') \<and>
        array_of h' 0 (take (nat 1) [1, 2] @ drop (Suc (nat 1)) [1, 2]) \<and> loose h' ([1, 2] ! nat 1) \<and>
        relinks 0 (set [1, 2]) sample_heap h')) \<or>
    (length [1 :: nat, 2] \<le> nat 1 \<and> cJSON_DetachItemFromArray sample_heap 0 1 = Inr (None, sample_heap))"
  by (rule json_detach_refines [OF sample_array])

theorem json_insert_refines_witness:
  "(\<exists>h'. cJSON_InsertItemInArray 2 sample_heap 0 1 4 = Inr h' \<and>
      array_of h' 0 (take (nat 1) [1, 2] @ 4 # drop (nat 1) [1, 2]) \<and> relinks 0 (insert 4 (set [1, 2])) sample_heap h') \<and>
    (\<exists>h'. cJSON_AddItemToArray 2 sample_heap 0 (Some 4) = Inr h' \<and> array_of h' 0 ([1, 2] @ [4]) \<and>
      relinks 0 (insert 4 (set [1, 2])) sample_heap h')"
  by (rule json_insert_refines [OF sample_array]) (simp_all add: loose_def sample_heap_def sample_cells)

lemma sample_owned: "owned sample_heap (Some 0) [3, 1, 2, 0]"
proof -
  let ?h = sample_heap
  have one: "owned ?h (Some x) (as @ x # bs)"
    if "hp_cells ?h x = Some (sample_cell t s n p c)" "t \<in> {cJSON_Object, cJSON_Array, cJSON_NULL}"
      "owned ?h c as" "owned ?h n bs" for x t s n p c as bs
    using owned.owned_Some [OF that(1), of as bs] that by (auto simp: sample_cells)
  have 3: "owned ?h (Some 3) [3]" using one [of 3 cJSON_NULL None None None None "[]" "[]"] by (simp add: sample_heap_def)
  have 2: "owned ?h (Some 2) [2]"
    using one [of 2 cJSON_NULL "Some ''b''" None "Some 1" None "[]" "[]"] by (simp add: sample_heap_def)
  have 1: "owned ?h (Some 1) [3, 1, 2]"
    using one [OF _ _ 3 2, of 1 cJSON_Array "Some ''A''" None] by (simp add: sample_heap_def)
  show ?thesis using one [OF _ _ 1 owned_None, of 0 cJSON_Object None None] by (simp add: sample_heap_def)
qed

theorem json_delete_frees_witness:
  "\<exists>h'. cJSON_Delete 4 sample_heap (Some 0) = Inr h' \<and> hp_cells h' 4 \<noteq> None \<and> hp_cells h' 3 = None \<and>
    hp_strs h' = [''A'', ''b'']"
proof -
  have "strings_of sample_heap [3, 1, 2, 0] = [''A'', ''b'']"
    by (simp add: strings_of_def own_strings_def sample_heap_def sample_cell_def new_cell_def new_item_def jnode.defs)
  then show ?thesis using json_delete_frees [OF sample_owned, of 4] by (auto simp: sample_heap_def)
qed

lemma json_lookup_witness:
  "cJSON_GetObjectItem 2 sample_heap (Some 0) (Some ''a'') = Inr (find (has_name sample_heap (Some ''a'')) [1, 2]) \<and>
   find (has_name sample_heap (Some ''a'')) [1, 2] = Some 1"
  using json_lookup [OF sample_array, of 2 "Some ''a''"]
  by (simp add: has_name_def sample_heap_def sample_cells cJSON_strcasecmp_def c_tolower_def)

end
