(* ===== verification/Json_Print.thy ===== *)
theory Json_Print
  imports Json_Parse
begin

unbundle bit_operations_syntax

text \<open>
  The printer of \<^verbatim>\<open>libjson.c\<close>: \<^verbatim>\<open>print_number\<close> and \<^verbatim>\<open>print_value\<close> into memory of their own, and
  the same into a buffer that grows. Every text is checked against the size that was allocated for it.
\<close>

section \<open>Numbers\<close>

text \<open>A text with its terminator, written to \<open>n\<close> bytes from \<^verbatim>\<open>malloc\<close>.\<close>

definition alloc_text :: "nat \<Rightarrow> string \<Rightarrow> string cres" where
  "alloc_text n s = (if n < length s + 1 then Inl Out_Of_Bounds else Inr s)"

definition DBL_EPSILON :: dbl where
  "DBL_EPSILON = D_Fin (1 / 2 ^ 52)"

definition sprintf_dbl :: "(rat \<Rightarrow> string) \<Rightarrow> dbl \<Rightarrow> string" where
  "sprintf_dbl fmt d =
     (case d of D_Fin x \<Rightarrow> fmt x | D_Inf s \<Rightarrow> (if s then ''-inf'' else ''inf'') | D_NaN \<Rightarrow> ''nan'')"

definition is_int_dbl :: "int \<Rightarrow> dbl \<Rightarrow> bool" where
  "is_int_dbl vi d \<longleftrightarrow>
     d_le (d_abs (d_add (d_of_int vi) (d_neg d))) DBL_EPSILON \<and>
     d_le d (d_of_int 2147483647) \<and> d_le (d_of_int (-2147483648)) d"

definition dbl_text :: "dbl \<Rightarrow> string" where
  "dbl_text d =
     (if \<not> d_is0 (d_mul d (d_of_int 0)) then ''null''
      else if d_le (d_abs (d_add (d_floor d) (d_neg d))) DBL_EPSILON \<and> d_less (d_abs d) (round_dbl (10 ^ 60))
      then sprintf_dbl fmt_f0 d
      else if d_less (d_abs d) (round_dbl (1 / 10 ^ 6)) \<or> d_less (round_dbl (10 ^ 9)) (d_abs d)
      then sprintf_dbl fmt_e d
      else sprintf_dbl fmt_f d)"

text \<open>The number of bytes and the text, then the text in that much memory.\<close>

definition number_text :: "jnode \<Rightarrow> nat \<times> string" where
  "number_text item =
     (let d = j_valuedouble item
      in if d_is0 d then (2, ''0'')
         else if is_int_dbl (j_valueint item) d then (21, dec (j_valueint item))
         else (64, dbl_text d))"

definition print_number :: "jnode \<Rightarrow> string cres" where
  "print_number item = (let (n, s) = number_text item in alloc_text n s)"

section \<open>Values\<close>

fun items_text :: "bool \<Rightarrow> string list \<Rightarrow> string" where
  "items_text fmt [] = []"
| "items_text fmt [s] = s"
| "items_text fmt (s # t # r) = s @ '','' @ (if fmt then '' '' else []) @ items_text fmt (t # r)"

definition tabs :: "nat \<Rightarrow> string" where
  "tabs n = replicate n TAB"

fun members_text :: "bool \<Rightarrow> nat \<Rightarrow> (string \<times> string) list \<Rightarrow> string" where
  "members_text fmt depth [] = []"
| "members_text fmt depth ((n, s) # r) =
     (if fmt then tabs depth else []) @ n @ '':'' @ (if fmt then [TAB] else []) @ s @
     (if r \<noteq> [] then '','' else []) @ (if fmt then [LF] else []) @ members_text fmt depth r"

text \<open>The end of \<^verbatim>\<open>print_array\<close>: the size of the output, and the output itself.\<close>

definition print_array :: "bool \<Rightarrow> string list \<Rightarrow> string cres" where
  "print_array fmt entries =
     (if entries = [] then alloc_text 3 ''[]''
      else alloc_text (5 + sum_list (map (\<lambda>s. length s + 2 + (if fmt then 1 else 0)) entries))
             (''['' @ items_text fmt entries @ '']''))"

text \<open>The same for \<^verbatim>\<open>print_object\<close>.\<close>

definition print_object :: "nat \<Rightarrow> bool \<Rightarrow> (string \<times> string) list \<Rightarrow> string cres" where
  "print_object depth fmt entries =
     (if entries = []
      then alloc_text (if fmt then depth + 4 else 3) (''{'' @ (if fmt then LF # tabs depth else []) @ ''}'')
      else
        let depth' = depth + 1;
            len = 7 + (if fmt then depth' else 0) +
              sum_list (map (\<lambda>(n, s). length s + length n + 2 + (if fmt then 2 + depth' else 0)) entries)
        in alloc_text len
             (''{'' @ (if fmt then [LF] else []) @ members_text fmt depth' entries @
              (if fmt then tabs (depth' - 1) else []) @ ''}''))"

text \<open>\<^verbatim>\<open>print_value\<close>: no text for an item of unknown type, and then none for what holds it.\<close>

fun print_value :: "nat \<Rightarrow> bool \<Rightarrow> cjson \<Rightarrow> string option cres"
and print_items :: "nat \<Rightarrow> bool \<Rightarrow> cjson list \<Rightarrow> string list option cres"
and print_members :: "nat \<Rightarrow> bool \<Rightarrow> cjson list \<Rightarrow> (string \<times> string) list option cres"
where
  "print_value depth fmt (CJ n cs) =
     (let t = j_type n AND 255
      in if t = cJSON_NULL then Inr (Some ''null'')
         else if t = cJSON_False then Inr (Some ''false'')
         else if t = cJSON_True then Inr (Some ''true'')
         else if t = cJSON_Number then map_sum id Some (print_number n)
         else if t = cJSON_String then map_sum id Some (print_string_ptr (j_valuestring n))
         else if t = cJSON_Array then
           cbind (print_items (depth + 1) fmt cs) (\<lambda>es.
             case es of None \<Rightarrow> Inr None | Some es \<Rightarrow> map_sum id Some (print_array fmt es))
         else if t = cJSON_Object then
           cbind (print_members (depth + 1) fmt cs) (\<lambda>es.
             case es of None \<Rightarrow> Inr None | Some es \<Rightarrow> map_sum id Some (print_object depth fmt es))
         else Inr None)"
| "print_items depth fmt [] = Inr (Some [])"
| "print_items depth fmt (c # cs) =
     cbind (print_value depth fmt c) (\<lambda>r.
       case r of
         None \<Rightarrow> Inr None
       | Some s \<Rightarrow> cbind (print_items depth fmt cs) (\<lambda>es. Inr (map_option ((#) s) es)))"
| "print_members depth fmt [] = Inr (Some [])"
| "print_members depth fmt (c # cs) =
     cbind (print_string_ptr (j_string (cj_node c))) (\<lambda>n.
     cbind (print_value depth fmt c) (\<lambda>r.
       case r of
         None \<Rightarrow> Inr None
       | Some s \<Rightarrow> cbind (print_members depth fmt cs) (\<lambda>es. Inr (map_option ((#) (n, s)) es))))"

definition cJSON_Print :: "cjson \<Rightarrow> string option cres" where
  "cJSON_Print item = print_value 0 True item"

definition cJSON_PrintUnformatted :: "cjson \<Rightarrow> string option cres" where
  "cJSON_PrintUnformatted item = print_value 0 False item"

end
