(* ===== verification/Json_Buffer.thy ===== *)
theory Json_Buffer
  imports Json_Print
begin

text \<open>
  The second form of the printer of \<^verbatim>\<open>libjson.c\<close>, \<^verbatim>\<open>cJSON_PrintBuffered\<close>: one buffer that is
  enlarged as needed. The buffer is the list of its bytes; \<open>junk\<close> gives the bytes that memory from
  \<^verbatim>\<open>malloc\<close> happens to hold. A size that has become negative is more memory than there is.
\<close>

section \<open>The buffer\<close>

record printbuffer =
  pb_buffer :: "string option"
  pb_offset :: nat

definition smear :: "nat \<Rightarrow> int \<Rightarrow> int" where
  "smear k x = x OR drop_bit k x"

definition pow2gt :: "int \<Rightarrow> int" where
  "pow2gt x = to_int32 (smear 16 (smear 8 (smear 4 (smear 2 (smear 1 (x - 1))))) + 1)"

text \<open>\<^verbatim>\<open>ensure\<close>: whether there is room for so many bytes from the offset.\<close>

definition ensure :: "(nat \<Rightarrow> char) \<Rightarrow> printbuffer \<Rightarrow> nat \<Rightarrow> (bool \<times> printbuffer) cres" where
  "ensure junk p needed =
     (case pb_buffer p of
        None \<Rightarrow> Inr (False, p)
      | Some b \<Rightarrow>
          let need = to_int32 (int needed + int (pb_offset p))
          in if need \<le> int (length b) then Inr (True, p)
             else
               let newsize = pow2gt need
               in if newsize < 0 then Inr (False, p\<lparr>pb_buffer := None\<rparr>)
                  else if nat newsize < length b then Inl Out_Of_Bounds
                  else Inr (True, p\<lparr>pb_buffer := Some (b @ map junk [length b..<nat newsize])\<rparr>))"

text \<open>\<^verbatim>\<open>p->offset = update(p)\<close>: behind the text that starts at the offset.\<close>

definition update :: "printbuffer \<Rightarrow> printbuffer cres" where
  "update p =
     (case pb_buffer p of
        None \<Rightarrow> Inr (p\<lparr>pb_offset := 0\<rparr>)
      | Some b \<Rightarrow> cbind (buf_string (drop (pb_offset p) b)) (\<lambda>s. Inr (p\<lparr>pb_offset := pb_offset p + length s\<rparr>)))"

text \<open>
  The step that all the printers repeat: make room for \<open>n\<close> bytes, write \<open>s\<close> at the offset, move the
  offset by \<open>k\<close>.
\<close>

definition emit :: "(nat \<Rightarrow> char) \<Rightarrow> nat \<Rightarrow> string \<Rightarrow> nat \<Rightarrow> printbuffer \<Rightarrow> (bool \<times> printbuffer) cres" where
  "emit junk n s k p =
     cbind (ensure junk p n) (\<lambda>(ok, p').
       if \<not> ok then Inr (False, p')
       else case pb_buffer p' of
         None \<Rightarrow> Inl Null_Deref
       | Some b \<Rightarrow>
           cbind (buf_write b (pb_offset p') s) (\<lambda>b'.
             Inr (True, p'\<lparr>pb_buffer := Some b', pb_offset := pb_offset p' + k\<rparr>)))"

definition andthen ::
  "(bool \<times> printbuffer) cres \<Rightarrow> (printbuffer \<Rightarrow> (bool \<times> printbuffer) cres) \<Rightarrow> (bool \<times> printbuffer) cres" where
  "andthen m f = cbind m (\<lambda>(ok, p). if ok then f p else Inr (False, p))"

section \<open>Printing into the buffer\<close>

text \<open>
  The pointer that a printer returns points to where the offset was at the call; here it is only whether
  there is one. The printers of arrays and objects do not look at what the ones of their entries return.
\<close>

definition number_buf :: "(nat \<Rightarrow> char) \<Rightarrow> jnode \<Rightarrow> printbuffer \<Rightarrow> (bool \<times> printbuffer) cres" where
  "number_buf junk n p = (let (k, s) = number_text n in emit junk k (s @ [NUL]) 0 p)"

definition string_buf :: "(nat \<Rightarrow> char) \<Rightarrow> string option \<Rightarrow> printbuffer \<Rightarrow> (bool \<times> printbuffer) cres" where
  "string_buf junk so p = emit junk (print_string_size so) (print_string_text so @ [NUL]) 0 p"

definition skip_result :: "(bool \<times> printbuffer) cres \<Rightarrow> (bool \<times> printbuffer) cres" where
  "skip_result m = cbind m (\<lambda>(ok, p). cbind (update p) (\<lambda>p'. Inr (True, p')))"

fun value_buf :: "(nat \<Rightarrow> char) \<Rightarrow> nat \<Rightarrow> bool \<Rightarrow> cjson \<Rightarrow> printbuffer \<Rightarrow> (bool \<times> printbuffer) cres"
and items_buf :: "(nat \<Rightarrow> char) \<Rightarrow> nat \<Rightarrow> bool \<Rightarrow> cjson list \<Rightarrow> printbuffer \<Rightarrow> (bool \<times> printbuffer) cres"
and members_buf :: "(nat \<Rightarrow> char) \<Rightarrow> nat \<Rightarrow> bool \<Rightarrow> cjson list \<Rightarrow> printbuffer \<Rightarrow> (bool \<times> printbuffer) cres"
where
  "value_buf junk depth fmt (CJ n cs) p =
     (let t = j_type n AND 255
      in if t = cJSON_NULL then emit junk 5 (''null'' @ [NUL]) 0 p
         else if t = cJSON_False then emit junk 6 (''false'' @ [NUL]) 0 p
         else if t = cJSON_True then emit junk 5 (''true'' @ [NUL]) 0 p
         else if t = cJSON_Number then number_buf junk n p
         else if t = cJSON_String then string_buf junk (j_valuestring n) p
         else if t = cJSON_Array then
           (if cs = [] then emit junk 3 (''[]'' @ [NUL]) 0 p
            else
              andthen (emit junk 1 ''['' 1 p) (\<lambda>p1.
              andthen (items_buf junk (depth + 1) fmt cs p1) (\<lambda>p2.
                emit junk 2 ('']'' @ [NUL]) 0 p2)))
         else if t = cJSON_Object then
           (if cs = []
            then emit junk (if fmt then depth + 4 else 3)
                   (''{'' @ (if fmt then LF # tabs depth else []) @ ''}'' @ [NUL]) 0 p
            else
              let len = (if fmt then 2 else 1)
              in andthen (emit junk (len + 1) (''{'' @ (if fmt then [LF] else []) @ [NUL]) len p) (\<lambda>p1.
                 andthen (members_buf junk (depth + 1) fmt cs p1) (\<lambda>p2.
                   emit junk (if fmt then depth + 1 + 1 else 2)
                     ((if fmt then tabs depth else []) @ ''}'' @ [NUL]) 0 p2)))
         else Inr (False, p))"
| "items_buf junk depth fmt [] p = Inr (True, p)"
| "items_buf junk depth fmt (c # cs) p =
     andthen (skip_result (value_buf junk depth fmt c p)) (\<lambda>p1.
       if cs = [] then Inr (True, p1)
       else
         let len = (if fmt then 2 else 1)
         in andthen (emit junk (len + 1) ('','' @ (if fmt then '' '' else []) @ [NUL]) len p1) (\<lambda>p2.
              items_buf junk depth fmt cs p2))"
| "members_buf junk depth fmt [] p = Inr (True, p)"
| "members_buf junk depth fmt (c # cs) p =
     andthen (if fmt then emit junk depth (tabs depth) depth p else Inr (True, p)) (\<lambda>p1.
     andthen (skip_result (string_buf junk (j_string (cj_node c)) p1)) (\<lambda>p2.
     let len = (if fmt then 2 else 1)
     in andthen (emit junk len ('':'' @ (if fmt then [TAB] else [])) len p2) (\<lambda>p3.
        andthen (skip_result (value_buf junk depth fmt c p3)) (\<lambda>p4.
        let len = (if fmt then 1 else 0) + (if cs \<noteq> [] then 1 else 0)
        in andthen (emit junk (len + 1) ((if cs \<noteq> [] then '','' else []) @ (if fmt then [LF] else []) @ [NUL]) len p4)
             (\<lambda>p5. members_buf junk depth fmt cs p5)))))"

definition cJSON_PrintBuffered :: "(nat \<Rightarrow> char) \<Rightarrow> cjson \<Rightarrow> int \<Rightarrow> bool \<Rightarrow> string option cres" where
  "cJSON_PrintBuffered junk item prebuffer fmt =
     cbind (value_buf junk 0 fmt item
       \<lparr>pb_buffer = (if prebuffer < 0 then None else Some (map junk [0..<nat prebuffer])), pb_offset = 0\<rparr>)
       (\<lambda>(ok, p).
         if \<not> ok then Inr None
         else case pb_buffer p of
           None \<Rightarrow> Inl Null_Deref
         | Some b \<Rightarrow> cbind (buf_string b) (\<lambda>s. Inr (Some s)))"

end
