(* ===== verification/Json_Parse_Props.thy ===== *)
theory Json_Parse_Props
  imports Json_Parse
begin

text \<open>
  What the JSON parser promises: it reads a part of the text from its start, the fuel is enough for
  every text, the only fault is in a string whose last character is a backslash, and the items it makes
  are well formed.
\<close>

section \<open>What a parser consumes\<close>

text \<open>A result for the text \<open>v\<close>: a rest that is a proper end of it, or a fault at a final backslash.\<close>

fun consumes :: "string \<Rightarrow> 'a pres \<Rightarrow> bool" where
  "consumes v (P_Ok x r) \<longleftrightarrow> suffix r v \<and> length r < length v"
| "consumes v (P_Fail e) \<longleftrightarrow> suffix e v"
| "consumes v (P_Fault e) \<longleftrightarrow> e = Out_Of_Bounds \<and> v \<noteq> [] \<and> last v = BSL"
| "consumes v P_Fuel \<longleftrightarrow> False"

lemma suffix_last: "suffix r v \<Longrightarrow> r \<noteq> [] \<Longrightarrow> last r = last v"
  by (auto simp: suffix_def)

lemma consumes_mono: "consumes r p \<Longrightarrow> suffix r v \<Longrightarrow> consumes v p"
  by (cases p) (auto dest: suffix_last suffix_length_le suffix_order.trans simp: suffix_bot.extremum_unique)

lemma consumes_pbind:
  assumes "consumes v p" "\<And>x r. p = P_Ok x r \<Longrightarrow> suffix r v \<Longrightarrow> length r < length v \<Longrightarrow> consumes v (f x r)"
  shows "consumes v (pbind p f)"
  using assms by (cases p) auto

lemma skip_suffix [simp]: "suffix (skip s) s"
  by (simp add: skip_def suffix_dropWhile)

lemma suffix_tl [simp]: "suffix (tl s) s"
  by (cases s) (auto simp: suffix_def)

lemma suffix_skip_tl: "suffix r v \<Longrightarrow> suffix (skip r) v" "suffix r v \<Longrightarrow> suffix (tl r) v"
  by (meson skip_suffix suffix_tl suffix_order.trans)+

lemma int_digits_suffix: "suffix (snd (int_digits n s)) s"
  by (induction n s rule: int_digits.induct) (auto intro: suffix_ConsI)

lemma frac_digits_suffix: "suffix (snd (snd (frac_digits n k s))) s"
  by (induction n k s rule: frac_digits.induct) (auto intro: suffix_ConsI)

lemma exp_digits_suffix: "suffix (snd (exp_digits k s)) s"
  by (induction k s rule: exp_digits.induct) (auto intro: suffix_ConsI)

lemma parse_exp_suffix: "suffix (snd (parse_exp s)) s"
  using exp_digits_suffix by (auto simp: parse_exp_def Let_def intro: suffix_ConsI split: list.splits prod.splits if_splits)
    (metis snd_conv suffix_ConsI)+

lemma num_suffix:
  "suffix (snd (num_sign s)) s" "suffix (num_zero s) s" "suffix (snd (num_int s)) s"
  "suffix (snd (snd (num_frac n s))) s" "suffix (snd (num_exp s)) s"
proof -
  have "suffix (snd (snd (frac_digits n k (tl s)))) s" "suffix (snd (parse_exp (tl s))) s" for k
    using frac_digits_suffix parse_exp_suffix suffix_tl suffix_order.trans by metis+
  then show "suffix (snd (num_sign s)) s" "suffix (num_zero s) s" "suffix (snd (num_int s)) s"
    "suffix (snd (snd (num_frac n s))) s" "suffix (snd (num_exp s)) s"
    by (auto simp: num_sign_def num_zero_def num_int_def num_frac_def num_exp_def int_digits_suffix)
qed

lemma parse_number_rest:
  "snd (parse_number s) = snd (num_exp (snd (snd (num_frac (fst (num_int (num_zero (snd (num_sign s)))))
     (snd (num_int (num_zero (snd (num_sign s)))))))))"
  by (simp add: parse_number_def split: prod.splits)

lemma parse_number_suffix:
  assumes "isdigit_char c \<or> c = CHR ''-''"
  shows "suffix (snd (parse_number (c # cs))) cs"
proof -
  define s where "s = num_zero (snd (num_sign (c # cs)))"
  have 1: "suffix (snd (parse_number (c # cs))) (snd (num_int s))"
    unfolding parse_number_rest s_def by (meson num_suffix suffix_order.trans)
  have "suffix (snd (num_int s)) cs"
  proof (cases "s = c # cs")
    case True
    have "tl cs \<noteq> c # cs" by (auto dest: arg_cong [of _ _ length])
    with True have "c \<noteq> CHR ''-''" "c \<noteq> CHR ''0''" by (auto simp: s_def num_sign_def num_zero_def split: if_splits)
    then show ?thesis using True assms int_digits_suffix by (simp add: num_int_def)
  next
    case False
    have "suffix s (c # cs)" unfolding s_def by (meson num_suffix suffix_order.trans)
    then have "suffix s cs" using False by (simp add: suffix_Cons)
    then show ?thesis by (meson num_suffix suffix_order.trans)
  qed
  then show ?thesis using 1 suffix_order.trans by blast
qed

lemma parse_string_consumes: "consumes v (parse_string v)"
proof (cases v)
  case (Cons q s)
  have "suffix (case drop k s of [] \<Rightarrow> [] | c # r \<Rightarrow> if c = QUOTE then r else c # r) s" for k
    using suffix_drop [of k s] by (auto split: list.splits dest: suffix_ConsD)
  then show ?thesis
    using Cons decode_safe [of s] scan_fault [of s]
    by (fastforce simp: parse_string_def suffix_Cons le_imp_less_Suc suffix_length_le
        split: sum.splits option.splits)
qed (simp add: parse_string_def)

section \<open>The fuel is enough\<close>

lemma take1: "take 1 w = [c] \<longleftrightarrow> (\<exists>r. w = c # r)"
  by (cases w) auto

lemma parse_bracket_consumes:
  assumes "v = b # s" "\<And>w. suffix w s \<Longrightarrow> consumes w (entries w)"
  shows "consumes v (parse_bracket close entries item v)"
proof (cases "take 1 (skip s) = [close]")
  case True
  then obtain r where "skip s = close # r" unfolding take1 by blast
  moreover from this have "suffix r s" using skip_suffix [of s] by (metis suffix_ConsD)
  ultimately show ?thesis using assms(1)
    by (simp add: parse_bracket_def suffix_Cons le_imp_less_Suc suffix_length_le)
next
  case False
  have s: "suffix (skip s) v" using assms(1) by (auto intro: suffix_skip_tl suffix_ConsI)
  have "consumes v (pbind (entries (skip s)) (\<lambda>cs r. if take 1 r = [close] then P_Ok (CJ item cs) (tl r) else P_Fail r))"
    using consumes_mono [OF assms(2) [OF skip_suffix] s]
    by (rule consumes_pbind) (auto intro: suffix_skip_tl)
  then show ?thesis using False assms(1) by (simp add: parse_bracket_def)
qed

lemma consumes_more:
  assumes "suffix r v" "length r < length v"
    "\<And>w. suffix w v \<Longrightarrow> length w < length v \<Longrightarrow> consumes w (entries w)"
  shows "consumes v (let w = skip r in if take 1 w = '','' then pbind (entries (tl w)) (\<lambda>cs r'. P_Ok (c # cs) r')
      else P_Ok [c] w)"
proof -
  have s: "suffix (skip r) v" "suffix (tl (skip r)) v" using assms(1) by (simp_all add: suffix_skip_tl)
  moreover have "length (skip r) < length v" using suffix_length_le [OF skip_suffix, of r] assms(2) by simp
  moreover from this have "length (tl (skip r)) < length v" by simp
  ultimately have "consumes v (pbind (entries (tl (skip r))) (\<lambda>cs r'. P_Ok (c # cs) r'))"
    using assms(3) [of "tl (skip r)"] by (intro consumes_pbind) (auto intro: consumes_mono)
  then show ?thesis using s \<open>length (skip r) < length v\<close> by (simp add: Let_def)
qed

lemma parse_consumes:
  "2 * length v + 1 \<le> f \<Longrightarrow> consumes v (parse_value f item v)"
  "2 * length v + 2 \<le> f \<Longrightarrow> consumes v (parse_items f v)"
  "2 * length v + 2 \<le> f \<Longrightarrow> consumes v (parse_members f v)"
proof (induction f arbitrary: v item)
  case (Suc f)
  {
    case 1
    have entries: "suffix w s \<Longrightarrow> consumes w (parse_items f w)" "suffix w s \<Longrightarrow> consumes w (parse_members f w)"
      if "v = c # s" for c s w
      using Suc(2,3) [of w] suffix_length_le [of w s] 1 that by simp_all
    show ?case
    proof (cases "prefix ''null'' v \<or> prefix ''false'' v \<or> prefix ''true'' v")
      case True
      moreover from this have "v \<noteq> []" by auto
      ultimately show ?thesis by (auto simp: suffix_drop)
    next
      case False
      show ?thesis
      proof (cases v)
        case (Cons c s)
        have "consumes v (parse_bracket b (parse_items f) i v)" "consumes v (parse_bracket b (parse_members f) i v)" for b i
          using parse_bracket_consumes [OF Cons] entries [OF Cons] by blast+
        moreover have "consumes v (pbind (parse_string v) (\<lambda>x r. P_Ok (g x) r))" for g :: "string \<Rightarrow> cjson"
          by (rule consumes_pbind [OF parse_string_consumes]) simp
        moreover have "consumes v (let (n, r) = parse_number v in P_Ok (h n) r)" if "c = CHR ''-'' \<or> isdigit_char c"
          for h :: "dbl \<Rightarrow> cjson"
          using parse_number_suffix [of c s] that Cons
          by (auto simp: suffix_Cons le_imp_less_Suc suffix_length_le split: prod.splits)
        ultimately show ?thesis
          using False Cons by (simp only: parse_value.simps de_Morgan_disj if_False list.case)
            (intro iffD2 [OF if_split [of "consumes (c # s)"]] conjI impI; simp only: consumes.simps suffix_order.order_refl)
      qed simp
    qed
  next
    case 2
    show ?case
      unfolding parse_items.simps
    proof (rule consumes_pbind)
      show "consumes v (parse_value f new_item (skip v))"
      proof (rule consumes_mono [OF _ skip_suffix])
        show "consumes (skip v) (parse_value f new_item (skip v))"
          using Suc(1) [of "skip v"] suffix_length_le [OF skip_suffix, of v] 2 by simp
      qed
    qed (rule consumes_more, use Suc(2) 2 in auto)
  next
    case 3
    show ?case
      unfolding parse_members.simps
    proof (rule consumes_pbind)
      show "consumes v (parse_string (skip v))"
        by (rule consumes_mono [OF parse_string_consumes skip_suffix])
      show "consumes v (let w = skip r in if take 1 w \<noteq> '':'' then P_Fail w
          else pbind (parse_value f (new_item\<lparr>j_type := cJSON_String, j_string := Some s\<rparr>) (skip (tl w)))
            (\<lambda>c r'. let w' = skip r' in if take 1 w' = '','' then pbind (parse_members f (tl w')) (\<lambda>cs r''. P_Ok (c # cs) r'')
               else P_Ok [c] w'))" if r: "suffix r v" "length r < length v" for s r
      proof -
        let ?w = "skip (tl (skip r))"
        have w: "suffix ?w v" "suffix (skip r) v" using r by (simp_all add: suffix_skip_tl)
        have "suffix ?w r" by (simp add: suffix_skip_tl)
        then have l: "length ?w < length v" using r(2) suffix_length_le by (metis le_less_trans)
        have "consumes v (pbind (parse_value f (new_item\<lparr>j_type := cJSON_String, j_string := Some s\<rparr>) ?w)
            (\<lambda>c r'. let w' = skip r' in if take 1 w' = '','' then pbind (parse_members f (tl w')) (\<lambda>cs r''. P_Ok (c # cs) r'')
               else P_Ok [c] w'))"
        proof (rule consumes_pbind [OF consumes_mono [OF _ w(1)]])
          show "consumes ?w (parse_value f (new_item\<lparr>j_type := cJSON_String, j_string := Some s\<rparr>) ?w)"
            using Suc(1) [of ?w] 3 l by simp
        qed (rule consumes_more, use Suc(3) 3 in auto)
        then show ?thesis using w by (simp add: Let_def)
      qed
    qed
  }
qed simp_all

lemma parse_top_consumes: "consumes s (cJSON_ParseWithOpts s q)"
proof -
  have "consumes s (parse_value (json_fuel (skip s)) new_item (skip s))"
    by (rule consumes_mono [OF parse_consumes(1) skip_suffix]) (simp add: json_fuel_def)
  then show ?thesis
    unfolding cJSON_ParseWithOpts_def Let_def
    by (rule consumes_pbind) (auto intro: suffix_skip_tl suffix_bot.extremum)
qed

text \<open>More fuel changes no result but the lack of fuel.\<close>

lemma pbind_mono:
  assumes "pbind p f \<noteq> P_Fuel" "p \<noteq> P_Fuel \<Longrightarrow> p' = p" "\<And>x r. p = P_Ok x r \<Longrightarrow> f x r \<noteq> P_Fuel \<Longrightarrow> f' x r = f x r"
  shows "pbind p' f' = pbind p f"
  using assms by (cases p) auto

lemma parse_bracket_mono:
  assumes "parse_bracket close entries item v \<noteq> P_Fuel" "\<And>w. entries w \<noteq> P_Fuel \<Longrightarrow> entries' w = entries w"
  shows "parse_bracket close entries' item v = parse_bracket close entries item v"
  using assms(1) unfolding parse_bracket_def Let_def
  by (auto intro!: pbind_mono assms(2) split: if_split_asm)

lemma parse_more_fuel:
  "parse_value f item v \<noteq> P_Fuel \<Longrightarrow> parse_value (Suc f) item v = parse_value f item v"
  "parse_items f v \<noteq> P_Fuel \<Longrightarrow> parse_items (Suc f) v = parse_items f v"
  "parse_members f v \<noteq> P_Fuel \<Longrightarrow> parse_members (Suc f) v = parse_members f v"
proof (induction f arbitrary: item v)
  case (Suc f)
  {
    case 1
    then show ?case
      unfolding parse_value.simps
      by (auto split: list.split if_splits intro!: parse_bracket_mono Suc.IH)
  next
    case 2
    then show ?case
      unfolding parse_items.simps(2) [of "Suc f" v] parse_items.simps(2) [of f v]
      by (auto simp: Let_def simp del: parse_value.simps parse_items.simps parse_members.simps
          intro!: pbind_mono Suc.IH split: if_split_asm)
  next
    case 3
    then show ?case
      unfolding parse_members.simps(2) [of "Suc f" v] parse_members.simps(2) [of f v]
      by (auto simp: Let_def simp del: parse_value.simps parse_items.simps parse_members.simps
          intro!: pbind_mono Suc.IH split: if_split_asm)
  }
qed simp_all

text \<open>
  C24: The parser ends on every text. The recursion of parse_value, parse_array and parse_object needs no
  more than twice the length of the text and one: with any fuel from there on the result is the same, and it
  is an item, a refusal or, on a text that ends in a backslash only, the read behind that text.
\<close>

theorem json_parse_returns:
  assumes "2 * length v + 1 \<le> f"
  shows "parse_value f item v = parse_value (json_fuel v) item v \<and>
    (case parse_value f item v of
       P_Ok t r \<Rightarrow> suffix r v \<and> length r < length v
     | P_Fail e \<Rightarrow> suffix e v
     | P_Fault e \<Rightarrow> e = Out_Of_Bounds \<and> v \<noteq> [] \<and> last v = BSL
     | P_Fuel \<Rightarrow> False) \<and> cJSON_ParseWithOpts v q \<noteq> P_Fuel"
proof -
  have "parse_value f item v = parse_value (json_fuel v) item v"
    using assms[folded json_fuel_def]
  proof (induction rule: dec_induct)
    case (step k)
    have "parse_value k item v \<noteq> P_Fuel" using parse_consumes(1) [of v k item] step(1) by (auto simp: json_fuel_def)
    then show ?case using parse_more_fuel(1) step(3) by simp
  qed simp
  moreover have "case parse_value f item v of
      P_Ok t r \<Rightarrow> suffix r v \<and> length r < length v
    | P_Fail e \<Rightarrow> suffix e v
    | P_Fault e \<Rightarrow> e = Out_Of_Bounds \<and> v \<noteq> [] \<and> last v = BSL
    | P_Fuel \<Rightarrow> False"
    using parse_consumes(1) [OF assms, of item] by (cases "parse_value f item v") auto
  moreover have "cJSON_ParseWithOpts v q \<noteq> P_Fuel" using parse_top_consumes [of v q] by auto
  ultimately show ?thesis by blast
qed

theorem json_parse_returns_witness: "parse_value 7 new_item ''[7'' = parse_value (json_fuel ''[7'') new_item ''[7''"
  using json_parse_returns [of "''[7''" 7] by simp

text \<open>
  C21: The parser reads outside its text only when the text ends in a backslash: on every other text it
  gives an item with an end of the text behind it, or an error at a place in the text.
\<close>

theorem json_parse_safe:
  assumes "last s \<noteq> BSL"
  shows "(\<exists>t r. cJSON_ParseWithOpts s q = P_Ok t r \<and> suffix r s \<and> length r < length s) \<or>
         (\<exists>e. cJSON_ParseWithOpts s q = P_Fail e \<and> suffix e s)"
  using parse_top_consumes [of s q] assms by (cases "cJSON_ParseWithOpts s q") auto

theorem json_parse_safe_witness:
  "(\<exists>t r. cJSON_ParseWithOpts ''[7'' True = P_Ok t r \<and> suffix r ''[7'' \<and> length r < length ''[7'') \<or>
   (\<exists>e. cJSON_ParseWithOpts ''[7'' True = P_Fail e \<and> suffix e ''[7'')"
  by (rule json_parse_safe) simp

lemma json_parse_fault: "cJSON_Parse [QUOTE, BSL] = P_Fault Out_Of_Bounds"
proof -
  have "skip [QUOTE, BSL] = [QUOTE, BSL]" by (simp add: skip_def)
  moreover have "parse_value (Suc f) new_item [QUOTE, BSL] = P_Fault Out_Of_Bounds" for f
    by (simp add: parse_string_def scan_string.simps)
  ultimately show ?thesis by (simp add: cJSON_Parse_def cJSON_ParseWithOpts_def json_fuel_def Let_def)
qed

end
