(* ===== verification/Json_Print_Props.thy ===== *)
theory Json_Print_Props
  imports Json_Print Json_Parse_Props
begin

text \<open>
  The printer against the text that it stands for: the memory that is allocated is always enough, and
  every well-formed item is printed.
\<close>

section \<open>Printable items\<close>

definition json_types :: "int set" where
  "json_types = {cJSON_NULL, cJSON_False, cJSON_True, cJSON_Number, cJSON_String, cJSON_Array, cJSON_Object}"

text \<open>The numbers of an item have the ranges of their C types.\<close>

definition number_ok :: "jnode \<Rightarrow> bool" where
  "number_ok n \<longleftrightarrow> dbl_ok (j_valuedouble n) \<and> - (2 ^ 31) \<le> j_valueint n \<and> j_valueint n < 2 ^ 31"

fun printable :: "cjson \<Rightarrow> bool" where
  "printable (CJ n cs) \<longleftrightarrow> j_type n AND 255 \<in> json_types \<and> number_ok n \<and> (\<forall>c \<in> set cs. printable c)"

text \<open>The text of an item, with no memory.\<close>

fun json_text :: "nat \<Rightarrow> bool \<Rightarrow> cjson \<Rightarrow> string" where
  "json_text depth fmt (CJ n cs) =
     (let t = j_type n AND 255
      in if t = cJSON_NULL then ''null''
         else if t = cJSON_False then ''false''
         else if t = cJSON_True then ''true''
         else if t = cJSON_Number then snd (number_text n)
         else if t = cJSON_String then print_string_text (j_valuestring n)
         else if t = cJSON_Array then ''['' @ items_text fmt (map (json_text (depth + 1) fmt) cs) @ '']''
         else if cs = [] then ''{'' @ (if fmt then LF # tabs depth else []) @ ''}''
         else ''{'' @ (if fmt then [LF] else []) @
           members_text fmt (depth + 1)
             (map (\<lambda>c. (print_string_text (j_string (cj_node c)), json_text (depth + 1) fmt c)) cs) @
           (if fmt then tabs depth else []) @ ''}'')"

section \<open>The memory is enough\<close>

lemma d_of_int_small: "\<bar>i\<bar> < 2 ^ 53 \<Longrightarrow> d_of_int i = D_Fin (of_int i)"
  by (simp add: d_of_int_def round_dbl_int)

lemma half_even_double: "0 \<le> z \<Longrightarrow> of_int (half_even z) \<le> 2 * z"
proof -
  assume z: "0 \<le> z"
  define n where "n = \<lfloor>z\<rfloor>"
  have n: "0 \<le> n" "of_int n \<le> z" using z by (simp_all add: n_def)
  then have "(0 :: rat) \<le> of_int n" by simp
  then show ?thesis
    using n unfolding half_even_def Let_def n_def [symmetric] by (auto simp: not_less)
qed

lemma round_dbl_double:
  assumes "0 < x" "2 * x < 2 ^ 1024"
  shows "\<exists>y. round_dbl x = D_Fin y \<and> y \<le> 2 * x"
proof -
  define u :: rat where "u = 2 powi (max (-1074) (flog 2 \<bar>x\<bar> - 52))"
  have u: "0 < u" by (simp add: u_def)
  have "of_int (half_even (\<bar>x\<bar> / u)) * u \<le> 2 * (\<bar>x\<bar> / u) * u"
    using half_even_double [of "\<bar>x\<bar> / u"] u by (intro mult_right_mono) auto
  then have y: "of_int (half_even (\<bar>x\<bar> / u)) * u \<le> 2 * x" using u assms(1) by simp
  then have "\<not> 2 ^ 1024 \<le> of_int (half_even (\<bar>x\<bar> / u)) * u" using assms(2) by linarith
  then have "round_dbl x = D_Fin (of_int (half_even (\<bar>x\<bar> / u)) * u)"
    using assms(1) by (simp only: round_dbl_def Let_def u_def [symmetric]) simp
  then show ?thesis using y by blast
qed

lemma pow2_pow10: "(2 :: rat) ^ 1074 \<le> 10 ^ 998" "(2 :: rat) ^ 1024 \<le> 10 ^ 998"
proof -
  have p: "(2 :: rat) ^ n \<le> 10 ^ 998" if "n \<le> 3 * 998" for n
  proof -
    have "(2 :: rat) ^ n \<le> 2 ^ (3 * 998)" using that by (intro power_increasing) auto
    also have "\<dots> = (2 ^ 3) ^ 998" by (rule power_mult)
    also have "\<dots> \<le> 10 ^ 998" by (intro power_mono) auto
    finally show ?thesis .
  qed
  show "(2 :: rat) ^ 1074 \<le> 10 ^ 998" "(2 :: rat) ^ 1024 \<le> 10 ^ 998" by (rule p, simp)+
qed

lemma fmt_e_ok: "dbl_ok (D_Fin x) \<Longrightarrow> length (fmt_e x) \<le> 14"
proof (rule fmt_e_length)
  assume ok: "dbl_ok (D_Fin x)"
  have "\<bar>x\<bar> < 2 ^ 1024" using ok by (cases "x = 0") simp_all
  then show "\<bar>x\<bar> < 10 powi 998" using pow2_pow10(2) by (simp only: power_int_numeral)
  show "10 powi - 998 \<le> \<bar>x\<bar>" if "x \<noteq> 0"
  proof -
    have "(10 :: rat) powi - 998 \<le> 2 powi - 1074"
      using pow2_pow10(1) by (simp only: power_int_minus power_int_numeral le_imp_inverse_le zero_less_power zero_less_numeral)
    also have "\<dots> \<le> \<bar>x\<bar>" using ok that by simp
    finally show ?thesis .
  qed
qed

lemma dbl_text_length: "dbl_ok d \<Longrightarrow> length (dbl_text d) < 64"
proof (cases d)
  case (D_Fin x)
  assume ok: "dbl_ok d"
  have z: "d_is0 (d_mul d (d_of_int 0))"
    using D_Fin by (simp add: d_of_int_small round_dbl_def)
  obtain y where y: "round_dbl (10 ^ 60) = D_Fin y" "y \<le> 2 * 10 ^ 60" using round_dbl_double [of "10 ^ 60"] by auto
  have b: "round_dbl (10 ^ 9) = D_Fin (10 ^ 9)" using round_dbl_int [of "10 ^ 9"] by simp
  have "length (fmt_f0 x) < 64" if "d_less (d_abs d) (round_dbl (10 ^ 60))"
  proof -
    have "\<bar>x\<bar> \<le> 10 ^ 61" using that y by (simp add: D_Fin d_less_def)
    then show ?thesis using fmt_f0_length [of 61 x] by simp
  qed
  moreover have "length (fmt_e x) < 64" using fmt_e_ok [of x] ok D_Fin by simp
  moreover have "length (fmt_f x) < 64" if "\<not> d_less (round_dbl (10 ^ 9)) (d_abs d)"
  proof -
    have "\<bar>x\<bar> \<le> 10 ^ 9" using that unfolding b by (auto simp: D_Fin d_less_def)
    then show ?thesis using fmt_f_length [of 9 x] by simp
  qed
  ultimately show ?thesis
    unfolding dbl_text_def sprintf_dbl_def using z by (simp only: D_Fin dbl.case split: if_split) blast
qed (simp_all add: dbl_text_def d_of_int_small)

lemma print_number_ok:
  assumes "number_ok n"
  shows "print_number n = Inr (snd (number_text n))"
proof -
  have "length (dec (j_valueint n)) \<le> Suc 10"
    using assms by (intro dec_short) (auto simp: number_ok_def abs_if)
  then show ?thesis using dbl_text_length [of "j_valuedouble n"] assms
    by (simp add: print_number_def number_text_def alloc_text_def number_ok_def Let_def)
qed

lemma items_text_length: "length (items_text fmt es) \<le> sum_list (map (\<lambda>s. length s + 2) es)"
  by (induction fmt es rule: items_text.induct) auto

lemma print_array_ok: "print_array fmt es = Inr (''['' @ items_text fmt es @ '']'')"
proof -
  have "sum_list (map (\<lambda>s. length s + 2) es) \<le> sum_list (map (\<lambda>s. length s + 2 + (if fmt then 1 else 0)) es)"
    by (intro sum_list_mono) simp
  then show ?thesis using items_text_length [of fmt es] by (simp add: print_array_def alloc_text_def del: sum_list_addf)
qed

lemma members_text_length:
  "length (members_text fmt depth es) \<le>
     sum_list (map (\<lambda>(n, s). length s + length n + 2 + (if fmt then 2 + depth else 0)) es)"
  by (induction fmt depth es rule: members_text.induct) (auto simp: tabs_def)

lemma print_object_ok:
  "print_object depth fmt es = Inr
     (if es = [] then ''{'' @ (if fmt then LF # tabs depth else []) @ ''}''
      else ''{'' @ (if fmt then [LF] else []) @ members_text fmt (depth + 1) es @
        (if fmt then tabs depth else []) @ ''}'')"
  using members_text_length [of fmt "depth + 1" es]
  by (auto simp: print_object_def alloc_text_def Let_def tabs_def)

lemma print_items_text:
  "(\<And>c. c \<in> set cs \<Longrightarrow> print_value depth fmt c = Inr (Some (json_text depth fmt c))) \<Longrightarrow>
   print_items depth fmt cs = Inr (Some (map (json_text depth fmt) cs))"
  by (induction cs) auto

lemma print_members_text:
  "(\<And>c. c \<in> set cs \<Longrightarrow> print_value depth fmt c = Inr (Some (json_text depth fmt c))) \<Longrightarrow>
   print_members depth fmt cs =
     Inr (Some (map (\<lambda>c. (print_string_text (j_string (cj_node c)), json_text depth fmt c)) cs))"
  by (induction cs) (auto simp: print_string_ok)

lemma print_value_text: "printable t \<Longrightarrow> print_value depth fmt t = Inr (Some (json_text depth fmt t))"
proof (induction t arbitrary: depth)
  case (CJ n cs)
  have ih: "c \<in> set cs \<Longrightarrow> print_value d fmt c = Inr (Some (json_text d fmt c))" for c d
    using CJ by simp
  show ?case
    using CJ.prems print_items_text [OF ih] print_members_text [OF ih]
    by (auto simp: Let_def json_types_def print_number_ok print_string_ok print_array_ok print_object_ok)
qed

end
