(* ===== verification/Json_Unicode.thy ===== *)
theory Json_Unicode
  imports Json_String_Props
begin

text \<open>
  The escapes \<^verbatim>\<open>\u\<close> of \<^verbatim>\<open>parse_string\<close> as a whole: a code point in the form that JSON gives it,
  one escape or the two halves of a surrogate pair, is read as its UTF-8 encoding.
\<close>

section \<open>Surrogate pairs\<close>

lemma low10: "unat ((x :: u32) AND 0x3FF) = unat x mod 1024"
proof -
  have "x AND 0x3FF = take_bit 10 x" by (simp add: take_bit_eq_mask mask_eq_exp_minus_1)
  then show ?thesis by (simp add: take_bit_eq_mod unat_mod)
qed

lemma surrogate_value:
  fixes uc uc2 :: u32
  assumes "0xD800 \<le> uc" "uc \<le> 0xDBFF" "0xDC00 \<le> uc2" "uc2 \<le> 0xDFFF"
  shows "unat (0x10000 + (push_bit 10 (uc AND 0x3FF) OR (uc2 AND 0x3FF))) =
     0x10000 + (unat uc - 0xD800) * 1024 + (unat uc2 - 0xDC00)"
proof -
  define a b where "a = unat uc" and "b = unat uc2"
  have r: "0xD800 \<le> a" "a \<le> 0xDBFF" "0xDC00 \<le> b" "b \<le> 0xDFFF"
    using assms by (simp_all add: a_def b_def word_le_nat_alt)
  have "a mod 1024 = a - 0xD800" using r mod_nat_eqI [of "a - 0xD800" 1024 a] by simp
  moreover have "b mod 1024 = b - 0xDC00" using r mod_nat_eqI [of "b - 0xDC00" 1024 b] by simp
  ultimately have ab: "unat (uc AND 0x3FF) = a - 0xD800" "unat (uc2 AND 0x3FF) = b - 0xDC00"
    by (simp_all only: low10 a_def b_def)
  have p: "unat (push_bit 10 (uc AND 0x3FF)) = (a - 0xD800) * 1024"
    using r by (simp only: unsigned_push_bit_eq ab(1)) (simp add: push_bit_eq_mult take_bit_nat_eq_self)
  have "unat (push_bit 10 (uc AND 0x3FF) OR (uc2 AND 0x3FF)) = (a - 0xD800) * 1024 OR (b - 0xDC00)"
    by (simp only: unsigned_or_eq p ab(2))
  also have "\<dots> = (a - 0xD800) * 1024 + (b - 0xDC00)"
  proof (rule disjunctive_add_eq_or [symmetric])
    have "(a - 0xD800) * 1024 = push_bit 10 (a - 0xD800)" "b - 0xDC00 = take_bit 10 (b - 0xDC00)"
      using r by (simp_all add: push_bit_eq_mult take_bit_nat_eq_self)
    moreover have "push_bit 10 (a - 0xD800) AND take_bit 10 (b - 0xDC00) = 0"
      by (rule bit_eqI) (simp add: bit_and_iff bit_push_bit_iff_nat bit_take_bit_iff)
    ultimately show "(a - 0xD800) * 1024 AND (b - 0xDC00) = 0" by simp
  qed
  finally have u: "unat (push_bit 10 (uc AND 0x3FF) OR (uc2 AND 0x3FF)) = (a - 0xD800) * 1024 + (b - 0xDC00)" .
  then show ?thesis
    using r by (subst unat_add_lem [THEN iffD1]) (simp_all add: a_def b_def)
qed

section \<open>Code points as escapes\<close>

definition hex4 :: "nat \<Rightarrow> string" where
  "hex4 n = [hex_char (n div 4096), hex_char (n div 256 mod 16), hex_char (n div 16 mod 16), hex_char (n mod 16)]"

definition unicode_text :: "nat \<Rightarrow> string" where
  "unicode_text cp =
     (if cp < 0x10000 then BSL # CHR ''u'' # hex4 cp
      else BSL # CHR ''u'' # hex4 (0xD800 + (cp - 0x10000) div 1024) @
           BSL # CHR ''u'' # hex4 (0xDC00 + (cp - 0x10000) mod 1024))"

lemma parse_hex4_hex4: "n < 65536 \<Longrightarrow> parse_hex4 (hex4 n @ r) = of_nat n"
  unfolding hex4_def by (rule parse_hex4_text)

lemma scan_hex4_text:
  assumes "n < 65536" "scan_string r = Inr (k, len)"
  shows "scan_string (BSL # CHR ''u'' # hex4 n @ r) = Inr (k + 6, len + 5)"
proof -
  have "hex_char d \<noteq> QUOTE \<and> hex_char d \<noteq> BSL" if "d < 16" for d
    using hex_char_value [OF that] hex_value_plain by blast
  then have "scan_string (hex4 n @ r) = Inr (k + 4, len + 4)"
    using assms by (simp add: hex4_def scan_plain less_mult_imp_div_less)
  then show ?thesis unfolding scan_escape by simp
qed

lemma u32_of_nat:
  assumes "n < 65536"
  shows "unat (of_nat n :: u32) = n"
  using assms by (simp add: unat_of_nat)

lemma unicode_escape_single:
  assumes "0 < n" "n < 0x10000" "n < 0xD800 \<or> 0xDFFF < n" "4 \<le> k"
  shows "unicode_escape k (hex4 n @ r) = Some (of_nat n, 4)"
proof -
  have "(of_nat n :: u32) \<noteq> 0" using u32_of_nat [of n] assms(1,2) by (metis less_numeral_extra(3) unat_0)
  then show ?thesis
    using assms by (auto simp: unicode_escape_def parse_hex4_hex4 Let_def word_le_nat_alt u32_of_nat)
qed

lemma unicode_escape_pair:
  assumes "0xD800 \<le> a" "a \<le> 0xDBFF" "0xDC00 \<le> b" "b \<le> 0xDFFF" "9 \<le> k"
  shows "\<exists>uc. unicode_escape k (hex4 a @ BSL # CHR ''u'' # hex4 b @ r) = Some (uc, 10) \<and>
    unat uc = 0x10000 + (a - 0xD800) * 1024 + (b - 0xDC00)"
proof -
  have u: "unat (of_nat a :: u32) = a" "unat (of_nat b :: u32) = b" using assms by (simp_all add: u32_of_nat)
  have "drop 4 (hex4 a @ s) = s" for s by (simp add: hex4_def)
  moreover have "parse_hex4 (hex4 a @ s) = of_nat a" "parse_hex4 (hex4 b @ s) = of_nat b" for s
    using assms by (simp_all add: parse_hex4_hex4)
  moreover have "(0xD800 :: u32) \<le> of_nat a" "(of_nat a :: u32) \<le> 0xDBFF" "(0xDC00 :: u32) \<le> of_nat b"
    "(of_nat b :: u32) \<le> 0xDFFF" "(of_nat a :: u32) \<noteq> 0" "\<not> (0xDC00 :: u32) \<le> of_nat a"
    using assms u by (auto simp: word_le_nat_alt)
  moreover from this have "\<not> (of_nat b :: u32) < 0xDC00" "\<not> (0xDFFF :: u32) < of_nat b" by (simp_all add: not_less)
  ultimately show ?thesis
    using surrogate_value [of "of_nat a" "of_nat b", unfolded u] assms(5)
    by (simp add: unicode_escape_def Let_def)
qed

lemma parse_one_escape:
  assumes "unicode_escape n (es @ QUOTE # r) = Some (uc, n)" "length es = n"
    "scan_string (BSL # CHR ''u'' # es @ QUOTE # r) = Inr (n + 2, len)" "4 \<le> len"
  shows "parse_string (QUOTE # BSL # CHR ''u'' # es @ QUOTE # r) = P_Ok (utf8_chars uc) r"
proof -
  have "decode_string 0 t = Inr (Some [])" for t by (simp add: decode_string.simps)
  then have "decode_string (n + 2) (BSL # CHR ''u'' # es @ QUOTE # r) = Inr (Some (utf8_chars uc))"
    using decode_unicode [OF assms(1)] assms(2) by simp
  moreover have "length (utf8_chars uc) \<le> len" using utf8_chars_length [of uc] assms(4) by linarith
  ultimately show ?thesis using assms(2,3) by (simp add: parse_string_def)
qed

lemma scan_quote: "scan_string (QUOTE # r) = Inr (0, 0)"
  by (simp add: scan_string.simps)

text \<open>
  Every Unicode code point except 0, written as JSON writes it (one escape of four hexadecimal digits,
  or a surrogate pair beyond the first plane), is read by parse_string as its UTF-8 encoding.
\<close>

lemma unicode_escape_utf8:
  assumes "0 < cp" "cp < 0x110000" "cp < 0xD800 \<or> 0xDFFF < cp"
  shows "parse_string (QUOTE # unicode_text cp @ QUOTE # r) = P_Ok (utf8_spec cp) r"
proof (cases "cp < 0x10000")
  case True
  have "unicode_escape 4 (hex4 cp @ QUOTE # r) = Some (of_nat cp, 4)"
    using unicode_escape_single [of cp 4] True assms by simp
  moreover have "length (hex4 cp) = 4" by (simp add: hex4_def)
  moreover have "scan_string (BSL # CHR ''u'' # hex4 cp @ QUOTE # r) = Inr (4 + 2, 5)"
    using scan_hex4_text [OF _ scan_quote] True by simp
  ultimately have "parse_string (QUOTE # BSL # CHR ''u'' # hex4 cp @ QUOTE # r) = P_Ok (utf8_chars (of_nat cp)) r"
    by (rule parse_one_escape) simp
  then show ?thesis using True utf8_chars_spec [of "of_nat cp"] by (simp add: unicode_text_def u32_of_nat)
next
  case False
  define a b where "a = 0xD800 + (cp - 0x10000) div 1024" and "b = 0xDC00 + (cp - 0x10000) mod 1024"
  have "(cp - 0x10000) div 1024 < 1024" using assms(2) by (simp add: less_mult_imp_div_less)
  then have ab: "0xD800 \<le> a" "a \<le> 0xDBFF" "0xDC00 \<le> b" "b \<le> 0xDFFF"
    using mod_less_divisor [of 1024 "cp - 0x10000"] by (auto simp: a_def b_def)
  let ?es = "hex4 a @ BSL # CHR ''u'' # hex4 b"
  obtain uc where uc: "unicode_escape 10 (?es @ QUOTE # r) = Some (uc, 10)"
    "unat uc = 0x10000 + (a - 0xD800) * 1024 + (b - 0xDC00)"
    using unicode_escape_pair [OF ab, of 10 "QUOTE # r"] by auto
  have "unat uc = 0x10000 + ((cp - 0x10000) div 1024 * 1024 + (cp - 0x10000) mod 1024)"
    unfolding uc(2) by (simp add: a_def b_def)
  also have "\<dots> = cp" using False by (simp only: div_mult_mod_eq)
  finally have v: "unat uc = cp" .
  have "scan_string (BSL # CHR ''u'' # hex4 b @ QUOTE # r) = Inr (6, 5)"
    using scan_hex4_text [OF _ scan_quote] ab by simp
  from scan_hex4_text [OF _ this, of a] have "scan_string (BSL # CHR ''u'' # ?es @ QUOTE # r) = Inr (10 + 2, 10)"
    using ab by simp
  moreover have "length ?es = 10" by (simp add: hex4_def)
  ultimately have "parse_string (QUOTE # BSL # CHR ''u'' # ?es @ QUOTE # r) = P_Ok (utf8_chars uc) r"
    using parse_one_escape [OF uc(1)] by simp
  then show ?thesis
    using False utf8_chars_spec [of uc] v assms(2) by (simp add: unicode_text_def a_def b_def)
qed

lemma unicode_escape_utf8_witness:
  "parse_string (QUOTE # unicode_text 0x1F600 @ QUOTE # '',7'') = P_Ok (utf8_spec 0x1F600) '',7''"
  by (rule unicode_escape_utf8) simp_all

end
