(* ===== verification/Json_Wf.thy ===== *)
theory Json_Wf
  imports Json_Print_Props Json_Unicode
begin

text \<open>
  Well-formed items, the ones that the parser makes: each has one of the seven types and the fields that
  the type needs, only arrays and objects have children, and the members of an object and nothing else
  have a name.
\<close>

section \<open>The items of the parser\<close>

definition c_string :: "string option \<Rightarrow> bool" where
  "c_string so \<longleftrightarrow> (case so of None \<Rightarrow> True | Some s \<Rightarrow> NUL \<notin> set s)"

definition node_wf :: "jnode \<Rightarrow> bool" where
  "node_wf n \<longleftrightarrow>
     j_type n \<in> json_types \<and> number_ok n \<and> c_string (j_valuestring n) \<and> c_string (j_string n) \<and>
     (j_type n = cJSON_String \<longleftrightarrow> j_valuestring n \<noteq> None) \<and>
     (j_type n = cJSON_Number \<longrightarrow> j_valueint n = d_to_int (j_valuedouble n))"

fun json_wf :: "cjson \<Rightarrow> bool" where
  "json_wf (CJ n cs) \<longleftrightarrow>
     node_wf n \<and> (cs \<noteq> [] \<longrightarrow> j_type n = cJSON_Array \<or> j_type n = cJSON_Object) \<and>
     (\<forall>c \<in> set cs. json_wf c \<and> (j_string (cj_node c) \<noteq> None \<longleftrightarrow> j_type n = cJSON_Object))"

text \<open>What holds of the result when there is one; the rest of a C string is one.\<close>

fun yields :: "('a \<Rightarrow> bool) \<Rightarrow> 'a pres \<Rightarrow> bool" where
  "yields P (P_Ok x r) \<longleftrightarrow> P x \<and> NUL \<notin> set r"
| "yields P p \<longleftrightarrow> True"

lemma yields_pbind:
  assumes "yields Q p" "\<And>x r. Q x \<Longrightarrow> NUL \<notin> set r \<Longrightarrow> yields P (f x r)"
  shows "yields P (pbind p f)"
  using assms by (cases p) auto

lemma utf8_cont_nonzero:
  "0 \<notin> set bs \<Longrightarrow> 0 \<notin> set (snd (utf8_cont k uc bs))"
proof (induction k arbitrary: uc bs)
  case (Suc k)
  have "unat (ucast ((uc OR 0x80) AND 0xBF) :: u8) \<noteq> 0" by (simp only: cont_byte)
  then have "(ucast ((uc OR 0x80) AND 0xBF) :: u8) \<noteq> 0" by (metis unat_0)
  then have "0 \<notin> set ((ucast ((uc OR 0x80) AND 0xBF) :: u8) # bs)" using Suc.prems by auto
  then show ?case using Suc.IH by (simp only: utf8_cont.simps)
qed simp

lemma utf8_chars_no_nul:
  assumes "uc \<noteq> 0"
  shows "NUL \<notin> set (utf8_chars uc)"
proof -
  obtain uc' bs where c: "utf8_cont (utf8_len uc - 1) uc [] = (uc', bs)" by (metis surj_pair)
  have "0 \<notin> set bs" using utf8_cont_nonzero [of "[]" "utf8_len uc - 1" uc] c by simp
  moreover have "ucast uc' OR firstByteMark ! utf8_len uc \<noteq> 0"
  proof (cases "uc < 0x80")
    case True
    then have "uc' = uc" "unat uc < 0x80" using c by (simp_all add: utf8_len_def word_less_nat_alt)
    moreover from this have "unat (ucast uc :: u8) = unat uc"
      by (simp add: unsigned_ucast_eq take_bit_nat_eq_self)
    ultimately show ?thesis using assms True by (metis or_eq_0_iff unat_0 unat_eq_0)
  next
    case False
    moreover have "firstByteMark ! 2 = 0xC0" "firstByteMark ! 3 = 0xE0" "firstByteMark ! 4 = 0xF0"
      by (simp_all add: firstByteMark_def)
    ultimately show ?thesis by (auto simp: utf8_len_def or_eq_0_iff)
  qed
  ultimately have z: "0 \<notin> set (utf8_bytes uc)" unfolding utf8_bytes_def Let_def c prod.case by simp
  have w: "char_of (unat w) = NUL \<Longrightarrow> w = 0" for w :: u8
    using char_nul [of "unat w"] unsigned_less [of w, where ?'a = nat] by (simp add: unat_eq_zero)
  show ?thesis
  proof
    assume "NUL \<in> set (utf8_chars uc)"
    then obtain b where "b \<in> set (utf8_bytes uc)" "char_of (unat b) = NUL"
      unfolding utf8_chars_def set_map by (metis imageE)
    then show False using z w by blast
  qed
qed

lemma unicode_escape_nonzero:
  assumes "unicode_escape k ds = Some (uc, n)"
  shows "uc \<noteq> 0"
proof (cases "0xD800 \<le> parse_hex4 ds \<and> parse_hex4 ds \<le> 0xDBFF")
  case False
  then show ?thesis
    using assms unfolding unicode_escape_def Let_def if_not_P [OF False]
    by (simp only: option.inject prod.inject option.distinct split: if_split_asm) blast
next
  case True
  have "\<exists>c1 c2 r. drop 4 ds = c1 # c2 # r"
    using assms unfolding unicode_escape_def Let_def if_P [OF True] by (simp only: split: if_split_asm list.split_asm) blast+
  then obtain c1 c2 r where d: "drop 4 ds = c1 # c2 # r" by blast
  define w where "w = parse_hex4 r"
  define v where "v = 0x10000 + (push_bit 10 (parse_hex4 ds AND 0x3FF) OR (w AND 0x3FF))"
  have "\<not> (w < 0xDC00 \<or> 0xDFFF < w) \<and> v = uc"
    using assms unfolding unicode_escape_def Let_def if_P [OF True] d list.case w_def [symmetric] v_def [symmetric]
    by (simp only: option.inject prod.inject option.distinct simp_thms split: if_split_asm)
  then have "unat uc = 0x10000 + (unat (parse_hex4 ds) - 0xD800) * 1024 + (unat w - 0xDC00)"
    using surrogate_value [of "parse_hex4 ds" w] True unfolding v_def by (simp only: not_less de_Morgan_disj)
  then show ?thesis by (metis add_is_0 unat_0 zero_neq_numeral)
qed

lemma decode_no_nul:
  "decode_string k s = Inr (Some out) \<Longrightarrow> NUL \<notin> set s \<Longrightarrow> NUL \<notin> set out"
proof (induction k arbitrary: s out rule: less_induct)
  case (less k)
  show ?case
  proof (cases "k = 0 \<or> s = []")
    case True
    then show ?thesis using less.prems by (subst (asm) decode_string.simps) (auto split: if_splits)
  next
    case False
    then obtain j c cs where s: "k = Suc j" "s = c # cs" by (cases k; cases s) auto
    have ih: "decode_string i t = Inr (Some u) \<Longrightarrow> suffix t s \<Longrightarrow> i < k \<Longrightarrow> NUL \<notin> set u" for i t u
      using less by (auto simp: suffix_def)
    show ?thesis
    proof (cases "c = BSL")
      case False
      then show ?thesis
        using less.prems ih [of j cs] s by (auto simp: decode_plain cbind_Inr_iff suffix_Cons)
    next
      case True
      note c = True
      show ?thesis
      proof (cases cs)
        case Nil
        then show ?thesis using less.prems s c by (subst (asm) decode_string.simps) simp
      next
        case (Cons d ds)
        show ?thesis
        proof (cases j)
          case 0
          have "decode_string (Suc 0) (BSL # d # ds) =
              (if d = CHR ''u'' then Inr None else Inr (Some [escape_value d]))"
            by (subst decode_string.simps) (simp add: unicode_escape_def Let_def decode_string.simps [of 0] numeral_2_eq_2)
          moreover have "escape_value d \<noteq> NUL" using less.prems(2) s Cons by (auto simp: escape_value_def)
          ultimately show ?thesis using less.prems(1) s c Cons 0 by (auto split: if_splits)
        next
          case (Suc i)
          show ?thesis
          proof (cases "d = CHR ''u''")
            case False
            then have "decode_string k s = cbind (decode_string i ds) (\<lambda>r. Inr (map_option ((#) (escape_value d)) r))"
              using decode_escape s c Cons Suc by simp
            moreover have "escape_value d \<noteq> NUL" using less.prems(2) s Cons by (auto simp: escape_value_def)
            ultimately show ?thesis
              using less.prems(1) ih [of i ds] s Cons Suc by (auto simp: cbind_Inr_iff suffix_Cons)
          next
            case True
            then obtain uc n where u: "unicode_escape i ds = Some (uc, n)"
              using less.prems(1) s c Cons Suc
              by (subst (asm) decode_string.simps) (auto split: option.splits)
            then have "decode_string k s =
                cbind (decode_string (i - n) (drop n ds)) (\<lambda>r. Inr (map_option ((@) (utf8_chars uc)) r))"
              using decode_unicode s c Cons Suc True by simp
            moreover have "suffix (drop n ds) s" using s Cons by (auto simp: suffix_Cons intro: suffix_drop)
            ultimately show ?thesis
              using less.prems(1) ih [of "i - n" "drop n ds"] s Suc utf8_chars_no_nul [OF unicode_escape_nonzero [OF u]]
              by (auto simp: cbind_Inr_iff)
          qed
        qed
      qed
    qed
  qed
qed

lemma no_nul_suffix: "NUL \<notin> set v \<Longrightarrow> suffix r v \<Longrightarrow> NUL \<notin> set r"
  by (auto simp: suffix_def)

lemma no_nul_parts:
  "NUL \<notin> set v \<Longrightarrow> NUL \<notin> set (skip v)" "NUL \<notin> set v \<Longrightarrow> NUL \<notin> set (tl v)" "NUL \<notin> set v \<Longrightarrow> NUL \<notin> set (drop n v)"
  by (meson no_nul_suffix skip_suffix suffix_tl suffix_drop)+

lemma parse_string_no_nul:
  assumes "NUL \<notin> set v"
  shows "yields (\<lambda>s. NUL \<notin> set s) (parse_string v)"
proof (cases "parse_string v")
  case (P_Ok s r)
  then have "suffix r v" using parse_string_consumes [of v] by simp
  moreover have "NUL \<notin> set s"
    using P_Ok assms decode_no_nul
    by (auto simp: parse_string_def split: list.splits sum.splits option.splits if_splits)
  ultimately show ?thesis using P_Ok assms no_nul_suffix by simp
qed simp_all

lemma d_to_int_range: "- (2 ^ 31) \<le> d_to_int d \<and> d_to_int d < 2 ^ 31"
  by (cases d) (simp_all add: Let_def)

lemma parse_number_ok: "dbl_ok (fst (parse_number s))"
  by (simp add: parse_number_def split: prod.splits)

definition fresh :: "jnode \<Rightarrow> bool" where
  "fresh item \<longleftrightarrow> j_valuestring item = None \<and> number_ok item \<and> c_string (j_string item)"

lemma fresh_new [simp]:
  "fresh new_item" "j_string new_item = None" "NUL \<notin> set s \<Longrightarrow> fresh (new_item\<lparr>j_type := t, j_string := Some s\<rparr>)"
  by (simp_all add: fresh_def new_item_def number_ok_def c_string_def)

lemma node_wf_leaf:
  assumes "fresh item"
  shows "node_wf (item\<lparr>j_type := cJSON_NULL\<rparr>)" "node_wf (item\<lparr>j_type := cJSON_False\<rparr>)"
    "node_wf (item\<lparr>j_type := cJSON_True, j_valueint := 1\<rparr>)"
    "node_wf (item\<lparr>j_type := cJSON_Array\<rparr>)" "node_wf (item\<lparr>j_type := cJSON_Object\<rparr>)"
    "NUL \<notin> set s \<Longrightarrow> node_wf (item\<lparr>j_valuestring := Some s, j_type := cJSON_String\<rparr>)"
    "dbl_ok d \<Longrightarrow> node_wf (item\<lparr>j_valuedouble := d, j_valueint := d_to_int d, j_type := cJSON_Number\<rparr>)"
  using assms d_to_int_range
  by (auto simp: node_wf_def fresh_def json_types_def number_ok_def c_string_def)

lemma bracket_wf:
  assumes "NUL \<notin> set v" "yields (\<lambda>cs. \<forall>c \<in> set cs. json_wf c \<and> (j_string (cj_node c) \<noteq> None \<longleftrightarrow> j_type n = cJSON_Object))
      (entries (skip (tl v)))"
    "node_wf n" "j_type n = cJSON_Array \<or> j_type n = cJSON_Object"
  shows "yields (\<lambda>t. json_wf t \<and> j_string (cj_node t) = j_string n) (parse_bracket close entries n v)"
  unfolding parse_bracket_def Let_def
  using assms by (auto intro!: yields_pbind [OF assms(2)] simp: no_nul_parts)

lemma parse_wf:
  "NUL \<notin> set v \<Longrightarrow> fresh item \<Longrightarrow>
     yields (\<lambda>t. json_wf t \<and> j_string (cj_node t) = j_string item) (parse_value f item v)"
  "NUL \<notin> set v \<Longrightarrow> yields (\<lambda>cs. \<forall>c \<in> set cs. json_wf c \<and> j_string (cj_node c) = None) (parse_items f v)"
  "NUL \<notin> set v \<Longrightarrow> yields (\<lambda>cs. \<forall>c \<in> set cs. json_wf c \<and> j_string (cj_node c) \<noteq> None) (parse_members f v)"
proof (induction f arbitrary: v item)
  case (Suc f)
  {
    case 1
    have leaf: "yields (\<lambda>t. json_wf t \<and> j_string (cj_node t) = j_string item) (P_Ok (CJ n []) r)"
      if "node_wf n" "j_string n = j_string item" "NUL \<notin> set r" for n r using that by simp
    show ?case
    proof (cases "prefix ''null'' v \<or> prefix ''false'' v \<or> prefix ''true'' v")
      case True
      then show ?thesis using node_wf_leaf [OF 1(2)] 1 by (auto simp: no_nul_parts)
    next
      case False
      note w = node_wf_leaf [OF 1(2)]
      have br: "yields (\<lambda>t. json_wf t \<and> j_string (cj_node t) = j_string item)
          (parse_bracket b (parse_items f) (item\<lparr>j_type := cJSON_Array\<rparr>) v)"
        "yields (\<lambda>t. json_wf t \<and> j_string (cj_node t) = j_string item)
          (parse_bracket b (parse_members f) (item\<lparr>j_type := cJSON_Object\<rparr>) v)" for b
        using bracket_wf [OF 1(1), of "item\<lparr>j_type := cJSON_Array\<rparr>" "parse_items f" b]
          bracket_wf [OF 1(1), of "item\<lparr>j_type := cJSON_Object\<rparr>" "parse_members f" b]
          Suc.IH(2,3) [of "skip (tl v)"] w 1 by (simp_all add: no_nul_parts)
      have st: "yields (\<lambda>t. json_wf t \<and> j_string (cj_node t) = j_string item) (pbind (parse_string v)
          (\<lambda>s r. P_Ok (CJ (item\<lparr>j_valuestring := Some s, j_type := cJSON_String\<rparr>) []) r))"
        using w by (intro yields_pbind [OF parse_string_no_nul [OF 1(1)]]) simp
      show ?thesis
      proof (cases v)
        case (Cons c s)
        have nu: "yields (\<lambda>t. json_wf t \<and> j_string (cj_node t) = j_string item) (let (n, r) = parse_number v in
            P_Ok (CJ (item\<lparr>j_valuedouble := n, j_valueint := d_to_int n, j_type := cJSON_Number\<rparr>) []) r)"
          if "c = CHR ''-'' \<or> isdigit_char c"
          using parse_number_suffix [of c s] that parse_number_ok [of v] 1(1) no_nul_suffix [of s] w(7) Cons
          by (auto split: prod.splits)
        show ?thesis
          using False Cons br [unfolded Cons] st [unfolded Cons] nu [unfolded Cons]
          by (simp only: parse_value.simps de_Morgan_disj if_False list.case)
            (intro iffD2 [OF if_split [of "yields (\<lambda>t. json_wf t \<and> j_string (cj_node t) = j_string item)"]] conjI impI;
              simp only: yields.simps)
      qed simp
    qed
  next
    case 2
    show ?case
      unfolding parse_items.simps Let_def
      using 2 by (intro yields_pbind [OF Suc.IH(1)]) (auto intro!: yields_pbind [OF Suc.IH(2)] simp: no_nul_parts)
  next
    case 3
    show ?case
      unfolding parse_members.simps Let_def
      using 3 by (intro yields_pbind [OF parse_string_no_nul])
        (auto intro!: yields_pbind [OF Suc.IH(1)] yields_pbind [OF Suc.IH(3)] simp: no_nul_parts)
  }
qed simp_all

lemma wf_printable: "json_wf t \<Longrightarrow> printable t"
proof (induction t)
  case (CJ n cs)
  have "i AND 255 = i" if "i \<in> json_types" for i
    using that by (auto simp: json_types_def)
  then show ?case using CJ by (auto simp: node_wf_def)
qed

lemma parse_top_wf:
  assumes "NUL \<notin> set s"
  shows "yields (\<lambda>t. json_wf t \<and> j_string (cj_node t) = None) (cJSON_ParseWithOpts s q)"
  unfolding cJSON_ParseWithOpts_def Let_def
  using assms by (intro yields_pbind [OF parse_wf(1)]) (auto simp: no_nul_parts)

text \<open>
  C23: Every item that the parser returns is well formed: each item of the tree has one of the seven types,
  a string value if and only if it is a string, children only if it is an array or an object, a name if
  and only if it is a member of an object, and the integer of a number is the truncation of its double;
  no string or name contains the terminator, although escapes could name it.
\<close>

theorem json_parse_type:
  assumes "NUL \<notin> set s" "cJSON_ParseWithOpts s q = P_Ok t r"
  shows "json_wf t"
  using parse_top_wf [OF assms(1), of q] assms(2) by simp

lemma parse_empty_array: "cJSON_ParseWithOpts ''[ ]'' q = P_Ok (CJ (new_item\<lparr>j_type := cJSON_Array\<rparr>) []) []"
  by (cases q) (simp_all add: cJSON_ParseWithOpts_def json_fuel_def skip_def parse_bracket_def isdigit_char_def Let_def
      eval_nat_numeral)

theorem json_parse_type_witness: "json_wf (CJ (new_item\<lparr>j_type := cJSON_Array\<rparr>) [])"
  by (rule json_parse_type [OF _ parse_empty_array]) simp

text \<open>
  C15: Whatever text was parsed, both printers give a text for the resulting item: no allocation is too
  small for what is written to it, however deep the nesting and whatever the numbers and strings are.
\<close>

theorem json_parsed_prints:
  assumes "NUL \<notin> set s" "cJSON_ParseWithOpts s q = P_Ok t r"
  shows "cJSON_Print t = Inr (Some (json_text 0 True t)) \<and> cJSON_PrintUnformatted t = Inr (Some (json_text 0 False t))"
  using print_value_text [OF wf_printable] parse_top_wf [OF assms(1), of q] assms(2)
  by (simp_all add: cJSON_Print_def cJSON_PrintUnformatted_def)

theorem json_parsed_prints_witness:
  "cJSON_Print (CJ (new_item\<lparr>j_type := cJSON_Array\<rparr>) []) = Inr (Some ''[]'')"
  using json_parsed_prints [OF _ parse_empty_array] by (simp add: new_item_def)

end
