(* ===== verification/Json_Buffer_Props.thy ===== *)
theory Json_Buffer_Props
  imports Json_Buffer Json_Print_Props Json_Wf
begin

text \<open>
  The growing buffer: \<^verbatim>\<open>pow2gt\<close> gives the next power of two, and printing into the buffer gives the
  text that the other printer gives.
\<close>

section \<open>The next power of two\<close>

lemma bit_smear: "bit (smear k y) i \<longleftrightarrow> bit y i \<or> bit y (i + k)"
  by (simp add: smear_def bit_or_iff bit_drop_bit_eq add.commute)

lemma ex_double:
  fixes n :: nat
  shows "(\<exists>j < n. B (i + j)) \<or> (\<exists>j < n. B (i + n + j)) \<longleftrightarrow> (\<exists>j < n + n. B (i + j))"
proof
  assume "\<exists>j < n + n. B (i + j)"
  then obtain j where j: "j < n + n" "B (i + j)" by blast
  show "(\<exists>j < n. B (i + j)) \<or> (\<exists>j < n. B (i + n + j))"
  proof (cases "j < n")
    case False
    then have "j - n < n" "B (i + n + (j - n))" using j by simp_all
    then show ?thesis by blast
  qed (use j in blast)
qed (metis add.assoc nat_add_left_cancel_less trans_less_add1)

lemma bit_smears:
  "bit (smear 16 (smear 8 (smear 4 (smear 2 (smear 1 y))))) i \<longleftrightarrow> (\<exists>j < 32. bit y (i + j))"
proof -
  have 1: "bit (smear 1 y) i \<longleftrightarrow> (\<exists>j < 2. bit y (i + j))" for i
    using ex_double [of 1 "bit y" i] by (simp add: bit_smear numeral_2_eq_2)
  have 2: "bit (smear 2 (smear 1 y)) i \<longleftrightarrow> (\<exists>j < 4. bit y (i + j))" for i
    using ex_double [of 2 "bit y" i] by (simp only: bit_smear [of 2] 1) simp
  have 3: "bit (smear 4 (smear 2 (smear 1 y))) i \<longleftrightarrow> (\<exists>j < 8. bit y (i + j))" for i
    using ex_double [of 4 "bit y" i] by (simp only: bit_smear [of 4] 2) simp
  have 4: "bit (smear 8 (smear 4 (smear 2 (smear 1 y)))) i \<longleftrightarrow> (\<exists>j < 16. bit y (i + j))" for i
    using ex_double [of 8 "bit y" i] by (simp only: bit_smear [of 8] 3) simp
  show ?thesis
    using ex_double [of 16 "bit y" i] by (simp only: bit_smear [of 16] 4) simp
qed

lemma bit_below: "0 \<le> (y :: int) \<Longrightarrow> y < 2 ^ n \<Longrightarrow> bit y i \<Longrightarrow> i < n"
  using bit_take_bit_iff [of n y i] take_bit_int_eq_self [of y n] by simp

lemma smear_mask:
  assumes "2 ^ k \<le> y" "y < 2 ^ Suc k" "k < 32"
  shows "smear 16 (smear 8 (smear 4 (smear 2 (smear 1 y)))) = mask (Suc k)"
proof (rule bit_eqI)
  fix i
  have "0 \<le> y" using assms(1) by (smt (verit) zero_le_power)
  have "y div 2 ^ k = 1" using assms by (intro div_pos_geq [THEN trans]) auto
  then have "bit y k" by (simp add: bit_iff_odd)
  moreover have "bit y j \<Longrightarrow> j \<le> k" for j using bit_below [OF \<open>0 \<le> y\<close> assms(2)] by (simp add: less_Suc_eq_le)
  ultimately show "bit (smear 16 (smear 8 (smear 4 (smear 2 (smear 1 y))))) i = bit (mask (Suc k) :: int) i"
    unfolding bit_smears bit_mask_iff using assms(3)
    by (fastforce dest: add_leD1 intro!: exI [of _ "k - i"])
qed
lemma to_int32_small: "0 \<le> i \<Longrightarrow> i < 2 ^ 31 \<Longrightarrow> to_int32 i = i"
  by (simp add: to_int32_def)

lemma pow2_cancel: "(2 :: int) ^ k < 2 ^ j \<Longrightarrow> k < j"
  by (metis power_strict_increasing_iff one_less_numeral_iff semiring_norm(76))

lemma pow2gt_power:
  assumes "2 \<le> x" "x \<le> 2 ^ 30"
  obtains k where "2 ^ k < x" "x \<le> 2 ^ Suc k" "pow2gt x = 2 ^ Suc k"
proof -
  define y where "y = x - 1"
  have y: "1 \<le> y" "y < 2 ^ 30" using assms by (auto simp: y_def)
  have "1 \<le> nat y" using y by simp
  from ex_power_ivl1 [OF order_refl this]
  obtain k where k: "2 ^ k \<le> nat y" "nat y < 2 ^ Suc k" by auto
  then have "2 ^ k \<le> int (nat y)" "int (nat y) < 2 ^ Suc k"
    by (metis of_nat_le_iff of_nat_numeral of_nat_power, metis of_nat_less_iff of_nat_numeral of_nat_power)
  then have k': "2 ^ k \<le> y" "y < 2 ^ Suc k" using y by simp_all
  have "(2 :: int) ^ k < 2 ^ 30" using k'(1) y(2) by linarith
  then have "k < 30" by (rule pow2_cancel)
  have "pow2gt x = to_int32 (mask (Suc k) + 1)"
    using smear_mask [OF k'] \<open>k < 30\<close> by (simp add: pow2gt_def y_def)
  also have "\<dots> = to_int32 (2 ^ Suc k)" by (simp add: mask_eq_exp_minus_1)
  also have "\<dots> = 2 ^ Suc k"
  proof (rule to_int32_small)
    show "(2 :: int) ^ Suc k < 2 ^ 31" using \<open>k < 30\<close> by (intro power_strict_increasing) auto
  qed simp
  finally show ?thesis using that k' unfolding y_def by fastforce
qed

lemma pow2gt_1: "pow2gt 1 = 1"
proof -
  have "smear k 0 = 0" for k by (simp add: smear_def)
  then show ?thesis by (simp add: pow2gt_def to_int32_def)
qed

text \<open>
  pow2gt gives the least power of two that is not below its argument, from 1 to 2^30; the five shifts
  and ORs turn the argument less 1 into a mask of ones.
\<close>

lemma pow2gt_least:
  assumes "1 \<le> x" "x \<le> 2 ^ 30"
  shows "\<exists>k. pow2gt x = 2 ^ k \<and> x \<le> 2 ^ k \<and> (\<forall>j. x \<le> 2 ^ j \<longrightarrow> k \<le> j)"
proof (cases "x = 1")
  case True
  then show ?thesis using pow2gt_1 by (intro exI [of _ 0]) simp
next
  case False
  then obtain k where k: "2 ^ k < x" "x \<le> 2 ^ Suc k" "pow2gt x = 2 ^ Suc k"
    using pow2gt_power [of x] assms by auto
  have "Suc k \<le> j" if "x \<le> 2 ^ j" for j
    using pow2_cancel [of k j] that k(1) by linarith
  then show ?thesis using k by blast
qed

lemma pow2gt_least_witness:
  "\<exists>k. pow2gt 5 = 2 ^ k \<and> 5 \<le> (2 :: int) ^ k"
  using pow2gt_least [of 5] by auto

lemma pow2gt_bounds:
  assumes "1 \<le> x" "x \<le> 2 ^ 30"
  shows "x \<le> pow2gt x \<and> 0 \<le> pow2gt x"
proof (cases "x = 1")
  case False
  then have "2 \<le> x" using assms(1) by simp
  then obtain k where "x \<le> 2 ^ Suc k" "pow2gt x = 2 ^ Suc k" using pow2gt_power assms(2) by blast
  then show ?thesis using assms(1) by simp
qed (simp add: pow2gt_1)

section \<open>The buffer\<close>

text \<open>The buffer starts with \<open>pre\<close>, and the offset is behind it.\<close>

definition filled :: "string \<Rightarrow> printbuffer \<Rightarrow> bool" where
  "filled pre p \<longleftrightarrow> pb_offset p = length pre \<and> (\<exists>r. pb_buffer p = Some (pre @ r))"

lemma ensure_ok:
  assumes "filled pre p" "length pre + n \<le> 2 ^ 30"
  shows "\<exists>p'. ensure junk p n = Inr (True, p') \<and> pb_offset p' = length pre \<and>
    (\<exists>r. pb_buffer p' = Some (pre @ r) \<and> n \<le> length r)"
proof -
  obtain r where r: "pb_buffer p = Some (pre @ r)" "pb_offset p = length pre" using assms(1) by (auto simp: filled_def)
  define x where "x = int n + int (length pre)"
  have x: "0 \<le> x" "x \<le> 2 ^ 30" using assms(2) by (simp_all add: x_def)
  then have i: "to_int32 x = x" by (intro to_int32_small) auto
  show ?thesis
  proof (cases "x \<le> int (length (pre @ r))")
    case True
    then show ?thesis using r by (simp add: ensure_def x_def [symmetric] i Let_def) (simp add: x_def)
  next
    case False
    then have "1 \<le> x" by simp
    note b = pow2gt_bounds [OF this x(2)]
    have "\<not> nat (pow2gt x) < length pre + length r" using b False by (simp add: nat_less_iff)
    then have "ensure junk p n = Inr (True, p\<lparr>pb_buffer := Some (pre @ r @ map junk [length (pre @ r)..<nat (pow2gt x)])\<rparr>)"
      using r False b by (simp add: ensure_def x_def [symmetric] i Let_def)
    moreover have "length pre + n \<le> nat (pow2gt x)" using b by (simp add: x_def le_nat_iff)
    ultimately show ?thesis using r by simp
  qed
qed

lemma emit_ok:
  assumes "filled pre p" "length s \<le> n" "length pre + n \<le> 2 ^ 30"
  shows "\<exists>p' r. emit junk n s k p = Inr (True, p') \<and> pb_offset p' = length pre + k \<and> pb_buffer p' = Some (pre @ s @ r)"
proof -
  obtain p' r where p': "ensure junk p n = Inr (True, p')" "pb_offset p' = length pre" "pb_buffer p' = Some (pre @ r)" "n \<le> length r"
    using ensure_ok [OF assms(1,3)] by blast
  then show ?thesis using assms(2) by (auto simp: emit_def buf_write_def)
qed

lemma emit_filled:
  assumes "filled pre p" "length s + length w \<le> n" "length pre + n \<le> 2 ^ 30" "k = length s"
  shows "\<exists>p'. emit junk n (s @ w) k p = Inr (True, p') \<and> filled (pre @ s) p'"
  using emit_ok [OF assms(1) _ assms(3), of "s @ w" junk k] assms(2,4) by (auto simp: filled_def)

text \<open>A printer that has written the text \<open>x\<close> behind \<open>pre\<close>, with the offset somewhere in it.\<close>

definition wrote :: "string \<Rightarrow> string \<Rightarrow> (bool \<times> printbuffer) cres \<Rightarrow> bool" where
  "wrote pre x m \<longleftrightarrow>
     (\<exists>p' r j. m = Inr (True, p') \<and> j \<le> length x \<and> pb_offset p' = length pre + j \<and>
        pb_buffer p' = Some (pre @ x @ NUL # r))"

definition printed :: "string \<Rightarrow> (bool \<times> printbuffer) cres \<Rightarrow> bool" where
  "printed pre m \<longleftrightarrow> (\<exists>p'. m = Inr (True, p') \<and> filled pre p')"

lemma wrote_emit:
  assumes "filled pre p" "length x < n" "length pre + n \<le> 2 ^ 30" "j \<le> length x"
  shows "wrote pre x (emit junk n (x @ [NUL]) j p)"
  using emit_ok [OF assms(1) _ assms(3), of "x @ [NUL]" junk j] assms(2,4) by (auto simp: wrote_def)

lemma wrote_close:
  assumes "filled (pre @ x) p" "length y < n" "length pre + length x + n \<le> 2 ^ 30"
  shows "wrote pre (x @ y) (emit junk n (y @ [NUL]) 0 p)"
proof -
  have "wrote (pre @ x) y (emit junk n (y @ [NUL]) 0 p)" using assms by (intro wrote_emit) simp_all
  then obtain p' r j where p: "emit junk n (y @ [NUL]) 0 p = Inr (True, p')" "j \<le> length y"
    "pb_offset p' = length (pre @ x) + j" "pb_buffer p' = Some ((pre @ x) @ y @ NUL # r)"
    unfolding wrote_def by blast
  then show ?thesis unfolding wrote_def by (intro exI [of _ p'] exI [of _ r] exI [of _ "length x + j"]) simp
qed

lemma printed_emit:
  assumes "filled pre p" "length s + length w \<le> n" "length pre + n \<le> 2 ^ 30" "k = length s"
  shows "printed (pre @ s) (emit junk n (s @ w) k p)"
  using emit_filled [OF assms] by (simp add: printed_def)

lemma printed_andthen:
  assumes "printed pre m" "\<And>p. filled pre p \<Longrightarrow> printed pre' (f p)"
  shows "printed pre' (andthen m f)"
  using assms by (auto simp: printed_def andthen_def)

lemma wrote_andthen:
  assumes "printed pre m" "\<And>p. filled pre p \<Longrightarrow> wrote pre' x (f p)"
  shows "wrote pre' x (andthen m f)"
  using assms by (auto simp: printed_def andthen_def)

lemma takeWhile_nul: "NUL \<notin> set x \<Longrightarrow> takeWhile (\<lambda>c. c \<noteq> NUL) (x @ NUL # r) = x"
  by (induction x) auto

lemma printed_skip_result:
  assumes "wrote pre x m" "NUL \<notin> set x"
  shows "printed (pre @ x) (skip_result m)"
proof -
  obtain p' r j where p: "m = Inr (True, p')" "j \<le> length x" "pb_offset p' = length pre + j"
    "pb_buffer p' = Some (pre @ x @ NUL # r)"
    using assms(1) unfolding wrote_def by blast
  have "buf_string (drop j x @ NUL # r) = Inr (drop j x)"
    using assms(2) in_set_dropD [of NUL j x] takeWhile_nul [of "drop j x" r] by (auto simp: buf_string_def)
  then have "update p' = Inr (p'\<lparr>pb_offset := length pre + length x\<rparr>)"
    using p by (simp add: update_def)
  then show ?thesis using p by (simp add: skip_result_def printed_def filled_def)
qed

text \<open>Items whose strings are C strings; their texts have no terminator.\<close>

fun c_json :: "cjson \<Rightarrow> bool" where
  "c_json (CJ n cs) \<longleftrightarrow> c_string (j_valuestring n) \<and> c_string (j_string n) \<and> (\<forall>c \<in> set cs. c_json c)"

lemma digits_no_nul: "NUL \<notin> set (nat_digits n)"
  using nat_digits_digits [of n] by (auto simp: isdigit_char_def)

lemma number_no_nul: "NUL \<notin> set (snd (number_text n))"
proof -
  have "NUL \<notin> set (pad0 w k)" for w k using digits_no_nul by (simp add: pad0_def Let_def)
  then show ?thesis
    using digits_no_nul
    by (simp add: number_text_def dbl_text_def sprintf_dbl_def fmt_f0_def fmt_f_def fmt_e_def sign_text_def dec_def
        Let_def split: dbl.splits prod.splits)
qed

lemma string_no_nul: "c_string so \<Longrightarrow> NUL \<notin> set (print_string_text so)"
proof (cases so)
  case (Some s)
  assume "c_string so"
  have esc: "NUL \<notin> set (escape_text c)" if "c \<noteq> NUL" for c
  proof -
    have "hex_char d \<noteq> NUL" if "d < 16" for d using hex_char_value [OF that] by (auto simp: hex_value_def)
    then have "hex_char (of_char c div 16) \<noteq> NUL" "hex_char (of_char c mod 16) \<noteq> NUL"
      using of_char_bound [of c] by (simp_all add: less_mult_imp_div_less)
    then show ?thesis using that by (auto simp: escape_text_def)
  qed
  have s: "NUL \<notin> set s" using Some \<open>c_string so\<close> by (simp add: c_string_def)
  have "NUL \<notin> set (concat (map escape_text s))"
  proof
    assume "NUL \<in> set (concat (map escape_text s))"
    then obtain c where c: "c \<in> set s" "NUL \<in> set (escape_text c)" unfolding set_concat set_map by blast
    then have "c \<noteq> NUL" using s by metis
    then show False using esc c(2) by blast
  qed
  then show ?thesis unfolding Some print_string_concat by simp
qed (simp add: print_string_text_def)

lemma items_no_nul: "(\<And>s. s \<in> set es \<Longrightarrow> NUL \<notin> set s) \<Longrightarrow> NUL \<notin> set (items_text fmt es)"
  by (induction fmt es rule: items_text.induct) auto

lemma members_no_nul:
  "(\<And>n s. (n, s) \<in> set es \<Longrightarrow> NUL \<notin> set n \<and> NUL \<notin> set s) \<Longrightarrow> NUL \<notin> set (members_text fmt depth es)"
  by (induction fmt depth es rule: members_text.induct) (auto simp: tabs_def)

lemma json_text_no_nul: "c_json t \<Longrightarrow> NUL \<notin> set (json_text depth fmt t)"
proof (induction t arbitrary: depth)
  case (CJ n cs)
  have "c_string (j_string (cj_node c))" if "c \<in> set cs" for c using CJ.prems that by (cases c) auto
  then have "NUL \<notin> set (items_text fmt (map (json_text d fmt) cs))"
    "NUL \<notin> set (members_text fmt d (map (\<lambda>c. (print_string_text (j_string (cj_node c)), json_text d fmt c)) cs))" for d
    using CJ by (auto intro!: items_no_nul members_no_nul simp: string_no_nul)
  then show ?case using CJ.prems number_no_nul string_no_nul by (simp add: Let_def tabs_def)
qed

section \<open>Printing into the buffer\<close>

lemma number_buf_wrote:
  assumes "number_ok n" "filled pre p" "length pre + 64 \<le> 2 ^ 30"
  shows "wrote pre (snd (number_text n)) (number_buf junk n p)"
proof -
  obtain k s where ks: "number_text n = (k, s)" by (metis surj_pair)
  have "length s < k" using print_number_ok [OF assms(1)] by (simp add: print_number_def ks alloc_text_def split: if_splits)
  moreover have "k \<le> 64" using ks by (auto simp: number_text_def Let_def split: if_splits)
  ultimately show ?thesis
    using wrote_emit [OF assms(2), of s k 0 junk] assms(3) by (simp add: number_buf_def ks)
qed

lemma string_buf_wrote:
  assumes "filled pre p" "length pre + length (print_string_text so) + 1 \<le> 2 ^ 30"
  shows "wrote pre (print_string_text so) (string_buf junk so p)"
  unfolding string_buf_def using assms by (intro wrote_emit) (simp_all add: print_string_fits)

definition writes :: "(nat \<Rightarrow> char) \<Rightarrow> bool \<Rightarrow> nat \<Rightarrow> cjson \<Rightarrow> bool" where
  "writes junk fmt depth c \<longleftrightarrow>
     (\<forall>pre p. filled pre p \<and> length pre + length (json_text depth fmt c) + 64 \<le> 2 ^ 30 \<longrightarrow>
        wrote pre (json_text depth fmt c) (value_buf junk depth fmt c p))"

lemma items_buf_printed:
  assumes "\<And>c. c \<in> set cs \<Longrightarrow> writes junk fmt depth c \<and> c_json c" "filled pre p"
    "length pre + length (items_text fmt (map (json_text depth fmt) cs)) + 64 \<le> 2 ^ 30"
  shows "printed (pre @ items_text fmt (map (json_text depth fmt) cs)) (items_buf junk depth fmt cs p)"
  using assms
proof (induction cs arbitrary: pre p)
  case Nil
  then show ?case by (simp add: printed_def)
next
  case (Cons c cs)
  let ?x = "json_text depth fmt c"
  have c: "writes junk fmt depth c" "NUL \<notin> set ?x" using Cons.prems(1) json_text_no_nul by auto
  have "length ?x \<le> length (items_text fmt (map (json_text depth fmt) (c # cs)))" by (cases cs) auto
  then have "wrote pre ?x (value_buf junk depth fmt c p)" using c(1) Cons.prems(2,3) by (simp add: writes_def)
  note 1 = printed_skip_result [OF this c(2)]
  show ?case
  proof (cases cs)
    case Nil
    then show ?thesis using 1 by (auto simp: printed_def andthen_def)
  next
    case (Cons d ds)
    define k sep where "k = (if fmt then 2 else 1 :: nat)" and "sep = '','' @ (if fmt then '' '' else [])"
    let ?rest = "items_text fmt (map (json_text depth fmt) cs)"
    have t: "items_text fmt (map (json_text depth fmt) (c # cs)) = ?x @ sep @ ?rest" by (simp add: Cons sep_def)
    have len: "length pre + length ?x + length sep + length ?rest + 64 \<le> 2 ^ 30" using Cons.prems(3) unfolding t by simp
    have k: "k = length sep" by (simp add: k_def sep_def)
    have more: "printed (pre @ items_text fmt (map (json_text depth fmt) (c # cs)))
        (andthen (emit junk (k + 1) (sep @ [NUL]) k p1) (items_buf junk depth fmt cs))" if p1: "filled (pre @ ?x) p1" for p1
    proof (rule printed_andthen)
      show "printed ((pre @ ?x) @ sep) (emit junk (k + 1) (sep @ [NUL]) k p1)"
        using p1 len k by (intro printed_emit) auto
      show "printed (pre @ items_text fmt (map (json_text depth fmt) (c # cs))) (items_buf junk depth fmt cs p2)"
        if "filled ((pre @ ?x) @ sep) p2" for p2
        using Cons.IH [OF Cons.prems(1) that] len unfolding t by simp
    qed
    have e: "items_buf junk depth fmt (c # cs) p = andthen (skip_result (value_buf junk depth fmt c p))
        (\<lambda>p1. andthen (emit junk (k + 1) (sep @ [NUL]) k p1) (items_buf junk depth fmt cs))"
      by (cases fmt) (simp_all add: Cons k_def sep_def)
    show ?thesis unfolding e by (rule printed_andthen [OF 1 more])
  qed
qed

definition name_text :: "cjson \<Rightarrow> string" where
  "name_text c = print_string_text (j_string (cj_node c))"

lemma members_buf_printed:
  assumes "\<And>c. c \<in> set cs \<Longrightarrow> writes junk fmt depth c \<and> c_json c" "filled pre p"
    "length pre + length (members_text fmt depth (map (\<lambda>c. (name_text c, json_text depth fmt c)) cs)) + 64 \<le> 2 ^ 30"
  shows "printed (pre @ members_text fmt depth (map (\<lambda>c. (name_text c, json_text depth fmt c)) cs))
     (members_buf junk depth fmt cs p)"
  using assms
proof (induction cs arbitrary: pre p)
  case Nil
  then show ?case by (simp add: printed_def)
next
  case (Cons c cs)
  define x nm where "x = json_text depth fmt c" and "nm = name_text c"
  define t0 t1 t2 where "t0 = (if fmt then tabs depth else [])" and "t1 = '':'' @ (if fmt then [TAB] else [])"
    and "t2 = (if cs \<noteq> [] then '','' else []) @ (if fmt then [LF] else [])"
  define rest where "rest = members_text fmt depth (map (\<lambda>c. (name_text c, json_text depth fmt c)) cs)"
  have t: "members_text fmt depth (map (\<lambda>c. (name_text c, json_text depth fmt c)) (c # cs)) =
      t0 @ nm @ t1 @ x @ t2 @ rest"
    by (simp add: x_def nm_def t0_def t1_def t2_def rest_def)
  have len: "length pre + length t0 + length nm + length t1 + length x + length t2 + length rest + 64 \<le> 2 ^ 30"
    using Cons.prems(3) unfolding t by simp
  have c: "writes junk fmt depth c" "c_json c" using Cons.prems(1) by auto
  have "c_string (j_string (cj_node c))" using c(2) by (cases c) simp
  then have nul: "NUL \<notin> set nm" "NUL \<notin> set x"
    using string_no_nul json_text_no_nul [OF c(2)] by (simp_all add: nm_def name_text_def x_def)
  have e: "members_buf junk depth fmt (c # cs) p =
     andthen (if fmt then emit junk depth (tabs depth) depth p else Inr (True, p)) (\<lambda>p1.
     andthen (skip_result (string_buf junk (j_string (cj_node c)) p1)) (\<lambda>p2.
     andthen (emit junk (length t1) t1 (length t1) p2) (\<lambda>p3.
     andthen (skip_result (value_buf junk depth fmt c p3)) (\<lambda>p4.
     andthen (emit junk (length t2 + 1) (t2 @ [NUL]) (length t2) p4) (members_buf junk depth fmt cs)))))"
    by (cases fmt) (simp_all add: t1_def t2_def numeral_2_eq_2)
  show ?case
    unfolding e
  proof (intro printed_andthen)
    show "printed (pre @ t0) (if fmt then emit junk depth (tabs depth) depth p else Inr (True, p))"
      using printed_emit [OF Cons.prems(2), of "tabs depth" "[]" depth depth junk] Cons.prems(2) len
      by (auto simp: t0_def tabs_def printed_def)
    show "printed ((pre @ t0) @ nm) (skip_result (string_buf junk (j_string (cj_node c)) p1))"
      if "filled (pre @ t0) p1" for p1
      using printed_skip_result [OF string_buf_wrote [OF that]] nul(1) len by (simp add: nm_def name_text_def)
    show "printed (((pre @ t0) @ nm) @ t1) (emit junk (length t1) t1 (length t1) p2)"
      if "filled ((pre @ t0) @ nm) p2" for p2
      using printed_emit [OF that, of t1 "[]" "length t1" "length t1" junk] len by simp
    show "printed ((((pre @ t0) @ nm) @ t1) @ x) (skip_result (value_buf junk depth fmt c p3))"
      if "filled (((pre @ t0) @ nm) @ t1) p3" for p3
      using c(1) that len nul(2) unfolding x_def by (intro printed_skip_result) (simp_all add: writes_def)
    show "printed (((((pre @ t0) @ nm) @ t1) @ x) @ t2) (emit junk (length t2 + 1) (t2 @ [NUL]) (length t2) p4)"
      if "filled ((((pre @ t0) @ nm) @ t1) @ x) p4" for p4
      using len by (intro printed_emit [OF that]) auto
    show "printed (pre @ members_text fmt depth (map (\<lambda>c. (name_text c, json_text depth fmt c)) (c # cs)))
        (members_buf junk depth fmt cs p5)"
      if "filled (((((pre @ t0) @ nm) @ t1) @ x) @ t2) p5" for p5
      using Cons.IH [OF Cons.prems(1) that] len unfolding t rest_def by simp
  qed
qed

lemma writes_json: "printable t \<Longrightarrow> c_json t \<Longrightarrow> writes junk fmt depth t"
proof (induction t arbitrary: depth)
  case (CJ n cs)
  have ih: "writes junk fmt d c \<and> c_json c" if "c \<in> set cs" for c d
    using CJ that by simp
  have no: "number_ok n" using CJ.prems by simp
  show ?case
    unfolding writes_def
  proof (intro allI impI, elim conjE)
    fix pre p
    let ?x = "json_text depth fmt (CJ n cs)"
    assume p: "filled pre p" and len: "length pre + length ?x + 64 \<le> 2 ^ 30"
    have leaf: "wrote pre x (emit junk k (x @ [NUL]) 0 p)" if "length x \<le> length ?x" "k = length x + 1" for x k
      using that len by (intro wrote_emit [OF p]) auto
    consider (null) "j_type n AND 255 = cJSON_NULL" | (false) "j_type n AND 255 = cJSON_False"
      | (true) "j_type n AND 255 = cJSON_True" | (number) "j_type n AND 255 = cJSON_Number"
      | (string) "j_type n AND 255 = cJSON_String" | (array) "j_type n AND 255 = cJSON_Array"
      | (object) "j_type n AND 255 = cJSON_Object"
      using CJ.prems by (auto simp: json_types_def)
    then show "wrote pre ?x (value_buf junk depth fmt (CJ n cs) p)"
    proof cases
      case null
      then show ?thesis using leaf [of "''null''" 5] by simp
    next
      case false
      then show ?thesis using leaf [of "''false''" 6] by simp
    next
      case true
      then show ?thesis using leaf [of "''true''" 5] by simp
    next
      case number
      then show ?thesis using number_buf_wrote [OF no p, of junk] len by simp
    next
      case string
      then show ?thesis using string_buf_wrote [OF p, of "j_valuestring n" junk] len by simp
    next
      case array
      let ?its = "items_text fmt (map (json_text (depth + 1) fmt) cs)"
      have x: "?x = (''['' @ ?its) @ '']''" using array by simp
      show ?thesis
      proof (cases "cs = []")
        case False
        have "wrote pre ?x (andthen (emit junk 1 ''['' 1 p) (\<lambda>p1. andthen (items_buf junk (depth + 1) fmt cs p1)
            (\<lambda>p2. emit junk 2 ('']'' @ [NUL]) 0 p2)))"
        proof (intro wrote_andthen)
          show "printed (pre @ ''['') (emit junk 1 ''['' 1 p)"
            using printed_emit [OF p, of "''[''" "[]" 1 1 junk] len by simp
          show "printed ((pre @ ''['') @ ?its) (items_buf junk (depth + 1) fmt cs p1)" if "filled (pre @ ''['') p1" for p1
            using items_buf_printed [OF ih that] len unfolding x by simp
          show "wrote pre ?x (emit junk 2 ('']'' @ [NUL]) 0 p2)" if "filled ((pre @ ''['') @ ?its) p2" for p2
            using len that unfolding x by (intro wrote_close) simp_all
        qed
        then show ?thesis using False array by simp
      qed (use array leaf [of "''[]''" 3] in simp)
    next
      case object
      show ?thesis
      proof (cases "cs = []")
        case True
        define m where "m = ''{'' @ (if fmt then LF # tabs depth else []) @ ''}''"
        have "wrote pre m (emit junk (length m + 1) (m @ [NUL]) 0 p)"
          using object True by (intro leaf) (simp_all add: m_def)
        then show ?thesis using object True by (cases fmt) (simp_all add: m_def tabs_def eval_nat_numeral)
      next
        case False
        define h e where "h = ''{'' @ (if fmt then [LF] else [])" and "e = (if fmt then tabs depth else []) @ ''}''"
        let ?ms = "members_text fmt (depth + 1) (map (\<lambda>c. (name_text c, json_text (depth + 1) fmt c)) cs)"
        have x: "?x = (h @ ?ms) @ e" using object False by (simp add: h_def e_def name_text_def)
        have v: "value_buf junk depth fmt (CJ n cs) p =
            andthen (emit junk (length h + 1) (h @ [NUL]) (length h) p) (\<lambda>p1.
              andthen (members_buf junk (depth + 1) fmt cs p1) (\<lambda>p2. emit junk (length e + 1) (e @ [NUL]) 0 p2))"
          using object False by (cases fmt) (simp_all add: h_def e_def tabs_def numeral_2_eq_2)
        show ?thesis
          unfolding v
        proof (intro wrote_andthen)
          show "printed (pre @ h) (emit junk (length h + 1) (h @ [NUL]) (length h) p)"
            using len unfolding x by (intro printed_emit [OF p]) auto
          show "printed ((pre @ h) @ ?ms) (members_buf junk (depth + 1) fmt cs p1)" if "filled (pre @ h) p1" for p1
            using members_buf_printed [OF ih that] len unfolding x by simp
          show "wrote pre ?x (emit junk (length e + 1) (e @ [NUL]) 0 p2)" if "filled ((pre @ h) @ ?ms) p2" for p2
            using len that unfolding x by (intro wrote_close) simp_all
        qed
      qed
    qed
  qed
qed

lemma json_wf_c_json: "json_wf t \<Longrightarrow> c_json t"
  by (induction t) (auto simp: node_wf_def)

text \<open>
  C7: The buffered printer and the one that allocates each text agree: for every printable item whose text
  is shorter than 2^30 - 64 bytes, cJSON_PrintBuffered gives the text of print_value, whatever the size
  of the first buffer is (the buffer is enlarged before every write that needs it) and whatever bytes
  fresh memory holds.
\<close>

theorem buffered_print_agrees:
  assumes "printable t" "c_json t" "0 \<le> prebuffer" "length (json_text 0 fmt t) + 64 \<le> 2 ^ 30"
  shows "cJSON_PrintBuffered junk t prebuffer fmt = print_value 0 fmt t"
proof -
  let ?x = "json_text 0 fmt t" and ?p = "\<lparr>pb_buffer = Some (map junk [0..<nat prebuffer]), pb_offset = 0\<rparr>"
  have "filled [] ?p" by (simp add: filled_def)
  then have "wrote [] ?x (value_buf junk 0 fmt t ?p)"
    using writes_json [OF assms(1,2)] assms(4) by (simp add: writes_def)
  then obtain p' r where p: "value_buf junk 0 fmt t ?p = Inr (True, p')" "pb_buffer p' = Some (?x @ NUL # r)"
    by (auto simp: wrote_def)
  moreover have "buf_string (?x @ NUL # r) = Inr ?x"
    using takeWhile_nul [of ?x r] json_text_no_nul [OF assms(2), of 0 fmt] by (simp add: buf_string_def)
  ultimately show ?thesis
    using assms(3) print_value_text [OF assms(1)] by (simp add: cJSON_PrintBuffered_def)
qed

theorem buffered_print_agrees_witness:
  "cJSON_PrintBuffered (\<lambda>i. CHR ''x'')
     (CJ (new_item\<lparr>j_type := cJSON_Array\<rparr>) [CJ (new_item\<lparr>j_type := cJSON_NULL\<rparr>) []]) 1 True =
   print_value 0 True (CJ (new_item\<lparr>j_type := cJSON_Array\<rparr>) [CJ (new_item\<lparr>j_type := cJSON_NULL\<rparr>) []])"
  by (rule buffered_print_agrees)
    (simp_all add: new_item_def json_types_def number_ok_def c_string_def)

end
