(* ===== verification/Json_Minify.thy ===== *)
theory Json_Minify
  imports Json_Buffer_Props
begin

text \<open>
  \<^verbatim>\<open>cJSON_Minify\<close>, which writes the text without white space and comments over itself. The write
  pointer is never ahead of the read pointer, so the result is a list of its own; a read beyond the
  terminator is a fault.
\<close>

section \<open>The loop\<close>

text \<open>The text behind a comment; none when the end of the text is reached first.\<close>

fun comment_end :: "string \<Rightarrow> string option" where
  "comment_end [] = None"
| "comment_end (c # cs) = (if c = CHR ''*'' \<and> take 1 cs = ''/'' then Some (tl cs) else comment_end cs)"

text \<open>
  A string literal behind its opening quote: the characters copied, the closing quote among them, and the
  text behind them. A literal that does not end copies the terminator and goes on.
\<close>

fun copy_literal :: "string \<Rightarrow> (string \<times> string) cres" where
  "copy_literal [] = Inl Out_Of_Bounds"
| "copy_literal (c # cs) =
     (if c = QUOTE then Inr ([c], cs)
      else if c = BSL then
        (case cs of
           [] \<Rightarrow> Inl Out_Of_Bounds
         | d # ds \<Rightarrow> cbind (copy_literal ds) (\<lambda>(l, r). Inr (c # d # l, r)))
      else cbind (copy_literal cs) (\<lambda>(l, r). Inr (c # l, r)))"

lemma comment_end_length: "comment_end s = Some r \<Longrightarrow> length r < length s"
  by (induction s) (auto split: if_splits)

lemma copy_literal_length: "copy_literal s = Inr (l, r) \<Longrightarrow> length r < length s"
  by (induction s arbitrary: l rule: copy_literal.induct)
    (fastforce simp: cbind_Inr_iff split: if_splits list.splits)+

lemma dropWhile_shorter: "length (dropWhile P (c # cs)) < Suc (length cs) \<or> \<not> P c"
  by (simp add: length_dropWhile_le le_imp_less_Suc)

function cJSON_Minify :: "string \<Rightarrow> string cres" where
  "cJSON_Minify [] = Inr []"
| "cJSON_Minify (c # cs) =
     (if c \<in> {CHR '' '', TAB, CHR 0x0D, LF} then cJSON_Minify cs
      else if c = CHR ''/'' \<and> take 1 cs = ''/'' then cJSON_Minify (dropWhile (\<lambda>d. d \<noteq> LF) cs)
      else if c = CHR ''/'' \<and> take 1 cs = ''*'' then
        (case comment_end (c # cs) of None \<Rightarrow> Inl Out_Of_Bounds | Some r \<Rightarrow> cJSON_Minify r)
      else if c = QUOTE then
        (case copy_literal cs of
           Inl e \<Rightarrow> Inl e
         | Inr (l, r) \<Rightarrow> cbind (cJSON_Minify r) (\<lambda>out. Inr (c # l @ out)))
      else cbind (cJSON_Minify cs) (\<lambda>out. Inr (c # out)))"
  by pat_completeness auto
termination
  by (relation "measure length")
    (auto dest!: comment_end_length copy_literal_length simp: length_dropWhile_le le_imp_less_Suc)

section \<open>Minifying what was printed\<close>

definition minifies :: "string \<Rightarrow> string \<Rightarrow> bool" where
  "minifies x y \<longleftrightarrow> (\<forall>r. cJSON_Minify (x @ r) = cbind (cJSON_Minify r) (\<lambda>out. Inr (y @ out)))"

lemma minifies_Nil: "minifies [] []"
  by (simp add: minifies_def) (metis cbind.simps sum.exhaust)

lemma minifies_append: "minifies x1 y1 \<Longrightarrow> minifies x2 y2 \<Longrightarrow> minifies (x1 @ x2) (y1 @ y2)"
  unfolding minifies_def by (metis (no_types, lifting) append_assoc cbind.simps sum.exhaust)

lemma minifies_white: "list_all (\<lambda>c. c = CHR '' '' \<or> c = TAB \<or> c = LF) w \<Longrightarrow> minifies w []"
  unfolding minifies_def
  by (induction w) (auto, (metis cbind.simps sum.exhaust)+)

definition plain_char :: "char \<Rightarrow> bool" where
  "plain_char c \<longleftrightarrow> c \<notin> {CHR '' '', TAB, CHR 0x0D, LF, CHR ''/'', QUOTE}"

lemma minifies_plain: "list_all plain_char w \<Longrightarrow> minifies w w"
proof (induction w)
  case (Cons c w)
  have "minifies [c] [c]" using Cons.prems by (simp add: minifies_def plain_char_def)
  from minifies_append [OF this Cons.IH] Cons.prems show ?case by simp
qed (rule minifies_Nil)

lemma copy_escape_text:
  "copy_literal (escape_text c @ s) = cbind (copy_literal s) (\<lambda>(l, r). Inr (escape_text c @ l, r))"
proof -
  have "hex_char d \<noteq> QUOTE" "hex_char d \<noteq> BSL" if "d < 16" for d
    using hex_char_value [OF that] hex_value_plain by blast+
  moreover have "of_char c div 16 < (16 :: nat)" "of_char c mod 16 < (16 :: nat)"
    using of_char_bound [of c] by (simp_all add: less_mult_imp_div_less)
  ultimately show ?thesis
    by (cases "copy_literal s") (auto simp: escape_text_def special_char_def)
qed

lemma minifies_string: "minifies (print_string_text so) (print_string_text so)"
proof -
  have "copy_literal (concat (map escape_text s) @ QUOTE # r) = Inr (concat (map escape_text s) @ [QUOTE], r)" for s r
    by (induction s) (simp_all add: copy_escape_text)
  then have "minifies (print_string_text (Some s)) (print_string_text (Some s))" for s
    unfolding minifies_def print_string_concat by simp
  moreover have "print_string_text None = print_string_text (Some [])" by (simp add: print_string_text_def)
  ultimately show ?thesis by (cases so) simp_all
qed

lemma digits_plain: "list_all plain_char (nat_digits n)"
  using nat_digits_digits [of n] by (auto simp: list_all_iff isdigit_char_def plain_char_def)

lemma number_plain: "list_all plain_char (snd (number_text n))"
proof -
  have "list_all plain_char (pad0 w k)" for w k
  proof -
    have "list_all plain_char (replicate m (CHR ''0''))" for m by (induction m) (simp_all add: plain_char_def)
    then show ?thesis using digits_plain [of k] by (simp only: pad0_def Let_def list_all_append simp_thms)
  qed
  then show ?thesis
    using digits_plain
    by (simp add: number_text_def dbl_text_def sprintf_dbl_def fmt_f0_def fmt_f_def fmt_e_def sign_text_def dec_def
        plain_char_def Let_def split: dbl.splits prod.splits)
qed

lemma minifies_items:
  assumes "\<And>c. c \<in> set cs \<Longrightarrow> minifies (f c) (g c)"
  shows "minifies (items_text True (map f cs)) (items_text False (map g cs))"
  using assms
proof (induction cs)
  case (Cons c cs)
  show ?case
  proof (cases cs)
    case Nil
    then show ?thesis using Cons.prems by simp
  next
    case (Cons d ds)
    have "minifies '', '' '',''" using minifies_append [OF minifies_plain [of "'',''"] minifies_white [of "'' ''"]]
      by (simp add: plain_char_def)
    moreover have "minifies (items_text True (map f cs)) (items_text False (map g cs))" "minifies (f c) (g c)"
      using Cons.IH Cons.prems by auto
    ultimately have "minifies (f c @ '', '' @ items_text True (map f cs)) (g c @ '','' @ items_text False (map g cs))"
      by (intro minifies_append)
    then show ?thesis using Cons by simp
  qed
qed (simp add: minifies_Nil)

lemma minifies_members:
  assumes "\<And>c. c \<in> set cs \<Longrightarrow> minifies (f c) (g c)"
  shows "minifies (members_text True d (map (\<lambda>c. (name_text c, f c)) cs))
    (members_text False e (map (\<lambda>c. (name_text c, g c)) cs))"
  using assms
proof (induction cs)
  case (Cons c cs)
  let ?sep = "if cs \<noteq> [] then '','' else []"
  have "minifies (tabs d @ name_text c @ '':'' @ [TAB] @ f c @ ?sep @ [LF] @
      members_text True d (map (\<lambda>c. (name_text c, f c)) cs))
    ([] @ name_text c @ '':'' @ [] @ g c @ ?sep @ [] @ members_text False e (map (\<lambda>c. (name_text c, g c)) cs))"
    using Cons unfolding name_text_def
    by (intro minifies_append minifies_white minifies_string minifies_plain)
      (auto simp: tabs_def list_all_iff plain_char_def)
  then show ?case by simp
qed (simp add: minifies_Nil)

lemma minifies_json: "printable t \<Longrightarrow> minifies (json_text d True t) (json_text e False t)"
proof (induction t arbitrary: d e)
  case (CJ n cs)
  have ih: "minifies (json_text d' True c) (json_text e' False c)" if "c \<in> set cs" for c d' e'
    using CJ that by simp
  have plain: "minifies w w" if "list_all plain_char w" for w using that by (rule minifies_plain)
  have "minifies (''['' @ items_text True (map (json_text (d + 1) True) cs) @ '']'')
      (''['' @ items_text False (map (json_text (e + 1) False) cs) @ '']'')"
    by (intro minifies_append minifies_items ih plain) (simp_all add: plain_char_def)
  moreover have "minifies (''{'' @ (LF # tabs d) @ ''}'') (''{'' @ [] @ ''}'')"
    by (intro minifies_append minifies_white plain) (auto simp: plain_char_def tabs_def list_all_iff)
  moreover have "minifies (''{'' @ [LF] @ members_text True (d + 1) (map (\<lambda>c. (name_text c, json_text (d + 1) True c)) cs) @ tabs d @ ''}'')
      (''{'' @ [] @ members_text False (e + 1) (map (\<lambda>c. (name_text c, json_text (e + 1) False c)) cs) @ [] @ ''}'')"
    by (intro minifies_append minifies_members ih minifies_white plain) (auto simp: plain_char_def tabs_def list_all_iff)
  ultimately show ?case
    using CJ.prems plain [OF number_plain [of n]] minifies_string [of "j_valuestring n"]
      plain [of "''null''"] plain [of "''false''"] plain [of "''true''"]
    by (auto simp: json_types_def Let_def name_text_def plain_char_def)
qed

text \<open>
  C37: Minifying the formatted text of an item gives the text that is printed without formatting, for every
  printable item: white space goes, and nothing that is in a string literal is touched.
\<close>

theorem minify_formatted:
  assumes "printable t"
  shows "\<exists>txt. cJSON_Print t = Inr (Some txt) \<and> map_sum id Some (cJSON_Minify txt) = cJSON_PrintUnformatted t"
proof -
  have "cJSON_Minify (json_text 0 True t @ []) = Inr (json_text 0 False t @ [])"
    using minifies_json [OF assms, of 0 0] unfolding minifies_def by (metis cJSON_Minify.simps(1) cbind.simps(2))
  then show ?thesis
    by (simp add: cJSON_Print_def cJSON_PrintUnformatted_def print_value_text [OF assms])
qed

theorem minify_formatted_witness:
  "\<exists>txt. cJSON_Print (CJ (new_item\<lparr>j_type := cJSON_Array\<rparr>) [CJ (new_item\<lparr>j_type := cJSON_NULL\<rparr>) [], CJ (new_item\<lparr>j_type := cJSON_True\<rparr>) []])
       = Inr (Some txt) \<and>
     map_sum id Some (cJSON_Minify txt) =
       cJSON_PrintUnformatted (CJ (new_item\<lparr>j_type := cJSON_Array\<rparr>) [CJ (new_item\<lparr>j_type := cJSON_NULL\<rparr>) [], CJ (new_item\<lparr>j_type := cJSON_True\<rparr>) []])"
  by (rule minify_formatted) (simp add: new_item_def json_types_def number_ok_def)

lemma minify_open_comment: "cJSON_Minify ''1/* '' = Inl Out_Of_Bounds"
  by simp

lemma minify_open_literal: "cJSON_Minify [QUOTE, CHR ''a''] = Inl Out_Of_Bounds"
  by simp

end
