(* ===== verification/Json_Roundtrip.thy ===== *)
theory Json_Roundtrip
  imports Json_Wf
begin

text \<open>
  Parsing what was printed: an item whose numbers are integers of 32 bits is read back from either of
  its texts, up to the fields that the text does not carry.
\<close>

section \<open>The item that a text stands for\<close>

definition text_of :: "string option \<Rightarrow> string" where
  "text_of so = (case so of None \<Rightarrow> [] | Some s \<Rightarrow> s)"

fun canon :: "string option \<Rightarrow> cjson \<Rightarrow> cjson" where
  "canon nm (CJ n cs) =
     (let t = j_type n AND 255; b = new_item\<lparr>j_type := t, j_string := nm\<rparr>
      in if t = cJSON_True then CJ (b\<lparr>j_valueint := 1\<rparr>) []
         else if t = cJSON_Number then CJ (b\<lparr>j_valuedouble := j_valuedouble n, j_valueint := j_valueint n\<rparr>) []
         else if t = cJSON_String then CJ (b\<lparr>j_valuestring := Some (text_of (j_valuestring n))\<rparr>) []
         else if t = cJSON_Array then CJ b (map (canon None) cs)
         else if t = cJSON_Object then CJ b (map (\<lambda>c. canon (Some (text_of (j_string (cj_node c)))) c) cs)
         else CJ b [])"

text \<open>The items that are read back: both fields of a number hold the same integer, those of others anything.\<close>

fun int_json :: "cjson \<Rightarrow> bool" where
  "int_json (CJ n cs) \<longleftrightarrow>
     j_type n AND 255 \<in> json_types \<and> number_ok n \<and>
     (j_type n AND 255 = cJSON_Number \<longrightarrow> j_valuedouble n = D_Fin (of_int (j_valueint n))) \<and>
     c_string (j_valuestring n) \<and> c_string (j_string n) \<and> (\<forall>c \<in> set cs. int_json c)"

section \<open>Numbers\<close>

lemma digit_dbl_char: "d < 10 \<Longrightarrow> digit_dbl (digit_char d) = D_Fin (of_nat d)"
  by (simp add: digit_dbl_def of_char_digit d_of_int_small)

lemma dbl_step:
  assumes "10 * n + d < 2 ^ 53" "d < 10"
  shows "d_add (d_mul (D_Fin (of_nat n)) (d_of_int 10)) (D_Fin (of_nat d)) = D_Fin (of_nat (10 * n + d))"
proof -
  have "round_dbl (of_nat n * 10) = D_Fin (of_nat n * 10)"
    using round_dbl_int [of "int n * 10"] assms by simp
  moreover have "round_dbl (of_nat n * 10 + of_nat d) = D_Fin (of_nat n * 10 + of_nat d)"
    using round_dbl_int [of "int n * 10 + int d"] assms by simp
  ultimately show ?thesis by (simp add: d_of_int_small mult.commute)
qed

lemma int_digits_nat:
  "n < 2 ^ 53 \<Longrightarrow> int_digits (D_Fin 0) (nat_digits n @ r) = int_digits (D_Fin (of_nat n)) r"
proof (induction n arbitrary: r rule: nat_digits.induct)
  case (1 n)
  show ?case
  proof (cases "n < 10")
    case True
    then show ?thesis using dbl_step [of 0 n] "1.prems"
      by (subst nat_digits.simps) (simp add: isdigit_digit digit_dbl_char)
  next
    case False
    have "n div 10 < 2 ^ 53" "10 * (n div 10) + n mod 10 = n" using "1.prems" by auto
    then show ?thesis
      using False "1.IH" "1.prems" dbl_step [of "n div 10" "n mod 10"]
      by (subst nat_digits.simps) (simp add: isdigit_digit digit_dbl_char)
  qed
qed

lemma nat_digits_hd: "0 < n \<Longrightarrow> hd (nat_digits n) \<noteq> CHR ''0''"
proof (induction n rule: nat_digits.induct)
  case (1 n)
  have "of_char (digit_char n) = 48 + n" if "n < 10" using that by (rule of_char_digit)
  then have "digit_char n \<noteq> CHR ''0''" if "n < 10" using that "1.prems" by fastforce
  then show ?case using 1 nat_digits_ne [of "n div 10"] by (subst nat_digits.simps) auto
qed

definition delimited :: "string \<Rightarrow> bool" where
  "delimited r \<longleftrightarrow> (r = [] \<or> \<not> isdigit_char (hd r) \<and> hd r \<notin> {CHR ''.'', CHR ''e'', CHR ''E''})"

lemma delimited_cons: "c \<in> set '',]}'' \<or> c = LF \<Longrightarrow> delimited (c # r)"
  by (auto simp: delimited_def isdigit_char_def)

lemma num_int_nat:
  assumes "n < 2 ^ 53" "delimited r"
  shows "num_int (num_zero (nat_digits n @ r)) = (D_Fin (of_nat n), r)"
proof (cases "n = 0")
  case True
  moreover have "digit_char 0 = CHR ''0''" unfolding digit_char_def by code_simp
  then have "nat_digits 0 = ''0''" by (subst nat_digits.simps) simp
  ultimately show ?thesis using assms(2)
    by (auto simp: num_zero_def num_int_def delimited_def d_of_int_small)
next
  case False
  obtain c cs where c: "nat_digits n = c # cs" "isdigit_char c" "c \<noteq> CHR ''0''"
    using nat_digits_ne [of n] nat_digits_digits [of n] nat_digits_hd [of n] False by (cases "nat_digits n") auto
  have "int_digits (D_Fin (of_nat n)) r = (D_Fin (of_nat n), r)"
    using assms(2) by (cases r) (auto simp: delimited_def)
  then show ?thesis using int_digits_nat [OF assms(1), of r] c
    by (simp add: num_zero_def num_int_def d_of_int_small)
qed

lemma parse_number_dec:
  assumes "- (2 ^ 31) \<le> i" "i < 2 ^ 31" "delimited r"
  shows "parse_number (dec i @ r) = (D_Fin (of_int i), r)"
proof -
  have sign: "num_sign (dec i @ r) = (D_Fin (if i < 0 then - 1 else 1), nat_digits (nat \<bar>i\<bar>) @ r)"
  proof (cases "i < 0")
    case False
    obtain c cs where "nat_digits (nat i) = c # cs" "isdigit_char c"
      using nat_digits_ne [of "nat i"] nat_digits_digits [of "nat i"] by (cases "nat_digits (nat i)") auto
    then show ?thesis using False isdigit_not(2) [of c] by (simp add: num_sign_def dec_def d_of_int_small)
  qed (simp add: num_sign_def dec_def d_of_int_small)
  have "nat \<bar>i\<bar> < 2 ^ 53" using assms(1,2) by auto
  note int = num_int_nat [OF this assms(3)]
  have rest: "num_frac n r = (n, D_Fin 0, r)" "num_exp r = (0, r)" for n
    using assms(3) by (cases r; auto simp: delimited_def num_frac_def num_exp_def d_of_int_small)+
  have "round_dbl (of_int i) = D_Fin (of_int i)" using assms(1,2) by (intro round_dbl_int) auto
  moreover have "round_dbl 1 = D_Fin 1" "round_dbl 0 = D_Fin 0" using round_dbl_int [of 1] round_dbl_int [of 0] by simp_all
  ultimately show ?thesis
    unfolding parse_number_def sign Let_def prod.case int rest
    by (cases "i < 0") (simp_all add: d_of_int_small)
qed

section \<open>Values\<close>

lemma skip_white: "list_all (\<lambda>c. c = CHR '' '' \<or> c = TAB \<or> c = LF) w \<Longrightarrow> skip (w @ s) = skip s"
  by (induction w) (auto simp: skip_def)

lemma skip_tabs: "skip (tabs n @ s) = skip s" "skip (LF # tabs n @ s) = skip s" "skip (TAB # s) = skip s"
  "skip (LF # s) = skip s" "skip (CHR '' '' # s) = skip s"
  using skip_white [of "tabs n"] skip_white [of "LF # tabs n"]
  by (auto simp: tabs_def skip_def list_all_iff)

lemma skip_char: "32 < (of_char c :: nat) \<Longrightarrow> skip (c # s) = c # s"
  by (simp add: skip_def)

lemma number_text_int:
  assumes "j_valuedouble n = D_Fin (of_int (j_valueint n))" "- (2 ^ 31) \<le> j_valueint n" "j_valueint n < 2 ^ 31"
  shows "snd (number_text n) = dec (j_valueint n)"
proof -
  have "digit_char 0 = CHR ''0''" unfolding digit_char_def by code_simp
  then have "dec 0 = ''0''" unfolding dec_def by (subst nat_digits.simps) simp
  moreover have "is_int_dbl (j_valueint n) (j_valuedouble n)"
    using assms by (simp add: is_int_dbl_def d_of_int_small DBL_EPSILON_def round_dbl_def [of 0])
  ultimately show ?thesis using assms(1) by (simp add: number_text_def Let_def)
qed

lemma dec_first: "\<exists>c cs. dec i = c # cs \<and> (c = CHR ''-'' \<or> isdigit_char c)"
proof (cases "i < 0")
  case False
  then show ?thesis
    using nat_digits_ne [of "nat i"] nat_digits_digits [of "nat i"] by (cases "nat_digits (nat i)") (auto simp: dec_def)
qed (simp add: dec_def)

lemma print_string_first: "\<exists>cs. print_string_text so = QUOTE # cs"
  by (simp add: print_string_text_def split: option.split)

lemma number_ok_range: "number_ok n \<Longrightarrow> - (2 ^ 31) \<le> j_valueint n \<and> j_valueint n < 2 ^ 31"
  by (simp add: number_ok_def)

lemma json_text_first:
  assumes "int_json t"
  shows "\<exists>c cs. json_text depth fmt t = c # cs \<and> 32 < (of_char c :: nat) \<and> c \<noteq> CHR '']''"
proof (cases t)
  case (CJ n cs)
  have "32 < (of_char c :: nat) \<and> c \<noteq> CHR '']''" if "isdigit_char c" for c using that by (auto simp: isdigit_char_def)
  then show ?thesis
    using assms CJ dec_first [of "j_valueint n"] print_string_first [of "j_valuestring n"] number_text_int [of n]
      number_ok_range [of n]
    by (auto simp: json_types_def Let_def)
qed

lemma skip_json_text: "int_json t \<Longrightarrow> skip (json_text depth fmt t @ r) = json_text depth fmt t @ r"
  using json_text_first [of t depth fmt] by (auto simp: skip_char)

lemma parse_print_option: "c_string so \<Longrightarrow> parse_string (print_string_text so @ r) = P_Ok (text_of so) r"
proof (cases so)
  case None
  have "parse_string (print_string_text (Some []) @ r) = P_Ok [] r" by (rule parse_print_string) simp
  then show ?thesis using None by (simp add: text_of_def print_string_text_def)
next
  case (Some s)
  assume "c_string so"
  then show ?thesis using Some parse_print_string [of s r] by (simp add: text_of_def c_string_def)
qed

definition reads_back :: "bool \<Rightarrow> nat \<Rightarrow> cjson \<Rightarrow> bool" where
  "reads_back fmt depth c \<longleftrightarrow>
     (\<forall>r f k nm. delimited r \<and> 2 * length (json_text depth fmt c @ r) + 1 \<le> f \<longrightarrow>
        parse_value f (new_item\<lparr>j_type := k, j_string := nm\<rparr>) (json_text depth fmt c @ r) = P_Ok (canon nm c) r)"

lemma reads_backD:
  "reads_back fmt depth c \<Longrightarrow> delimited r \<Longrightarrow> 2 * length (json_text depth fmt c @ r) + 1 \<le> f \<Longrightarrow>
   parse_value f (new_item\<lparr>j_type := k, j_string := nm\<rparr>) (json_text depth fmt c @ r) = P_Ok (canon nm c) r"
  by (simp add: reads_back_def)

lemma reads_back_new:
  "reads_back fmt depth c \<Longrightarrow> delimited r \<Longrightarrow> 2 * length (json_text depth fmt c @ r) + 1 \<le> f \<Longrightarrow>
   parse_value f new_item (json_text depth fmt c @ r) = P_Ok (canon None c) r"
  using reads_backD [of fmt depth c r f, where k = 0 and nm = None] by (simp add: new_item_def)

lemma entries_skip:
  "skip u = skip v \<Longrightarrow> parse_items f u = parse_items f v" "skip u = skip v \<Longrightarrow> parse_members f u = parse_members f v"
  by (cases f; simp)+

lemma parse_items_text:
  assumes "\<And>c. c \<in> set cs \<Longrightarrow> reads_back fmt depth c \<and> int_json c" "cs \<noteq> []"
    "2 * length (items_text fmt (map (json_text depth fmt) cs) @ '']'' @ r) + 2 \<le> f"
  shows "parse_items f (items_text fmt (map (json_text depth fmt) cs) @ '']'' @ r) = P_Ok (map (canon None) cs) ('']'' @ r)"
  using assms
proof (induction cs arbitrary: f)
  case (Cons c cs)
  then obtain g where f: "f = Suc g" by (cases f) auto
  have c: "reads_back fmt depth c" "int_json c" using Cons.prems(1) by auto
  show ?case
  proof (cases cs)
    case Nil
    have "parse_value g new_item (json_text depth fmt c @ '']'' @ r) = P_Ok (canon None c) ('']'' @ r)"
      using Cons.prems(3) f Nil by (intro reads_back_new [OF c(1)]) (auto intro: delimited_cons)
    then show ?thesis using f Nil skip_json_text [OF c(2), of depth fmt "'']'' @ r"]
      by (simp add: skip_char Let_def)
  next
    case (Cons d ds)
    have ne: "cs \<noteq> []" using Cons by simp
    define rest where "rest = items_text fmt (map (json_text depth fmt) cs) @ '']'' @ r"
    have t: "items_text fmt (map (json_text depth fmt) (c # cs)) @ '']'' @ r =
        json_text depth fmt c @ '','' @ (if fmt then '' '' else []) @ rest"
      by (simp add: Cons rest_def)
    have "parse_value g new_item (json_text depth fmt c @ '','' @ (if fmt then '' '' else []) @ rest) =
        P_Ok (canon None c) ('','' @ (if fmt then '' '' else []) @ rest)"
      using Cons.prems(3) f unfolding t by (intro reads_back_new [OF c(1)]) (auto intro: delimited_cons)
    moreover have "parse_items g ((if fmt then '' '' else []) @ rest) = P_Ok (map (canon None) cs) ('']'' @ r)"
    proof -
      have "2 * length rest + 2 \<le> g" using Cons.prems(3) f unfolding t by simp
      note l = this [unfolded rest_def]
      have "parse_items g rest = P_Ok (map (canon None) cs) ('']'' @ r)"
        unfolding rest_def by (rule Cons.IH [OF Cons.prems(1) ne l]) (simp_all only: list.set_intros)
      moreover have "parse_items g ((if fmt then '' '' else []) @ rest) = parse_items g rest"
        by (rule entries_skip(1)) (simp add: skip_tabs)
      ultimately show ?thesis by simp
    qed
    ultimately show ?thesis using f skip_json_text [OF c(2), of depth fmt "'','' @ (if fmt then '' '' else []) @ rest"]
      unfolding t by (simp add: skip_char Let_def)
  qed
qed simp

lemma parse_members_text:
  assumes "\<And>c. c \<in> set cs \<Longrightarrow> reads_back fmt depth c \<and> int_json c" "cs \<noteq> []"
  defines "name \<equiv> \<lambda>c. print_string_text (j_string (cj_node c))"
  assumes "2 * length (members_text fmt depth (map (\<lambda>c. (name c, json_text depth fmt c)) cs) @ w @ ''}'' @ r) + 2 \<le> f"
    "skip (w @ ''}'' @ r) = ''}'' @ r" "delimited (w @ ''}'' @ r)"
  shows "parse_members f (members_text fmt depth (map (\<lambda>c. (name c, json_text depth fmt c)) cs) @ w @ ''}'' @ r) =
     P_Ok (map (\<lambda>c. canon (Some (text_of (j_string (cj_node c)))) c) cs) (''}'' @ r)"
  using assms(1,2,4)
proof (induction cs arbitrary: f)
  case (Cons c cs)
  then obtain g where f: "f = Suc g" by (cases f) auto
  have c: "reads_back fmt depth c" "int_json c" using Cons.prems(1) by auto
  define rest where "rest = members_text fmt depth (map (\<lambda>c. (name c, json_text depth fmt c)) cs) @ w @ ''}'' @ r"
  define sep where "sep = (if cs \<noteq> [] then '','' else []) @ (if fmt then [LF] else []) @ rest"
  have t: "members_text fmt depth (map (\<lambda>c. (name c, json_text depth fmt c)) (c # cs)) @ w @ ''}'' @ r =
      (if fmt then tabs depth else []) @ name c @ '':'' @ (if fmt then [TAB] else []) @ json_text depth fmt c @ sep"
    by (simp add: rest_def sep_def)
  have "c_string (j_string (cj_node c))" using c(2) by (cases c) simp
  then have n: "parse_string (name c @ u) = P_Ok (text_of (j_string (cj_node c))) u" for u
    unfolding name_def by (rule parse_print_option)
  have s: "skip (name c @ u) = name c @ u" for u
    using print_string_first [of "j_string (cj_node c)"] by (auto simp: name_def skip_char)
  have "delimited sep"
    using assms(6) by (cases "cs = []") (auto simp: sep_def rest_def intro: delimited_cons)
  then have v: "parse_value g (new_item\<lparr>j_type := cJSON_String, j_string := Some (text_of (j_string (cj_node c)))\<rparr>)
      (json_text depth fmt c @ sep) = P_Ok (canon (Some (text_of (j_string (cj_node c)))) c) sep"
    using Cons.prems(3) f unfolding t by (intro reads_backD [OF c(1)]) auto
  have e: "parse_members f ((if fmt then tabs depth else []) @ name c @ '':'' @ (if fmt then [TAB] else []) @
        json_text depth fmt c @ sep) =
      (let w' = skip sep in if take 1 w' = '','' then pbind (parse_members g (tl w'))
         (\<lambda>cs'. P_Ok (canon (Some (text_of (j_string (cj_node c)))) c # cs')) else P_Ok [canon (Some (text_of (j_string (cj_node c)))) c] w')"
  proof -
    have "skip ((if fmt then tabs depth else []) @ u) = skip u" "skip ((if fmt then [TAB] else []) @ u) = skip u" for u
      by (simp_all add: skip_tabs)
    then show ?thesis
      using skip_json_text [OF c(2), of depth fmt sep]
      by (simp add: f s n v skip_char Let_def split del: if_split)
  qed
  show ?case
  proof (cases "cs = []")
    case True
    then have "skip sep = ''}'' @ r" using assms(5) by (simp add: sep_def rest_def skip_tabs)
    then show ?thesis unfolding t e using True by (simp add: Let_def)
  next
    case False
    have "2 * length rest + 2 \<le> g" using Cons.prems(3) f unfolding t by (simp add: sep_def)
    note l = this [unfolded rest_def]
    have "parse_members g rest = P_Ok (map (\<lambda>c. canon (Some (text_of (j_string (cj_node c)))) c) cs) (''}'' @ r)"
      unfolding rest_def by (rule Cons.IH [OF Cons.prems(1) False l]) (simp_all only: list.set_intros)
    moreover have "parse_members g ((if fmt then [LF] else []) @ rest) = parse_members g rest"
      by (rule entries_skip(2)) (simp add: skip_tabs)
    ultimately show ?thesis unfolding t e using False by (simp add: Let_def sep_def skip_char)
  qed
qed simp

lemma skip_idem [simp]: "skip (skip s) = skip s"
  by (simp add: skip_def)

lemma parse_bracket_text:
  assumes "skip w = c # u" "c \<noteq> close" "entries (skip w) = P_Ok cs (close # r)"
  shows "parse_bracket close entries item (b # w) = P_Ok (CJ item cs) r"
  using assms by (simp add: parse_bracket_def Let_def)

lemma skip_items_text:
  assumes "int_json c"
  shows "\<exists>d u. skip (items_text fmt (map (json_text depth fmt) (c # cs)) @ s) = d # u \<and> d \<noteq> CHR '']''"
  using json_text_first [OF assms, of depth fmt] by (cases cs) (auto simp: skip_char)

lemma skip_members_text:
  "\<exists>u. skip ((if fmt then [LF] else []) @ members_text fmt depth ((print_string_text so, t) # es) @ s) = QUOTE # u"
proof -
  have "skip ((if fmt then [LF] else []) @ (if fmt then tabs depth else []) @ v) = skip v" for v
    by (simp add: skip_tabs)
  moreover obtain q where "print_string_text so = QUOTE # q" using print_string_first by blast
  ultimately show ?thesis by (simp add: skip_char split del: if_split)
qed

lemma isdigit_brackets [simp]: "\<not> isdigit_char (CHR ''['')" "\<not> isdigit_char (CHR ''{'')"
  by (simp_all add: isdigit_char_def)

lemma reads_back_json: "int_json t \<Longrightarrow> reads_back fmt depth t"
proof (induction t arbitrary: depth)
  case (CJ n cs)
  have ih: "reads_back fmt d c \<and> int_json c" if "c \<in> set cs" for c d
    using CJ that by simp
  have cs: "c_string (j_valuestring n)" using CJ.prems by simp
  show ?case
    unfolding reads_back_def
  proof (intro allI impI, elim conjE)
    fix r f k nm
    let ?x = "json_text depth fmt (CJ n cs)" and ?item = "new_item\<lparr>j_type := k, j_string := nm\<rparr>"
    assume r: "delimited r" and len: "2 * length (?x @ r) + 1 \<le> f"
    obtain g where f: "f = Suc g" using len by (cases f) auto
    consider (null) "j_type n AND 255 = cJSON_NULL" | (false) "j_type n AND 255 = cJSON_False"
      | (true) "j_type n AND 255 = cJSON_True" | (number) "j_type n AND 255 = cJSON_Number"
      | (string) "j_type n AND 255 = cJSON_String" | (array) "j_type n AND 255 = cJSON_Array"
      | (object) "j_type n AND 255 = cJSON_Object"
      using CJ.prems by (auto simp: json_types_def)
    then show "parse_value f ?item (?x @ r) = P_Ok (canon nm (CJ n cs)) r"
    proof cases
      case number
      have range: "- (2 ^ 31) \<le> j_valueint n" "j_valueint n < 2 ^ 31" using CJ.prems number_ok_range [of n] by simp_all
      obtain c u where c: "dec (j_valueint n) = c # u" "c = CHR ''-'' \<or> isdigit_char c"
        using dec_first by blast
      have "c \<noteq> QUOTE" "c \<noteq> CHR ''n''" "c \<noteq> CHR ''f''" "c \<noteq> CHR ''t''"
        using c(2) by (auto simp: isdigit_char_def)
      moreover have "parse_number (c # u @ r) = (D_Fin (of_int (j_valueint n)), r)"
        using parse_number_dec [of "j_valueint n" r] CJ.prems r c(1) range by simp
      moreover have "?x = c # u" using number CJ.prems c(1) range number_text_int [of n] by simp
      moreover have "d_to_int (D_Fin (of_int (j_valueint n))) = j_valueint n"
        using range by (simp add: floor_minus)
      ultimately show ?thesis using f number c(2) CJ.prems by (simp add: new_item_def)
    next
      case string
      obtain u where u: "print_string_text (j_valuestring n) = QUOTE # u" using print_string_first by blast
      then show ?thesis using parse_print_option [OF cs, of r] f string by (simp add: new_item_def)
    next
      case array
      show ?thesis
      proof (cases cs)
        case Nil
        then show ?thesis using f array by (simp add: parse_bracket_def skip_char Let_def new_item_def)
      next
        case (Cons c cs')
        let ?w = "items_text fmt (map (json_text (depth + 1) fmt) cs) @ '']'' @ r"
        obtain d u where d: "skip ?w = d # u" "d \<noteq> CHR '']''"
          using skip_items_text [of c fmt "depth + 1" cs' "'']'' @ r"] CJ.prems Cons by auto
        have x: "?x @ r = CHR ''['' # ?w" using array by simp
        have "parse_items g ?w = P_Ok (map (canon None) cs) ('']'' @ r)"
          using len f ih Cons unfolding x by (intro parse_items_text) auto
        then have "parse_items g (skip ?w) = P_Ok (map (canon None) cs) (CHR '']'' # r)"
          using entries_skip(1) [of "skip ?w" ?w g] by simp
        then show ?thesis
          using parse_bracket_text [OF d, of "parse_items g"] f array unfolding x by (simp add: new_item_def)
      qed
    next
      case object
      show ?thesis
      proof (cases cs)
        case Nil
        then show ?thesis
          using f object by (cases fmt) (simp_all add: parse_bracket_def skip_char skip_tabs Let_def new_item_def)
      next
        case (Cons c cs')
        let ?es = "map (\<lambda>c. (print_string_text (j_string (cj_node c)), json_text (depth + 1) fmt c)) cs"
        let ?m = "members_text fmt (depth + 1) ?es @ (if fmt then tabs depth else []) @ ''}'' @ r"
        let ?w = "(if fmt then [LF] else []) @ ?m" and ?cs = "map (\<lambda>c. canon (Some (text_of (j_string (cj_node c)))) c) cs"
        obtain u where d: "skip ?w = QUOTE # u"
          unfolding Cons list.map using skip_members_text by blast
        have x: "?x @ r = CHR ''{'' # ?w" using object Cons by simp
        have "2 * length ?m + 2 \<le> g" using len f unfolding x by auto
        moreover have "skip ((if fmt then tabs depth else []) @ ''}'' @ r) = ''}'' @ r" by (simp add: skip_tabs skip_char)
        moreover have "delimited ((if fmt then tabs depth else []) @ ''}'' @ r)"
          by (cases depth) (auto simp: tabs_def delimited_def isdigit_char_def)
        ultimately have "parse_members g ?m = P_Ok ?cs (CHR ''}'' # r)"
          using parse_members_text [OF ih, of cs] Cons by simp
        moreover have "parse_members g (skip ?w) = parse_members g ?m"
          by (rule entries_skip(2)) (simp add: skip_tabs)
        ultimately have "parse_members g (skip ?w) = P_Ok ?cs (CHR ''}'' # r)" by simp
        then show ?thesis
          using parse_bracket_text [OF d, of _ "parse_members g"] f object unfolding x by (simp add: new_item_def)
      qed
    qed (use f in \<open>simp_all add: new_item_def\<close>)
  qed
qed

text \<open>
  C6: Printing and parsing are inverse: an item of known types whose strings and names have no NUL and whose
  numbers hold a 32-bit integer in both fields, printed with or without formatting, is parsed back to the same
  tree (canon only resets what no text carries: flags, names outside objects, the number and string fields of
  an item of another type, children of an item that is no array or object, and a missing string or name, which
  is printed as an empty one), and the parser stops where the text stops, if
  what follows does not go on a number.
\<close>

theorem json_roundtrip:
  assumes "int_json t" "delimited r"
  shows "\<exists>txt. print_value 0 fmt t = Inr (Some txt) \<and> cJSON_ParseWithOpts (txt @ r) False = P_Ok (canon None t) r"
proof -
  have "printable t" using assms(1) by (induction t) auto
  let ?s = "json_text 0 fmt t @ r"
  have "parse_value (json_fuel ?s) new_item ?s = P_Ok (canon None t) r"
    using assms by (intro reads_back_new [OF reads_back_json]) (simp_all add: json_fuel_def)
  then have "cJSON_ParseWithOpts ?s False = P_Ok (canon None t) r"
    using skip_json_text [OF assms(1), of 0 fmt r] by (simp add: cJSON_ParseWithOpts_def Let_def)
  then show ?thesis using print_value_text [OF \<open>printable t\<close>, of 0 fmt] by blast
qed

definition sample_object :: cjson where
  "sample_object = CJ (new_item\<lparr>j_type := cJSON_Object\<rparr>)
     [CJ (new_item\<lparr>j_type := cJSON_Number, j_valueint := - 70, j_valuedouble := D_Fin (- 70), j_string := Some ''t''\<rparr>) [],
      CJ (new_item\<lparr>j_type := cJSON_Array, j_string := Some ''a''\<rparr>)
        [CJ (new_item\<lparr>j_type := cJSON_String, j_valuestring := Some [QUOTE]\<rparr>) [],
         CJ (new_item\<lparr>j_type := cJSON_True, j_valueint := 1\<rparr>) [], CJ (new_item\<lparr>j_type := cJSON_NULL\<rparr>) []]]"

theorem json_roundtrip_witness:
  "\<exists>txt. print_value 0 True sample_object = Inr (Some txt) \<and>
     cJSON_ParseWithOpts (txt @ ''}'') False = P_Ok (canon None sample_object) ''}''"
  by (rule json_roundtrip)
    (simp_all add: sample_object_def new_item_def json_types_def number_ok_def c_string_def delimited_def isdigit_char_def)

end
