(* ===== verification/Json_Api.thy ===== *)
theory Json_Api
  imports Json_Roundtrip Json_Buffer_Props
begin

unbundle bit_operations_syntax

text \<open>
  Making and copying items, and the two functions of \<^verbatim>\<open>utils.c\<close> that use the library: \<^verbatim>\<open>JsonParseText\<close>
  and \<^verbatim>\<open>JsonCreateObjects\<close>.
\<close>

section \<open>Making items\<close>

definition create_type :: "int \<Rightarrow> cjson" where
  "create_type t = CJ (new_item\<lparr>j_type := t\<rparr>) []"

definition cJSON_CreateBool :: "bool \<Rightarrow> cjson" where
  "cJSON_CreateBool b = create_type (if b then cJSON_True else cJSON_False)"

definition cJSON_CreateNumber :: "dbl \<Rightarrow> cjson" where
  "cJSON_CreateNumber num =
     CJ (new_item\<lparr>j_type := cJSON_Number, j_valuedouble := num, j_valueint := d_to_int num\<rparr>) []"

definition cJSON_CreateString :: "string option \<Rightarrow> cjson cres" where
  "cJSON_CreateString s =
     (case s of None \<Rightarrow> Inl Null_Deref | Some s \<Rightarrow> Inr (CJ (new_item\<lparr>j_type := cJSON_String, j_valuestring := Some s\<rparr>) []))"

text \<open>The loop of \<^verbatim>\<open>cJSON_CreateIntArray\<close> and its three companions, over what one element becomes.\<close>

fun create_items :: "('a \<Rightarrow> cjson cres) \<Rightarrow> 'a list \<Rightarrow> nat \<Rightarrow> cjson list cres" where
  "create_items mk xs 0 = Inr []"
| "create_items mk [] (Suc n) = Inl Out_Of_Bounds"
| "create_items mk (x # xs) (Suc n) = cbind (mk x) (\<lambda>c. cbind (create_items mk xs n) (\<lambda>cs. Inr (c # cs)))"

definition create_array :: "('a \<Rightarrow> cjson cres) \<Rightarrow> 'a list \<Rightarrow> int \<Rightarrow> cjson cres" where
  "create_array mk xs count =
     cbind (create_items mk xs (nat count)) (\<lambda>cs. Inr (CJ (new_item\<lparr>j_type := cJSON_Array\<rparr>) cs))"

definition cJSON_CreateIntArray :: "int list \<Rightarrow> int \<Rightarrow> cjson cres" where
  "cJSON_CreateIntArray = create_array (\<lambda>i. Inr (cJSON_CreateNumber (d_of_int i)))"

text \<open>A \<^verbatim>\<open>float\<close> passed as a \<^verbatim>\<open>double\<close> keeps its value: the elements are the doubles of the floats.\<close>

definition cJSON_CreateFloatArray :: "dbl list \<Rightarrow> int \<Rightarrow> cjson cres" where
  "cJSON_CreateFloatArray = create_array (\<lambda>d. Inr (cJSON_CreateNumber d))"

definition cJSON_CreateDoubleArray :: "dbl list \<Rightarrow> int \<Rightarrow> cjson cres" where
  "cJSON_CreateDoubleArray = create_array (\<lambda>d. Inr (cJSON_CreateNumber d))"

definition cJSON_CreateStringArray :: "string option list \<Rightarrow> int \<Rightarrow> cjson cres" where
  "cJSON_CreateStringArray = create_array cJSON_CreateString"

section \<open>Copying\<close>

fun cJSON_Duplicate :: "bool \<Rightarrow> cjson \<Rightarrow> cjson" where
  "cJSON_Duplicate recurse (CJ n cs) =
     CJ (n\<lparr>j_type := j_type n AND NOT 256\<rparr>) (if recurse then map (cJSON_Duplicate True) cs else [])"

section \<open>\<^verbatim>\<open>JsonParseText\<close>\<close>

text \<open>
  The loop over the items from the root on, which has no \<^verbatim>\<open>next\<close>: the test applies \<^verbatim>\<open>&&\<close>, not \<^verbatim>\<open>&\<close>, to
  the type, and compares a truth value with 16.
\<close>

fun collect_pairs :: "jnode list \<Rightarrow> (string \<times> string) list \<Rightarrow> (string \<times> string) list cres" where
  "collect_pairs [] acc = Inr acc"
| "collect_pairs (n # ns) acc =
     (if (if j_type n \<noteq> 0 \<and> (0xFF :: int) \<noteq> 0 then 1 else 0) \<noteq> cJSON_String then Inr acc
      else (case (j_string n, j_valuestring n) of
              (Some s, Some v) \<Rightarrow> collect_pairs ns (acc @ [(s, v)])
            | _ \<Rightarrow> Inl Null_Deref))"

text \<open>The number returned and the pairs stored.\<close>

definition JsonParseText :: "string \<Rightarrow> (int \<times> (string \<times> string) list) cres" where
  "JsonParseText MsgBuf =
     (case cJSON_Parse MsgBuf of
        P_Ok json r \<Rightarrow>
          cbind (cJSON_Print json) (\<lambda>txt.
          cbind (collect_pairs [cj_node json] []) (\<lambda>ps. Inr (int (length ps), ps)))
      | P_Fail e \<Rightarrow> Inr (- 1, [])
      | P_Fault e \<Rightarrow> Inl e
      | P_Fuel \<Rightarrow> Inl Diverges)"

section \<open>\<^verbatim>\<open>JsonCreateObjects\<close>\<close>

definition add_to_object :: "cjson \<Rightarrow> string \<Rightarrow> cjson \<Rightarrow> cjson" where
  "add_to_object obj s item =
     CJ (cj_node obj) (cj_child obj @ [CJ ((cj_node item)\<lparr>j_string := Some s\<rparr>) (cj_child item)])"

fun add_pairs :: "cjson \<Rightarrow> (string option \<times> string option) list \<Rightarrow> nat \<Rightarrow> cjson cres" where
  "add_pairs obj ps 0 = Inr obj"
| "add_pairs obj [] (Suc n) = Inl Out_Of_Bounds"
| "add_pairs obj ((s, v) # ps) (Suc n) =
     cbind (cJSON_CreateString v) (\<lambda>item.
       case s of None \<Rightarrow> Inl Null_Deref | Some s \<Rightarrow> add_pairs (add_to_object obj s item) ps n)"

text \<open>
  The length returned and the bytes stored in \<^verbatim>\<open>MsgBuf\<close>, at most 1000 with no terminator among them; \<open>Json_Mem_Api\<close>
  has the same function with the size of the buffer and with allocations that fail.
\<close>

definition JsonCreateObjects :: "(string option \<times> string option) list \<Rightarrow> int \<Rightarrow> (int \<times> string) cres" where
  "JsonCreateObjects ps TokenNum =
     cbind (add_pairs (create_type cJSON_Object) ps (nat TokenNum)) (\<lambda>obj.
     cbind (cJSON_Print obj) (\<lambda>txt.
       case txt of
         None \<Rightarrow> Inr (0, [])
       | Some out \<Rightarrow> (let ret = min (length out) 1000 in Inr (int ret, take ret out))))"

section \<open>A copy prints the same\<close>

lemma and_not_256: "(i AND - 257) AND 255 = i AND (255 :: int)"
proof -
  have "- 257 AND 255 = (255 :: int)" by simp
  then show ?thesis by (metis and.assoc)
qed

lemma dup_node: "cj_node (cJSON_Duplicate r t) = (cj_node t)\<lparr>j_type := j_type (cj_node t) AND NOT 256\<rparr>"
  by (cases t) simp

lemma number_text_type: "print_number (n\<lparr>j_type := t\<rparr>) = print_number n"
  by (cases n) (simp add: print_number_def number_text_def)

lemma dup_entries:
  assumes "\<And>c. c \<in> set cs \<Longrightarrow> print_value d f (cJSON_Duplicate True c) = print_value d f c"
  shows "print_items d f (map (cJSON_Duplicate True) cs) = print_items d f cs"
    "print_members d f (map (cJSON_Duplicate True) cs) = print_members d f cs"
  using assms by (induction cs) (simp_all add: dup_node)

text \<open>
  A recursive copy prints like its original, in either form and at any depth (also where the printer
  fails), and copying the copy changes nothing; only the reference flags of the items are gone.
\<close>

lemma json_duplicate_prints:
  "print_value d f (cJSON_Duplicate True t) = print_value d f t \<and>
   cJSON_Duplicate True (cJSON_Duplicate True t) = cJSON_Duplicate True t"
proof (induction t arbitrary: d)
  case (CJ n cs)
  have ih: "print_value e f (cJSON_Duplicate True c) = print_value e f c" if "c \<in> set cs" for c e
    using CJ that by blast
  have "print_value d f (cJSON_Duplicate True (CJ n cs)) = print_value d f (CJ n cs)"
    using dup_entries [OF ih] by (simp add: and_not_256 number_text_type Let_def)
  moreover have "(j_type n AND NOT 256) AND NOT 256 = j_type n AND NOT 256" by (simp add: and.assoc)
  then have "cJSON_Duplicate True (cJSON_Duplicate True (CJ n cs)) = cJSON_Duplicate True (CJ n cs)"
    using CJ by simp
  ultimately show ?case ..
qed

section \<open>The functions of \<^verbatim>\<open>utils.c\<close>\<close>

text \<open>
  JsonParseText never stores a pair: for every text that parses it returns 0, because the test of the
  type compares the value of a logical AND with 16; only a text that does not parse gives another value.
\<close>

lemma json_parse_text_empty:
  assumes "NUL \<notin> set s" "cJSON_Parse s = P_Ok t r"
  shows "JsonParseText s = Inr (0, [])"
proof -
  have "yields (\<lambda>t. json_wf t \<and> j_string (cj_node t) = None) (cJSON_ParseWithOpts s False)"
    by (rule parse_top_wf [OF assms(1)])
  then have "cJSON_Print t = Inr (Some (json_text 0 True t))"
    using assms(2) print_value_text [OF wf_printable, of t] by (simp add: cJSON_Parse_def cJSON_Print_def)
  then show ?thesis by (simp add: JsonParseText_def assms(2))
qed

lemma json_parse_text_empty_witness: "JsonParseText ''[ ]'' = Inr (0, [])"
  by (rule json_parse_text_empty [OF _ parse_empty_array [of False, folded cJSON_Parse_def]]) simp

lemma add_pairs_object:
  "add_pairs obj (map (\<lambda>(s, v). (Some s, Some v)) ps) (length ps) =
     Inr (CJ (cj_node obj) (cj_child obj @ map (\<lambda>(s, v).
       CJ (new_item\<lparr>j_type := cJSON_String, j_valuestring := Some v, j_string := Some s\<rparr>) []) ps))"
  by (induction ps arbitrary: obj)
    (auto simp: cJSON_CreateString_def add_to_object_def new_item_def)

definition pairs_object :: "(string \<times> string) list \<Rightarrow> cjson" where
  "pairs_object ps = CJ (new_item\<lparr>j_type := cJSON_Object\<rparr>)
     (map (\<lambda>(s, v). CJ (new_item\<lparr>j_type := cJSON_String, j_valuestring := Some v, j_string := Some s\<rparr>) []) ps)"

lemma pairs_object_json:
  assumes "\<And>s v. (s, v) \<in> set ps \<Longrightarrow> NUL \<notin> set s \<and> NUL \<notin> set v"
  shows "int_json (pairs_object ps)" "canon None (pairs_object ps) = pairs_object ps"
proof -
  have "int_json (CJ (new_item\<lparr>j_type := cJSON_String, j_valuestring := Some v, j_string := Some s\<rparr>) [])"
    if "NUL \<notin> set s \<and> NUL \<notin> set v" for s v
    using that by (simp add: new_item_def json_types_def c_string_def number_ok_def)
  then show "int_json (pairs_object ps)"
    using assms by (auto simp: pairs_object_def new_item_def json_types_def c_string_def number_ok_def)
  show "canon None (pairs_object ps) = pairs_object ps"
    by (auto simp: pairs_object_def new_item_def text_of_def Let_def)
qed

text \<open>
  What JsonCreateObjects stores for pairs of C strings is a JSON text that the library reads back as
  the object of these pairs in their order, whatever characters they hold, as long as the text has at
  most 1000 bytes.
\<close>

lemma json_create_objects_roundtrip:
  assumes "\<forall>(s, v) \<in> set ps. NUL \<notin> set s \<and> NUL \<notin> set v" "length (json_text 0 True (pairs_object ps)) \<le> 1000"
  shows "\<exists>txt. JsonCreateObjects (map (\<lambda>(s, v). (Some s, Some v)) ps) (int (length ps)) = Inr (int (length txt), txt) \<and>
    cJSON_Parse txt = P_Ok (pairs_object ps) []"
proof -
  let ?t = "pairs_object ps" and ?s = "json_text 0 True (pairs_object ps)"
  have ok: "int_json ?t" "canon None ?t = ?t" using assms(1) by (auto intro!: pairs_object_json)
  have "printable u" if "int_json u" for u using that by (induction u) auto
  then have "cJSON_Print ?t = Inr (Some ?s)" using print_value_text ok(1) by (simp add: cJSON_Print_def)
  then have "JsonCreateObjects (map (\<lambda>(s, v). (Some s, Some v)) ps) (int (length ps)) = Inr (int (length ?s), ?s)"
    using assms(2) by (simp add: JsonCreateObjects_def add_pairs_object create_type_def pairs_object_def min_def)
  moreover have "parse_value (json_fuel ?s) new_item (?s @ []) = P_Ok (canon None ?t) []"
    using ok(1) by (intro reads_back_new [OF reads_back_json]) (simp_all add: json_fuel_def delimited_def)
  then have "cJSON_Parse ?s = P_Ok ?t []"
    using skip_json_text [OF ok(1), of 0 True "[]"] ok(2) by (simp add: cJSON_Parse_def cJSON_ParseWithOpts_def Let_def)
  ultimately show ?thesis by blast
qed

lemma json_create_objects_roundtrip_witness:
  "\<exists>txt. JsonCreateObjects [(Some ''k'', Some [QUOTE])] 1 = Inr (int (length txt), txt) \<and>
    cJSON_Parse txt = P_Ok (pairs_object [(''k'', [QUOTE])]) []"
  using json_create_objects_roundtrip [of "[(''k'', [QUOTE])]"]
  by (simp add: pairs_object_def new_item_def print_string_text_def special_char_def escape_text_def tabs_def)

end
