(* ===== verification/Json_Msg.thy ===== *)
theory Json_Msg
  imports Cfg_Text
begin

text \<open>
  The two message functions at the end of \<^verbatim>\<open>libjson.c\<close>: \<^verbatim>\<open>osPackageJsonStr\<close>, which prints pairs with no
  escapes, and \<^verbatim>\<open>osJsonParseMsg\<close>, which cuts a message with \<^verbatim>\<open>strtok\<close>. The message is the array of its
  bytes with the terminator, the pointers are offsets, and a scan that leaves the array is a fault.
\<close>

section \<open>\<^verbatim>\<open>strtok\<close>\<close>

definition span :: "(char \<Rightarrow> bool) \<Rightarrow> string \<Rightarrow> nat \<Rightarrow> nat" where
  "span P buf p = p + length (takeWhile P (drop p buf))"

text \<open>The token from \<open>p\<close> on, the saved position, and the array with the delimiter overwritten.\<close>

definition strtok :: "string \<Rightarrow> string \<Rightarrow> nat \<Rightarrow> (nat option \<times> nat \<times> string) cres" where
  "strtok delims buf p =
     (let s = span (\<lambda>c. c \<in> set delims) buf p
      in cbind (buf_read buf s) (\<lambda>c.
           if c = NUL then Inr (None, s, buf)
           else
             let e = span (\<lambda>c. c \<notin> set delims \<and> c \<noteq> NUL) buf s
             in cbind (buf_read buf e) (\<lambda>d.
                  if d = NUL then Inr (Some s, e, buf) else Inr (Some s, e + 1, buf[e := NUL]))))"

section \<open>\<^verbatim>\<open>osPackageJsonStr\<close>\<close>

fun print_pairs :: "string list \<Rightarrow> string list \<Rightarrow> nat \<Rightarrow> string cres" where
  "print_pairs ns vs 0 = Inr []"
| "print_pairs (n # ns) (v # vs) (Suc k) =
     cbind (print_pairs ns vs k) (\<lambda>r. Inr ([CHR 0x22] @ n @ [CHR 0x22] @ '':'' @ [CHR 0x22] @ v @ [CHR 0x22] @
       (if k = 0 then [] else '','' @ r)))"
| "print_pairs ns vs (Suc k) = Inl Out_Of_Bounds"

text \<open>The value returned and the text in \<^verbatim>\<open>MsgBuf\<close>.\<close>

definition osPackageJsonStr :: "string list option \<Rightarrow> string list option \<Rightarrow> int \<Rightarrow> (int \<times> string) cres" where
  "osPackageJsonStr pName pValue TokenNum =
     (case (pName, pValue) of
        (Some ns, Some vs) \<Rightarrow>
          if TokenNum = 0 then Inr (- 1, [])
          else cbind (print_pairs ns vs (nat TokenNum)) (\<lambda>r.
                 let txt = ''{'' @ r @ ''}'' @ [LF, CHR 0x0D] in Inr (int (length txt), txt))
      | _ \<Rightarrow> Inr (- 1, []))"

section \<open>\<^verbatim>\<open>osJsonParseMsg\<close>\<close>

definition MAX_JSON_TOKEN :: nat where "MAX_JSON_TOKEN = 64"

fun cut_tokens :: "nat \<Rightarrow> string \<Rightarrow> nat \<Rightarrow> (nat list \<times> string) cres" where
  "cut_tokens 0 buf p = Inr ([], buf)"
| "cut_tokens (Suc k) buf p =
     cbind (strtok '','' buf p) (\<lambda>(t, s, buf').
       case t of
         None \<Rightarrow> Inr ([], buf')
       | Some a \<Rightarrow> cbind (cut_tokens k buf' s) (\<lambda>(ts, b). Inr (a # ts, b)))"

text \<open>\<^verbatim>\<open>while(*p != '"') p++\<close>, which the terminator does not stop.\<close>

definition find_quote :: "string \<Rightarrow> nat \<Rightarrow> nat cres" where
  "find_quote buf p = (let q = span (\<lambda>c. c \<noteq> CHR 0x22) buf p in cbind (buf_read buf q) (\<lambda>_. Inr q))"

definition quoted_at :: "string \<Rightarrow> nat \<Rightarrow> (nat option \<times> string) cres" where
  "quoted_at buf p =
     cbind (find_quote buf p) (\<lambda>q. cbind (strtok [CHR 0x22] buf q) (\<lambda>(t, s, buf'). Inr (t, buf')))"

fun cut_pairs :: "string \<Rightarrow> nat list \<Rightarrow> ((nat option \<times> nat option) list \<times> string) cres" where
  "cut_pairs buf [] = Inr ([], buf)"
| "cut_pairs buf (t # ts) =
     cbind (strtok '':'' buf t) (\<lambda>(t1, s1, b1).
     cbind (strtok [] b1 s1) (\<lambda>(t2, s2, b2).
       case (t1, t2) of
         (Some p1, Some p2) \<Rightarrow>
           cbind (quoted_at b2 p1) (\<lambda>(n, b3).
           cbind (quoted_at b3 p2) (\<lambda>(v, b4).
           cbind (cut_pairs b4 ts) (\<lambda>(r, b). Inr ((n, v) # r, b))))
       | _ \<Rightarrow> Inr ([], b2)))"

text \<open>The number of pairs, the pointers stored, and the message as it is left.\<close>

definition osJsonParseMsg :: "string \<Rightarrow> (int \<times> (nat option \<times> nat option) list \<times> string) cres" where
  "osJsonParseMsg MsgBuf =
     cbind (cut_tokens MAX_JSON_TOKEN MsgBuf 0) (\<lambda>(ts, b).
     cbind (cut_pairs b ts) (\<lambda>(ps, b'). Inr (int (length ps), ps, b')))"

section \<open>What a packed message is cut into\<close>

definition string_at :: "string \<Rightarrow> nat option \<Rightarrow> string option" where
  "string_at buf p = map_option (\<lambda>i. takeWhile (\<lambda>c. c \<noteq> NUL) (drop i buf)) p"

lemma span_append:
  assumes "\<forall>c \<in> set xs. P c" "ys \<noteq> [] \<Longrightarrow> \<not> P (hd ys)"
  shows "span P (pre @ xs @ ys) (length pre) = length pre + length xs"
proof -
  have "takeWhile P (xs @ ys) = xs @ takeWhile P ys" using assms(1) by simp
  moreover have "takeWhile P ys = []" using assms(2) by (cases ys) auto
  ultimately show ?thesis by (simp add: span_def)
qed

lemma buf_read_append: "buf_read (pre @ c # post) (length pre) = Inr c"
  by (simp add: buf_read_def)

text \<open>A token that a delimiter ends, and one that the terminator ends.\<close>

lemma strtok_spans:
  assumes "set ds \<subseteq> set delims" "tok \<noteq> []" "set tok \<inter> insert NUL (set delims) = {}" "d = NUL \<or> d \<in> set delims"
  shows "span (\<lambda>c. c \<in> set delims) (pre @ ds @ tok @ d # post) (length pre) = length pre + length ds"
    "buf_read (pre @ ds @ tok @ d # post) (length pre + length ds) = Inr (hd tok)"
    "span (\<lambda>c. c \<notin> set delims \<and> c \<noteq> NUL) (pre @ ds @ tok @ d # post) (length pre + length ds) =
      length pre + length ds + length tok"
    "buf_read (pre @ ds @ tok @ d # post) (length pre + length ds + length tok) = Inr d"
proof -
  have "hd tok \<in> set tok" using assms(2) by simp
  then have h: "hd tok \<notin> set delims" "hd tok \<noteq> NUL" using assms(3) by blast+
  then show "span (\<lambda>c. c \<in> set delims) (pre @ ds @ tok @ d # post) (length pre) = length pre + length ds"
    using assms by (intro span_append) auto
  show "buf_read (pre @ ds @ tok @ d # post) (length pre + length ds) = Inr (hd tok)"
    using assms(2) buf_read_append [of "pre @ ds" "hd tok" "tl tok @ d # post"] by (cases tok) simp_all
  show "span (\<lambda>c. c \<notin> set delims \<and> c \<noteq> NUL) (pre @ ds @ tok @ d # post) (length pre + length ds) =
      length pre + length ds + length tok"
    using span_append [of tok "\<lambda>c. c \<notin> set delims \<and> c \<noteq> NUL" "d # post" "pre @ ds"] assms(3,4) by auto
  show "buf_read (pre @ ds @ tok @ d # post) (length pre + length ds + length tok) = Inr d"
    using buf_read_append [of "pre @ ds @ tok" d post] by (simp add: add.assoc)
qed

lemma strtok_cut:
  assumes "set ds \<subseteq> set delims" "tok \<noteq> []" "set tok \<inter> insert NUL (set delims) = {}" "d \<in> set delims" "NUL \<notin> set delims"
  shows "strtok delims (pre @ ds @ tok @ d # post) (length pre) =
     Inr (Some (length pre + length ds), length pre + length ds + length tok + 1, pre @ ds @ tok @ NUL # post)"
proof -
  note sp = strtok_spans [of ds delims tok d pre post, OF assms(1-3) disjI2 [OF assms(4)]]
  have hd: "hd tok \<noteq> NUL" using assms(3) list.set_sel(1) [OF assms(2)] by blast
  have "(pre @ ds @ tok @ d # post)[length pre + length ds + length tok := NUL] = pre @ ds @ tok @ NUL # post"
    using list_update_length [of "pre @ ds @ tok" d post NUL] by (simp add: add.assoc)
  moreover have "d \<noteq> NUL" using assms(4,5) by metis
  ultimately show ?thesis unfolding strtok_def Let_def sp(1) by (simp add: hd sp(2-4))
qed

lemma strtok_end:
  assumes "set ds \<subseteq> set delims" "tok \<noteq> []" "set tok \<inter> insert NUL (set delims) = {}"
  shows "strtok delims (pre @ ds @ tok @ NUL # post) (length pre) =
     Inr (Some (length pre + length ds), length pre + length ds + length tok, pre @ ds @ tok @ NUL # post)"
proof -
  note sp = strtok_spans [of ds delims tok NUL pre post, OF assms(1-3) disjI1 [OF refl]]
  have hd: "hd tok \<noteq> NUL" using assms(3) list.set_sel(1) [OF assms(2)] by blast
  show ?thesis unfolding strtok_def Let_def sp(1) by (simp add: hd sp(2-4))
qed

lemma strtok_none:
  assumes "NUL \<notin> set delims"
  shows "strtok delims (pre @ NUL # post) (length pre) = Inr (None, length pre, pre @ NUL # post)"
  using span_append [of "[]" "\<lambda>c. c \<in> set delims" "NUL # post" pre] assms
  by (simp add: strtok_def buf_read_append)

text \<open>The messages: what is before the name, the name, the value, and what is behind the value.\<close>

type_synonym msg_token = "string \<times> string \<times> string \<times> string"

abbreviation DQ :: char where "DQ \<equiv> CHR 0x22"

fun token_text :: "msg_token \<Rightarrow> string" where
  "token_text (l, n, v, r) = l @ [DQ] @ n @ [DQ] @ '':'' @ [DQ] @ v @ [DQ] @ r"

fun token_cut :: "msg_token \<Rightarrow> string" where
  "token_cut (l, n, v, r) = l @ [DQ] @ n @ [NUL] @ [NUL] @ [DQ] @ v @ [NUL] @ r"

fun token_ok :: "msg_token \<Rightarrow> bool" where
  "token_ok (l, n, v, r) \<longleftrightarrow>
     n \<noteq> [] \<and> v \<noteq> [] \<and> set (l @ n) \<inter> {NUL, DQ, CHR '','', CHR '':''} = {} \<and> set (v @ r) \<inter> {NUL, DQ, CHR '',''} = {}"

fun joined :: "string list \<Rightarrow> string" where
  "joined [] = [NUL]"
| "joined [t] = t @ [NUL]"
| "joined (t # u # ts) = t @ '','' @ joined (u # ts)"

definition ended :: "string list \<Rightarrow> string" where
  "ended ts = concat (map (\<lambda>t. t @ [NUL]) ts)"

fun places :: "nat \<Rightarrow> string list \<Rightarrow> nat list" where
  "places p [] = []"
| "places p (t # ts) = p # places (p + length t + 1) ts"

lemma cut_tokens_joined:
  assumes "\<And>t. t \<in> set ts \<Longrightarrow> t \<noteq> [] \<and> set t \<inter> {NUL, CHR '',''} = {}" "ts \<noteq> []" "length ts \<le> k"
  shows "cut_tokens k (pre @ joined ts) (length pre) = Inr (places (length pre) ts, pre @ ended ts)"
  using assms
proof (induction ts arbitrary: k pre)
  case (Cons t ts)
  then obtain j where k: "k = Suc j" by (cases k) auto
  have t: "t \<noteq> []" "set t \<inter> insert NUL (set '','') = {}" using Cons.prems(1) [of t] by auto
  show ?case
  proof (cases ts)
    case Nil
    have "cut_tokens j (pre @ t @ [NUL]) (length pre + length t) = Inr ([], pre @ t @ [NUL])"
      using strtok_none [of "'',''" "pre @ t" "[]"] by (cases j) simp_all
    then show ?thesis using Nil strtok_end [of "[]" "'',''" t pre "[]"] t k by (simp add: ended_def)
  next
    case (Cons u us)
    have "cut_tokens j ((pre @ t @ [NUL]) @ joined ts) (length (pre @ t @ [NUL])) =
        Inr (places (length (pre @ t @ [NUL])) ts, (pre @ t @ [NUL]) @ ended ts)"
      using Cons.prems k Cons by (intro Cons.IH) auto
    then show ?thesis using Cons strtok_cut [of "[]" "'',''" t "CHR '',''" pre "joined ts"] t k by (simp add: ended_def)
  qed
qed simp

lemma quoted_at_text:
  assumes "DQ \<notin> set l" "n \<noteq> []" "set n \<inter> {NUL, DQ} = {}"
  shows "quoted_at (pre @ l @ DQ # n @ DQ # post) (length pre) =
     Inr (Some (length pre + length l + 1), pre @ l @ DQ # n @ NUL # post)"
proof -
  have "span (\<lambda>c. c \<noteq> DQ) (pre @ l @ DQ # n @ DQ # post) (length pre) = length pre + length l"
    using assms(1) by (intro span_append) auto
  moreover have "buf_read (pre @ l @ DQ # n @ DQ # post) (length pre + length l) = Inr DQ"
    using buf_read_append [of "pre @ l" DQ "n @ DQ # post"] by simp
  ultimately have "find_quote (pre @ l @ DQ # n @ DQ # post) (length pre) = Inr (length pre + length l)"
    by (simp add: find_quote_def)
  moreover have "strtok [DQ] ((pre @ l) @ [DQ] @ n @ DQ # post) (length (pre @ l)) =
      Inr (Some (length (pre @ l) + length [DQ]), length (pre @ l) + length [DQ] + length n + 1, (pre @ l) @ [DQ] @ n @ NUL # post)"
    using assms(2,3) by (intro strtok_cut) auto
  ultimately show ?thesis by (simp add: quoted_at_def)
qed

lemma string_at_text: "NUL \<notin> set n \<Longrightarrow> string_at (pre @ n @ NUL # post) (Some (length pre)) = Some n"
  by (simp add: string_at_def takeWhile_append2 cong: takeWhile_cong) (induction n; auto)

lemma cut_pairs_ended:
  assumes "\<And>t. t \<in> set ts \<Longrightarrow> token_ok t"
  shows "\<exists>ps. cut_pairs (pre @ ended (map token_text ts)) (places (length pre) (map token_text ts)) =
      Inr (ps, pre @ ended (map token_cut ts)) \<and>
    map (\<lambda>(a, b). (string_at (pre @ ended (map token_cut ts)) a, string_at (pre @ ended (map token_cut ts)) b)) ps =
      map (\<lambda>(l, n, v, r). (Some n, Some v)) ts"
  using assms
proof (induction ts arbitrary: pre)
  case Nil
  then show ?case by (simp add: ended_def)
next
  case (Cons t ts)
  obtain l n v r where t: "t = (l, n, v, r)" by (cases t) auto
  have ok: "n \<noteq> []" "v \<noteq> []" "set (l @ n) \<inter> {NUL, DQ, CHR '','', CHR '':''} = {}" "set (v @ r) \<inter> {NUL, DQ, CHR '',''} = {}"
    using Cons.prems [of t] t by auto
  define rest where "rest = ended (map token_text ts)"
  define rest' where "rest' = ended (map token_cut ts)"
  define q where "q = Suc (Suc (Suc (length pre + (length l + length n))))"
  let ?b = "pre @ (l @ DQ # n @ [DQ]) @ CHR '':'' # (DQ # v @ DQ # r) @ NUL # rest"
  let ?b1 = "pre @ (l @ DQ # n @ [DQ]) @ NUL # (DQ # v @ DQ # r) @ NUL # rest"
  let ?b2 = "pre @ l @ DQ # n @ NUL # NUL # DQ # v @ DQ # r @ NUL # rest"
  let ?b3 = "pre @ l @ DQ # n @ NUL # NUL # DQ # v @ NUL # r @ NUL # rest"
  have b: "pre @ ended (map token_text (t # ts)) = ?b" by (simp add: t ended_def rest_def)
  have 1: "strtok '':'' ?b (length pre) = Inr (Some (length pre), q, ?b1)"
    using strtok_cut [of "[]" "'':''" "l @ DQ # n @ [DQ]" "CHR '':''" pre "(DQ # v @ DQ # r) @ NUL # rest"] ok(3)
    by (auto simp: q_def)
  have 2: "\<exists>s2. strtok [] ?b1 q = Inr (Some q, s2, ?b1)"
    using strtok_end [of "[]" "[]" "DQ # v @ DQ # r" "pre @ (l @ DQ # n @ [DQ]) @ [NUL]" rest] ok(4)
    by (auto simp: q_def add.assoc)
  have 3: "quoted_at ?b1 (length pre) = Inr (Some (length pre + length l + 1), ?b2)"
    using quoted_at_text [of l n pre "NUL # DQ # v @ DQ # r @ NUL # rest"] ok(1,3) by auto
  have 4: "quoted_at ?b2 q = Inr (Some (q + 1), ?b3)"
    using quoted_at_text [of "[]" v "pre @ l @ DQ # n @ [NUL, NUL]" "r @ NUL # rest"] ok(2,4) by (auto simp: q_def)
  let ?pre = "pre @ token_cut t @ [NUL]"
  have b3: "?b3 = ?pre @ rest" by (simp add: t)
  have pl: "places (length pre) (map token_text (t # ts)) = length pre # places (length ?pre) (map token_text ts)"
    by (simp add: t)
  obtain ps where ps: "cut_pairs (?pre @ rest) (places (length ?pre) (map token_text ts)) = Inr (ps, ?pre @ rest')"
    "map (\<lambda>(a, b). (string_at (?pre @ rest') a, string_at (?pre @ rest') b)) ps = map (\<lambda>(l, n, v, r). (Some n, Some v)) ts"
    using Cons.IH [of ?pre] Cons.prems unfolding rest_def rest'_def by auto
  have e: "?pre @ rest' = pre @ ended (map token_cut (t # ts))" by (simp add: ended_def rest'_def)
  have "string_at (?pre @ rest') (Some (length pre + length l + 1)) = Some n"
    using string_at_text [of n "pre @ l @ [DQ]" "NUL # DQ # v @ NUL # r @ NUL # rest'"] ok(3) by (simp add: t)
  moreover have "string_at (?pre @ rest') (Some (q + 1)) = Some v"
    using string_at_text [of v "pre @ l @ DQ # n @ [NUL, NUL, DQ]" "r @ NUL # rest'"] ok(4) by (simp add: t q_def)
  moreover obtain s2 where "strtok [] ?b1 q = Inr (Some q, s2, ?b1)" using 2 by blast
  then have "cut_pairs ?b (length pre # places (length ?pre) (map token_text ts)) =
      Inr ((Some (length pre + length l + 1), Some (q + 1)) # ps, ?pre @ rest')"
    using ps(1) b3 by (simp only: cut_pairs.simps 1 3 4 cbind.simps prod.case option.case)
  ultimately show ?case
    using ps(2) unfolding b e [symmetric] pl
    by (intro exI [of _ "(Some (length pre + length l + 1), Some (q + 1)) # ps"] conjI) (simp_all only: list.map prod.case t)
qed


section \<open>Packing and parsing\<close>

definition pair_tokens :: "(string \<times> string) list \<Rightarrow> msg_token list" where
  "pair_tokens ps = map (\<lambda>i. (if i = 0 then ''{'' else [], fst (ps ! i), snd (ps ! i),
     if Suc i = length ps then ''}'' @ [LF, CHR 0x0D] else [])) [0..<length ps]"

lemma joined_append: "us \<noteq> [] \<Longrightarrow> joined (t # us) = t @ '','' @ joined us"
  by (cases us) simp_all

lemma print_pairs_joined:
  assumes "ps \<noteq> []"
  shows "\<exists>m. print_pairs (map fst ps) (map snd ps) (length ps) = Inr m \<and>
    m @ e @ [NUL] = joined (map token_text (map (\<lambda>i. ([], fst (ps ! i), snd (ps ! i), if Suc i = length ps then e else [])) [0..<length ps]))"
  using assms
proof (induction ps)
  case (Cons p ps)
  have is0: "[0..<length (p # ps)] = 0 # map Suc [0..<length ps]"
    by (simp add: upt_conv_Cons map_Suc_upt del: upt_Suc)
  show ?case
  proof (cases "ps = []")
    case False
    then obtain m where "print_pairs (map fst ps) (map snd ps) (length ps) = Inr m"
      "m @ e @ [NUL] = joined (map token_text (map (\<lambda>i. ([], fst (ps ! i), snd (ps ! i), if Suc i = length ps then e else [])) [0..<length ps]))"
      using Cons.IH by blast
    then show ?thesis using False unfolding is0
      by (simp add: joined_append o_def cong: map_cong)
  qed simp
qed simp

lemma joined_head: "joined ((a @ t) # us) = a @ joined (t # us)"
  by (cases us) simp_all

lemma pair_tokens_joined:
  assumes "ps \<noteq> []"
  shows "\<exists>m. print_pairs (map fst ps) (map snd ps) (length ps) = Inr m \<and>
    (''{'' @ m @ ''}'' @ [LF, CHR 0x0D]) @ [NUL] = joined (map token_text (pair_tokens ps))"
proof -
  let ?e = "''}'' @ [LF, CHR 0x0D]"
  let ?tok = "\<lambda>i. ([], fst (ps ! i), snd (ps ! i), if Suc i = length ps then ?e else [])"
  obtain m where m: "print_pairs (map fst ps) (map snd ps) (length ps) = Inr m"
    "m @ ?e @ [NUL] = joined (map token_text (map ?tok [0..<length ps]))"
    using print_pairs_joined [OF assms] by blast
  have u: "[0..<length ps] = 0 # [1..<length ps]" using assms by (simp add: upt_conv_Cons)
  have "map token_text (pair_tokens ps) = (''{'' @ token_text (?tok 0)) # map (token_text \<circ> ?tok) [1..<length ps]"
    unfolding pair_tokens_def u by (auto simp: o_def)
  then have "joined (map token_text (pair_tokens ps)) = ''{'' @ joined (map token_text (map ?tok [0..<length ps]))"
    unfolding u by (simp only: joined_head list.map map_map)
  then show ?thesis using m by (metis append.assoc)
qed

lemma pair_token_ok:
  assumes "case p of (n, v) \<Rightarrow> n \<noteq> [] \<and> v \<noteq> [] \<and> set n \<inter> {NUL, DQ, CHR '','', CHR '':''} = {} \<and> set v \<inter> {NUL, DQ, CHR '',''} = {}"
  shows "token_ok (if first then ''{'' else [], fst p, snd p, if final then ''}'' @ [LF, CHR 0x0D] else [])"
proof (cases p)
  case (Pair n v)
  then show ?thesis using assms by (cases first; cases final) simp_all
qed

text \<open>
  C36: A message that osPackageJsonStr makes is cut by osJsonParseMsg into the same pairs, for 1 to 64
  pairs of nonempty strings without quotes and commas and names without colons: the count is theirs and
  the pointers stored point to the names and values in the message, where terminators have replaced the
  delimiters. The values may have colons: the message that the comment above osJsonParseMsg calls an error
  to parse is one of these.
\<close>

theorem json_msg_roundtrip:
  assumes "ps \<noteq> []" "length ps \<le> 64"
    "\<forall>(n, v) \<in> set ps. n \<noteq> [] \<and> v \<noteq> [] \<and> set n \<inter> {NUL, DQ, CHR '','', CHR '':''} = {} \<and> set v \<inter> {NUL, DQ, CHR '',''} = {}"
  shows "\<exists>msg r buf. osPackageJsonStr (Some (map fst ps)) (Some (map snd ps)) (int (length ps)) = Inr (int (length msg), msg) \<and>
    osJsonParseMsg (msg @ [NUL]) = Inr (int (length ps), r, buf) \<and>
    map (\<lambda>(a, b). (string_at buf a, string_at buf b)) r = map (\<lambda>(n, v). (Some n, Some v)) ps"
proof -
  obtain m where m: "print_pairs (map fst ps) (map snd ps) (length ps) = Inr m"
    "(''{'' @ m @ ''}'' @ [LF, CHR 0x0D]) @ [NUL] = joined (map token_text (pair_tokens ps))"
    using pair_tokens_joined [OF assms(1)] by blast
  define msg where "msg = ''{'' @ m @ ''}'' @ [LF, CHR 0x0D]"
  let ?ts = "pair_tokens ps"
  have ok: "token_ok t" if t: "t \<in> set ?ts" for t
  proof -
    obtain i where i: "i < length ps" "t = (if i = 0 then ''{'' else [], fst (ps ! i), snd (ps ! i),
        if Suc i = length ps then ''}'' @ [LF, CHR 0x0D] else [])"
      using t unfolding pair_tokens_def set_map by (elim imageE) simp
    have "case ps ! i of (n, v) \<Rightarrow> n \<noteq> [] \<and> v \<noteq> [] \<and> set n \<inter> {NUL, DQ, CHR '','', CHR '':''} = {} \<and>
        set v \<inter> {NUL, DQ, CHR '',''} = {}"
      using assms(3) nth_mem [OF i(1)] by (rule bspec)
    then show ?thesis unfolding i(2) by (rule pair_token_ok)
  qed
  have tt: "token_text t \<noteq> [] \<and> set (token_text t) \<inter> {NUL, CHR '',''} = {}" if "token_ok t" for t
    using that by (cases t) auto
  have "cut_tokens MAX_JSON_TOKEN ([] @ joined (map token_text ?ts)) (length ([] :: string)) =
      Inr (places (length ([] :: string)) (map token_text ?ts), [] @ ended (map token_text ?ts))"
  proof (rule cut_tokens_joined)
    show "t \<noteq> [] \<and> set t \<inter> {NUL, CHR '',''} = {}" if "t \<in> set (map token_text ?ts)" for t
      using that unfolding set_map by (elim imageE, hypsubst) (rule tt [OF ok])
  qed (use assms(1,2) in \<open>simp_all add: pair_tokens_def MAX_JSON_TOKEN_def\<close>)
  then have "cut_tokens MAX_JSON_TOKEN (msg @ [NUL]) 0 = Inr (places 0 (map token_text ?ts), ended (map token_text ?ts))"
    using m(2) by (simp add: msg_def)
  moreover obtain r where r: "cut_pairs (ended (map token_text ?ts)) (places 0 (map token_text ?ts)) =
      Inr (r, ended (map token_cut ?ts))"
    "map (\<lambda>(a, b). (string_at (ended (map token_cut ?ts)) a, string_at (ended (map token_cut ?ts)) b)) r =
      map (\<lambda>(l, n, v, r). (Some n, Some v)) ?ts"
    using cut_pairs_ended [of ?ts "[]"] ok by auto
  moreover have "map (\<lambda>(l, n, v, r). (Some n, Some v)) ?ts = map (\<lambda>(n, v). (Some n, Some v)) ps"
    by (rule nth_equalityI) (auto simp: pair_tokens_def split: prod.splits)
  moreover from this have "length r = length ps" using arg_cong [OF r(2), of length] by (metis length_map)
  moreover have "osPackageJsonStr (Some (map fst ps)) (Some (map snd ps)) (int (length ps)) = Inr (int (length msg), msg)"
    using m(1) assms(1) by (simp add: osPackageJsonStr_def msg_def)
  ultimately show ?thesis
    by (intro exI [of _ msg] exI [of _ r] exI [of _ "ended (map token_cut ?ts)"]) (simp add: osJsonParseMsg_def)
qed

theorem json_msg_roundtrip_witness:
  "\<exists>msg r buf. osPackageJsonStr (Some [''action'', ''RtspUrl'']) (Some [''start_live'', ''rtsp://192.168.2.10:10554/44d1.mp4'']) 2 = Inr (int (length msg), msg) \<and>
    osJsonParseMsg (msg @ [NUL]) = Inr (2, r, buf) \<and>
    map (\<lambda>(a, b). (string_at buf a, string_at buf b)) r = 
      [(Some ''action'', Some ''start_live''), (Some ''RtspUrl'', Some ''rtsp://192.168.2.10:10554/44d1.mp4'')]"
  using json_msg_roundtrip [of "[(''action'', ''start_live''), (''RtspUrl'', ''rtsp://192.168.2.10:10554/44d1.mp4'')]"] by simp

end
