(* ===== verification/Json_Chain.thy ===== *)
theory Json_Chain
  imports Json_Lists "HOL-Library.Multiset"
begin

text \<open>
  What a client of the chains needs to know: a contract of two operations, taking out by position and
  putting in by position, with moving an item within a chain as the client, and the operations of
  \<^verbatim>\<open>libjson.c\<close> as its provider.
\<close>

section \<open>The contract\<close>

locale chain_ops =
  fixes arr :: "'h \<Rightarrow> nat \<Rightarrow> nat list \<Rightarrow> bool" and single :: "'h \<Rightarrow> nat \<Rightarrow> bool"
    and detach :: "'h \<Rightarrow> nat \<Rightarrow> int \<Rightarrow> (nat option \<times> 'h) cres"
    and put_in :: "nat \<Rightarrow> 'h \<Rightarrow> nat \<Rightarrow> int \<Rightarrow> nat \<Rightarrow> 'h cres"
  assumes arr_distinct: "arr h a xs \<Longrightarrow> distinct (a # xs)"
    and detach_hit: "arr h a xs \<Longrightarrow> nat k < length xs \<Longrightarrow>
      \<exists>h'. detach h a k = Inr (Some (xs ! nat k), h') \<and> arr h' a (take (nat k) xs @ drop (Suc (nat k)) xs) \<and>
        single h' (xs ! nat k)"
    and detach_miss: "arr h a xs \<Longrightarrow> length xs \<le> nat k \<Longrightarrow> detach h a k = Inr (None, h)"
    and put_in_law: "arr h a xs \<Longrightarrow> single h i \<Longrightarrow> i \<notin> set (a # xs) \<Longrightarrow> length xs \<le> f \<Longrightarrow>
      \<exists>h'. put_in f h a k i = Inr h' \<and> arr h' a (take (nat k) xs @ i # drop (nat k) xs)"
begin

fun move :: "nat \<Rightarrow> 'h \<Rightarrow> nat \<Rightarrow> int \<times> int \<Rightarrow> 'h cres" where
  "move f h a (k, j) =
     cbind (detach h a k) (\<lambda>(c, h1). case c of None \<Rightarrow> Inr h1 | Some i \<Rightarrow> put_in f h1 a j i)"

fun moves :: "nat \<Rightarrow> 'h \<Rightarrow> nat \<Rightarrow> (int \<times> int) list \<Rightarrow> 'h cres" where
  "moves f h a [] = Inr h"
| "moves f h a (m # ms) = cbind (move f h a m) (\<lambda>h1. moves f h1 a ms)"

definition moved :: "int \<times> int \<Rightarrow> nat list \<Rightarrow> nat list" where
  "moved m xs =
     (let k = nat (fst m); j = nat (snd m); rest = take k xs @ drop (Suc k) xs
      in if k < length xs then take j rest @ xs ! k # drop j rest else xs)"

lemma mset_moved: "mset (moved m xs) = mset xs"
proof (cases "nat (fst m) < length xs")
  case True
  let ?k = "nat (fst m)" and ?rest = "take (nat (fst m)) xs @ drop (Suc (nat (fst m))) xs"
  have "mset (take (nat (snd m)) ?rest @ drop (nat (snd m)) ?rest) = mset ?rest" by (simp only: append_take_drop_id)
  then have "mset (moved m xs) = mset (take ?k xs @ xs ! ?k # drop (Suc ?k) xs)"
    using True unfolding moved_def Let_def by simp
  then show ?thesis using id_take_nth_drop [OF True] by simp
qed (simp add: moved_def)

lemma move_moved:
  assumes "arr h a xs" "length xs \<le> f"
  shows "\<exists>h'. move f h a m = Inr h' \<and> arr h' a (moved m xs)"
proof (cases "nat (fst m) < length xs")
  case True
  let ?k = "nat (fst m)"
  obtain h1 where d: "detach h a (fst m) = Inr (Some (xs ! ?k), h1)" "arr h1 a (take ?k xs @ drop (Suc ?k) xs)"
    "single h1 (xs ! ?k)" using detach_hit [OF assms(1) True] by blast
  have "distinct (a # take ?k xs @ xs ! ?k # drop (Suc ?k) xs)"
    using arr_distinct [OF assms(1)] id_take_nth_drop [OF True] by simp
  then have "xs ! ?k \<notin> set (a # take ?k xs @ drop (Suc ?k) xs)" by auto
  from put_in_law [OF d(2,3) this, of f "snd m"] assms(2) show ?thesis
    using d(1) True by (cases m) (auto simp: moved_def Let_def)
next
  case False
  then show ?thesis using detach_miss [OF assms(1), of "fst m"] assms(1) by (cases m) (simp add: moved_def)
qed

text \<open>Any sequence of moves runs, and leaves the chain a rearrangement of what it was.\<close>

lemma moves_permute:
  "arr h a xs \<Longrightarrow> length xs \<le> f \<Longrightarrow>
    \<exists>h' ys. moves f h a ms = Inr h' \<and> arr h' a ys \<and> mset ys = mset xs \<and> ys = fold moved ms xs"
proof (induction ms arbitrary: h xs)
  case (Cons m ms)
  obtain h1 where h1: "move f h a m = Inr h1" "arr h1 a (moved m xs)" using move_moved [OF Cons.prems] by blast
  have "length (moved m xs) \<le> f" using mset_eq_length [OF mset_moved] Cons.prems(2) by simp
  from Cons.IH [OF h1(2) this] show ?case using h1(1) by (auto simp: mset_moved)
qed simp

end

section \<open>The provider\<close>

interpretation chain: chain_ops array_of loose cJSON_DetachItemFromArray cJSON_InsertItemInArray
proof
  show "distinct (a # xs)" if "array_of h a xs" for h a xs using that by (auto simp: array_of_def)
  show "\<exists>h'. cJSON_DetachItemFromArray h a k = Inr (Some (xs ! nat k), h') \<and>
      array_of h' a (take (nat k) xs @ drop (Suc (nat k)) xs) \<and> loose h' (xs ! nat k)"
    if "array_of h a xs" "nat k < length xs" for h a xs k
    using detach_array [OF that(1), of k] that(2) by auto
  show "cJSON_DetachItemFromArray h a k = Inr (None, h)" if "array_of h a xs" "length xs \<le> nat k" for h a xs k
    using detach_array [OF that(1), of k] that(2) by auto
  show "\<exists>h'. cJSON_InsertItemInArray f h a k i = Inr h' \<and> array_of h' a (take (nat k) xs @ i # drop (nat k) xs)"
    if "array_of h a xs" "loose h i" "i \<notin> set (a # xs)" "length xs \<le> f" for h a xs i f k
    using insert_array [OF that, of k] by blast
qed

text \<open>
  Items moved by detaching and inserting, any number of times and whatever the positions, leave a chain
  that holds the same items in the order that moving them in the list gives.
\<close>

lemma json_moves:
  assumes "array_of h a xs" "length xs \<le> f"
  shows "\<exists>h' ys. chain.moves f h a ms = Inr h' \<and> array_of h' a ys \<and> mset ys = mset xs \<and> ys = fold chain.moved ms xs"
  by (rule chain.moves_permute [OF assms])

end
