(* ===== verification/Json_Mem.thy ===== *)
theory Json_Mem
  imports Json_Api
begin

unbundle bit_operations_syntax

text \<open>
  The allocations of \<^verbatim>\<open>libjson.c\<close> that can fail: the allocator behind \<^verbatim>\<open>cJSON_malloc\<close>, deleting, the
  constructors and copying. What \<^verbatim>\<open>malloc\<close> answers is a list, and the number of blocks that are out is
  counted. A function that gives an item back must have as many blocks more out as \<^verbatim>\<open>cJSON_Delete\<close> will
  free, and one that gives none must have as many as before.
\<close>

section \<open>The allocator\<close>

text \<open>\<open>m_answers\<close> tells for the calls to come whether they succeed; behind its end all do.\<close>

record mem =
  m_answers :: "bool list"
  m_live :: int

definition malloc :: "mem \<Rightarrow> bool \<times> mem" where
  "malloc m =
     (case m_answers m of
        [] \<Rightarrow> (True, m\<lparr>m_live := m_live m + 1\<rparr>)
      | a # as \<Rightarrow> (a, m\<lparr>m_answers := as, m_live := m_live m + (if a then 1 else 0)\<rparr>))"

definition free :: "mem \<Rightarrow> mem" where
  "free m = m\<lparr>m_live := m_live m - 1\<rparr>"

definition willing :: "mem \<Rightarrow> bool" where
  "willing m \<longleftrightarrow> set (m_answers m) \<subseteq> {True}"

text \<open>The functions that \<^verbatim>\<open>cJSON_InitHooks\<close> puts in place; \<open>std\<close> are those of the C library.\<close>

record ('m, 'f) hooks =
  malloc_fn :: 'm
  free_fn :: 'f

definition cJSON_InitHooks ::
  "('m, 'f) hooks \<Rightarrow> ('m option, 'f option) hooks option \<Rightarrow> ('m, 'f) hooks" where
  "cJSON_InitHooks std hooks =
     (case hooks of
        None \<Rightarrow> std
      | Some h \<Rightarrow> \<lparr>malloc_fn = (case malloc_fn h of None \<Rightarrow> malloc_fn std | Some m \<Rightarrow> m),
                   free_fn = (case free_fn h of None \<Rightarrow> free_fn std | Some f \<Rightarrow> f)\<rparr>)"

text \<open>
  The result of an operation that makes something of \<open>n\<close> blocks, and what follows an allocation.
\<close>

definition gives :: "mem \<Rightarrow> int \<Rightarrow> mem \<Rightarrow> bool" where
  "gives m n m' \<longleftrightarrow> m_live m' = m_live m + n \<and> (willing m \<longrightarrow> willing m')"

lemma gives_refl [simp]: "gives m 0 m"
  by (simp add: gives_def)

lemma gives_trans: "gives m a m1 \<Longrightarrow> gives m1 b m2 \<Longrightarrow> gives m (a + b) m2"
  by (simp add: gives_def)

lemma gives_eq: "gives m a m' \<Longrightarrow> a = b \<Longrightarrow> gives m b m'"
  by simp

lemma gives_free: "gives m a m1 \<Longrightarrow> gives m (a - 1) (free m1)"
  by (simp add: gives_def free_def willing_def)

lemma malloc_gives: "malloc m = (ok, m1) \<Longrightarrow> gives m (if ok then 1 else 0) m1"
  by (auto simp: malloc_def gives_def willing_def split: list.splits)

lemma malloc_willing: "malloc m = (ok, m1) \<Longrightarrow> willing m \<Longrightarrow> ok"
  by (auto simp: malloc_def willing_def split: list.splits)

section \<open>Deleting\<close>

text \<open>\<^verbatim>\<open>cJSON_Delete\<close> on one item of a chain; the loop goes over the chain.\<close>

definition is_reference :: "jnode \<Rightarrow> bool" where
  "is_reference n \<longleftrightarrow> j_type n AND 256 \<noteq> 0"

definition string_is_const :: "jnode \<Rightarrow> bool" where
  "string_is_const n \<longleftrightarrow> j_type n AND 512 \<noteq> 0"

fun delete_item :: "cjson \<Rightarrow> mem \<Rightarrow> mem" where
  "delete_item (CJ n cs) m =
     (let m1 = (if \<not> is_reference n then fold delete_item cs m else m);
          m2 = (if \<not> is_reference n \<and> j_valuestring n \<noteq> None then free m1 else m1);
          m3 = (if \<not> string_is_const n \<and> j_string n \<noteq> None then free m2 else m2)
      in free m3)"

text \<open>The blocks it frees.\<close>

fun blocks :: "cjson \<Rightarrow> int" where
  "blocks (CJ n cs) = 1 +
     (if is_reference n then 0 else sum_list (map blocks cs) + (if j_valuestring n = None then 0 else 1)) +
     (if string_is_const n \<or> j_string n = None then 0 else 1)"

lemma fold_gives: "(\<And>c m. c \<in> set cs \<Longrightarrow> gives m (- b c) (f c m)) \<Longrightarrow> gives m (- sum_list (map b cs)) (fold f cs m)"
proof (induction cs arbitrary: m)
  case (Cons c cs)
  show ?case using gives_trans [OF Cons.prems [of c m] Cons.IH [of "f c m"]] Cons.prems by (simp add: gives_def)
qed simp

lemma delete_gives: "gives m (- blocks t) (delete_item t m)"
proof (induction t arbitrary: m)
  case (CJ n cs)
  have "gives m (- sum_list (map blocks cs)) (fold delete_item cs m)" using CJ by (rule fold_gives)
  then show ?case by (auto simp: Let_def gives_def free_def willing_def)
qed

lemma delete_after: "gives m (blocks t) m1 \<Longrightarrow> gives m 0 (delete_item t m1)"
  using gives_trans [of m "blocks t" m1 "- blocks t" "delete_item t m1"] delete_gives [of m1 t] by simp

section \<open>Making items\<close>

definition new_item_mem :: "mem \<Rightarrow> jnode option \<times> mem" where
  "new_item_mem m = (let (ok, m1) = malloc m in (if ok then Some new_item else None, m1))"

definition cJSON_strdup :: "string \<Rightarrow> mem \<Rightarrow> string option \<times> mem" where
  "cJSON_strdup s m = (let (ok, m1) = malloc m in (if ok then Some s else None, m1))"

definition create_type_mem :: "int \<Rightarrow> mem \<Rightarrow> cjson option \<times> mem" where
  "create_type_mem t m =
     (let (item, m1) = new_item_mem m in (map_option (\<lambda>n. CJ (n\<lparr>j_type := t\<rparr>) []) item, m1))"

definition create_number_mem :: "dbl \<Rightarrow> mem \<Rightarrow> cjson option \<times> mem" where
  "create_number_mem num m =
     (let (item, m1) = new_item_mem m
      in (map_option (\<lambda>n. CJ (n\<lparr>j_type := cJSON_Number, j_valuedouble := num, j_valueint := d_to_int num\<rparr>) []) item, m1))"

definition create_string_mem :: "string \<Rightarrow> mem \<Rightarrow> cjson option \<times> mem" where
  "create_string_mem s m =
     (case new_item_mem m of
        (None, m1) \<Rightarrow> (None, m1)
      | (Some n, m1) \<Rightarrow>
          (case cJSON_strdup s m1 of
             (None, m2) \<Rightarrow> (None, delete_item (CJ (n\<lparr>j_type := cJSON_String\<rparr>) []) m2)
           | (Some d, m2) \<Rightarrow> (Some (CJ (n\<lparr>j_type := cJSON_String, j_valuestring := Some d\<rparr>) []), m2)))"

text \<open>
  The loop that puts what \<open>mk\<close> makes of the elements behind each other under \<open>a\<close>, and gives up with all of it
  when one cannot be made; the array constructors and the copying of children run it.
\<close>

fun gather :: "('a \<Rightarrow> mem \<Rightarrow> cjson option \<times> mem) \<Rightarrow> 'a list \<Rightarrow> cjson \<Rightarrow> mem \<Rightarrow> cjson option \<times> mem" where
  "gather mk [] a m = (Some a, m)"
| "gather mk (x # xs) a m =
     (case mk x m of
        (None, m1) \<Rightarrow> (None, delete_item a m1)
      | (Some c, m1) \<Rightarrow> gather mk xs (CJ (cj_node a) (cj_child a @ [c])) m1)"

lemma gather_cong [fundef_cong]:
  assumes "xs = ys" "a = b" "m = m'" "\<And>x m. x \<in> set ys \<Longrightarrow> f x m = g x m"
  shows "gather f xs a m = gather g ys b m'"
proof -
  have "gather f ys b m = gather g ys b m" using assms(4)
    by (induction ys arbitrary: b m) (auto split: prod.split option.split)
  then show ?thesis using assms by simp
qed

definition create_array_mem :: "('a \<Rightarrow> mem \<Rightarrow> cjson option \<times> mem) \<Rightarrow> 'a list \<Rightarrow> mem \<Rightarrow> cjson option \<times> mem" where
  "create_array_mem mk xs m =
     (case create_type_mem cJSON_Array m of (None, m1) \<Rightarrow> (None, m1) | (Some a, m1) \<Rightarrow> gather mk xs a m1)"

text \<open>\<^verbatim>\<open>cJSON_Duplicate\<close>; \<open>copy_text\<close> is the copying of one of its strings.\<close>

definition copy_text :: "string option \<Rightarrow> mem \<Rightarrow> bool \<times> string option \<times> mem" where
  "copy_text s m =
     (case s of
        None \<Rightarrow> (True, None, m)
      | Some t \<Rightarrow> (case cJSON_strdup t m of (d, m1) \<Rightarrow> (d \<noteq> None, d, m1)))"

fun duplicate_mem :: "bool \<Rightarrow> cjson \<Rightarrow> mem \<Rightarrow> cjson option \<times> mem" where
  "duplicate_mem recurse (CJ n cs) m =
     (case new_item_mem m of
        (None, m1) \<Rightarrow> (None, m1)
      | (Some i, m1) \<Rightarrow>
          (let new = i\<lparr>j_type := j_type n AND NOT 256, j_valueint := j_valueint n, j_valuedouble := j_valuedouble n\<rparr>
           in case copy_text (j_valuestring n) m1 of (ok, vs, m2) \<Rightarrow>
                if \<not> ok then (None, delete_item (CJ new []) m2)
                else case copy_text (j_string n) m2 of (ok', s, m3) \<Rightarrow>
                  let new' = new\<lparr>j_valuestring := vs, j_string := s\<rparr>
                  in if \<not> ok' then (None, delete_item (CJ new' []) m3)
                     else if \<not> recurse then (Some (CJ new' []), m3)
                     else gather (duplicate_mem True) cs (CJ new' []) m3))"

section \<open>The contract of a maker\<close>

text \<open>What an operation promises that makes an item of an argument, if it is a good one: \<open>val\<close> is the item.\<close>

locale item_maker =
  fixes mk :: "'a \<Rightarrow> mem \<Rightarrow> cjson option \<times> mem" and good :: "'a \<Rightarrow> bool" and val :: "'a \<Rightarrow> cjson"
  assumes balanced: "good x \<Longrightarrow> mk x m = (r, m') \<Longrightarrow> gives m (case r of None \<Rightarrow> 0 | Some c \<Rightarrow> blocks c) m'"
    and makes: "good x \<Longrightarrow> mk x m = (Some c, m') \<Longrightarrow> c = val x"
    and returns: "good x \<Longrightarrow> willing m \<Longrightarrow> fst (mk x m) \<noteq> None"
begin

lemma gather_all:
  assumes "gather mk xs a m1 = (r, m')" "gives m (blocks a) m1" "\<not> is_reference (cj_node a)" "list_all good xs"
  shows "gives m (case r of None \<Rightarrow> 0 | Some c \<Rightarrow> blocks c) m' \<and>
    (case r of None \<Rightarrow> \<not> willing m | Some c \<Rightarrow> c = CJ (cj_node a) (cj_child a @ map val xs))"
  using assms
proof (induction xs arbitrary: a m1)
  case (Cons x xs)
  obtain q m2 where q: "mk x m1 = (q, m2)" by fastforce
  have b: "gives m1 (case q of None \<Rightarrow> 0 | Some c \<Rightarrow> blocks c) m2" using balanced [OF _ q] Cons.prems(4) by simp
  show ?case
  proof (cases q)
    case None
    then have "gives m (blocks a) m2" using gives_trans [OF Cons.prems(2) b] by simp
    moreover have "\<not> willing m" using returns [of x m1] q None Cons.prems(2,4) by (auto simp: gives_def)
    ultimately show ?thesis using Cons.prems(1) delete_after q None by auto
  next
    case (Some c)
    let ?a = "CJ (cj_node a) (cj_child a @ [c])"
    have "gives m (blocks ?a) m2" using gives_trans [OF Cons.prems(2) b] Some Cons.prems(3) by (cases a) (simp add: ac_simps)
    moreover have "c = val x" using makes q Some Cons.prems(4) by simp
    ultimately show ?thesis using Cons.IH [of ?a m2] Cons.prems q Some by (auto split: option.splits)
  qed
qed (auto split: option.splits)

end

lemma new_item_fields [simp]:
  "j_valuestring new_item = None" "j_string new_item = None" "j_type new_item = 0"
  by (simp_all add: new_item_def)

lemma new_item_gives:
  assumes "new_item_mem m = (i, m1)"
  shows "gives m (case i of None \<Rightarrow> 0 | Some n \<Rightarrow> 1) m1" "i = None \<Longrightarrow> \<not> willing m" "i = Some n \<Longrightarrow> n = new_item"
  using assms malloc_gives [of m] malloc_willing [of m] by (auto simp: new_item_mem_def split: prod.splits if_splits)

lemma strdup_gives:
  assumes "cJSON_strdup s m = (d, m1)"
  shows "gives m (case d of None \<Rightarrow> 0 | Some t \<Rightarrow> 1) m1" "d = None \<Longrightarrow> \<not> willing m" "d = Some t \<Longrightarrow> t = s"
  using assms malloc_gives [of m] malloc_willing [of m] by (auto simp: cJSON_strdup_def split: prod.splits if_splits)

interpretation number: item_maker create_number_mem "\<lambda>_. True" cJSON_CreateNumber
proof
  fix x m r m'
  assume "create_number_mem x m = (r, m')"
  then show "gives m (case r of None \<Rightarrow> 0 | Some c \<Rightarrow> blocks c) m'"
    using new_item_gives [of m]
    by (fastforce simp: create_number_mem_def new_item_def is_reference_def string_is_const_def split: prod.splits option.splits)
next
  fix x m c m'
  assume "create_number_mem x m = (Some c, m')"
  then show "c = cJSON_CreateNumber x" using new_item_gives(3) [of m]
    by (auto simp: create_number_mem_def cJSON_CreateNumber_def split: prod.splits)
next
  fix x m
  assume "willing m"
  then show "fst (create_number_mem x m) \<noteq> None" using new_item_gives(2) [of m]
    by (cases "new_item_mem m") (auto simp: create_number_mem_def)
qed

definition string_item :: "string \<Rightarrow> cjson" where
  "string_item s = CJ (new_item\<lparr>j_type := cJSON_String, j_valuestring := Some s\<rparr>) []"

interpretation words: item_maker create_string_mem "\<lambda>_. True" string_item
proof
  fix x m r m'
  assume c: "create_string_mem x m = (r, m')"
  obtain i m1 where i: "new_item_mem m = (i, m1)" by fastforce
  show "gives m (case r of None \<Rightarrow> 0 | Some c \<Rightarrow> blocks c) m'"
  proof (cases i)
    case (Some n)
    obtain d m2 where d: "cJSON_strdup x m1 = (d, m2)" by fastforce
    have g: "gives m (1 + (case d of None \<Rightarrow> 0 | Some t \<Rightarrow> 1)) m2"
      using gives_trans [OF new_item_gives(1) [OF i] strdup_gives(1) [OF d]] Some by simp
    have n: "n = new_item" using new_item_gives(3) [OF i Some] .
    show ?thesis
    proof (cases d)
      case None
      then have "gives m 0 (delete_item (CJ (n\<lparr>j_type := cJSON_String\<rparr>) []) m2)"
        using g by (intro delete_after) (simp add: n new_item_def is_reference_def string_is_const_def)
      then show ?thesis using c i d Some None by (auto simp: create_string_mem_def)
    next
      case (Some t)
      then show ?thesis using c i d g \<open>i = Some n\<close>
        by (auto simp: create_string_mem_def n new_item_def is_reference_def string_is_const_def)
    qed
  qed (use c i new_item_gives(1) [OF i] in \<open>auto simp: create_string_mem_def\<close>)
next
  fix x m c m'
  assume "create_string_mem x m = (Some c, m')"
  then show "c = string_item x" using new_item_gives(3) strdup_gives(3)
    by (fastforce simp: create_string_mem_def string_item_def split: prod.splits option.splits)
next
  fix x m
  assume w: "willing m"
  obtain i m1 where i: "new_item_mem m = (i, m1)" by fastforce
  obtain d m2 where d: "cJSON_strdup x m1 = (d, m2)" by fastforce
  have "i \<noteq> None" "willing m1" using new_item_gives [OF i] w by (auto simp: gives_def)
  then show "fst (create_string_mem x m) \<noteq> None"
    using strdup_gives(2) [OF d] i d by (auto simp: create_string_mem_def split: option.splits)
qed

section \<open>Arrays\<close>

lemma create_array_gives:
  assumes "item_maker mk good val" "list_all good xs" "create_array_mem mk xs m = (r, m')"
  shows "gives m (case r of None \<Rightarrow> 0 | Some c \<Rightarrow> blocks c) m' \<and>
    (case r of None \<Rightarrow> \<not> willing m | Some c \<Rightarrow> c = CJ (new_item\<lparr>j_type := cJSON_Array\<rparr>) (map val xs))"
proof -
  obtain i m1 where i: "new_item_mem m = (i, m1)" by fastforce
  note n = new_item_gives [OF i]
  show ?thesis
  proof (cases i)
    case None
    then show ?thesis using assms(3) i n by (simp add: create_array_mem_def create_type_mem_def)
  next
    case (Some x)
    let ?a = "CJ (new_item\<lparr>j_type := cJSON_Array\<rparr>) []"
    have "gather mk xs ?a m1 = (r, m')"
      using assms(3) i Some n(3) by (simp add: create_array_mem_def create_type_mem_def)
    moreover have "gives m (blocks ?a) m1" "\<not> is_reference (cj_node ?a)"
      using n(1) Some by (simp_all add: new_item_def is_reference_def string_is_const_def)
    ultimately show ?thesis using item_maker.gather_all [OF assms(1) _ _ _ assms(2), of ?a m1 r m' m] by (auto split: option.splits)
  qed
qed

section \<open>Copies\<close>

text \<open>No key in the tree is marked as one that \<^verbatim>\<open>cJSON_Delete\<close> leaves alone.\<close>

fun plain_keys :: "cjson \<Rightarrow> bool" where
  "plain_keys (CJ n cs) \<longleftrightarrow> (string_is_const n \<longrightarrow> j_string n = None) \<and> (\<forall>c \<in> set cs. plain_keys c)"

lemma and_not_flags: "(i AND - 257) AND 256 = (0 :: int)" "(i AND - 257) AND 512 = i AND (512 :: int)"
proof -
  have "(- 257 AND 256 :: int) = 0" "(- 257 AND 512 :: int) = 512" by simp_all
  then show "(i AND - 257) AND 256 = 0" "(i AND - 257) AND 512 = i AND 512" by (metis and.assoc and_zero_eq)+
qed

lemma copy_text_gives:
  assumes "copy_text s m = (ok, d, m1)"
  shows "gives m (if d = None then 0 else 1) m1" "ok \<Longrightarrow> d = s" "\<not> ok \<Longrightarrow> d = None \<and> \<not> willing m"
  using assms strdup_gives [of _ m] by (fastforce simp: copy_text_def split: option.splits prod.splits)+

lemma duplicate_maker_step:
  assumes "item_maker (duplicate_mem True) (\<lambda>c. c \<in> set cs \<and> plain_keys c) (cJSON_Duplicate True)"
    and "plain_keys (CJ n cs)" "duplicate_mem recurse (CJ n cs) m = (r, m')"
  shows "gives m (case r of None \<Rightarrow> 0 | Some c \<Rightarrow> blocks c) m' \<and>
    (case r of None \<Rightarrow> \<not> willing m | Some c \<Rightarrow> c = cJSON_Duplicate recurse (CJ n cs))"
proof -
  obtain i m1 where i: "new_item_mem m = (i, m1)" by fastforce
  note ig = new_item_gives [OF i]
  show ?thesis
  proof (cases i)
    case None
    then show ?thesis using assms(3) i ig by simp
  next
    case (Some x)
    let ?new = "new_item\<lparr>j_type := j_type n AND NOT 256, j_valueint := j_valueint n, j_valuedouble := j_valuedouble n\<rparr>"
    obtain ok vs m2 where v: "copy_text (j_valuestring n) m1 = (ok, vs, m2)" by (metis prod_cases3)
    obtain ok' s m3 where k: "copy_text (j_string n) m2 = (ok', s, m3)" by (metis prod_cases3)
    let ?new' = "?new\<lparr>j_valuestring := vs, j_string := s\<rparr>"
    note vg = copy_text_gives [OF v] and kg = copy_text_gives [OF k]
    have flags: "\<not> is_reference ?new" "\<not> is_reference ?new'" "string_is_const ?new' \<longleftrightarrow> string_is_const n"
      by (simp_all add: is_reference_def string_is_const_def and_not_flags)
    have g2: "gives m (1 + (if vs = None then 0 else 1)) m2"
      using gives_trans [OF ig(1) vg(1)] Some by simp
    have g3: "gives m (1 + (if vs = None then 0 else 1) + (if s = None then 0 else 1)) m3"
      by (rule gives_trans [OF g2 kg(1)])
    have d: "duplicate_mem recurse (CJ n cs) m =
        (if \<not> ok then (None, delete_item (CJ ?new []) m2)
         else if \<not> ok' then (None, delete_item (CJ ?new' []) m3)
         else if \<not> recurse then (Some (CJ ?new' []), m3) else gather (duplicate_mem True) cs (CJ ?new' []) m3)"
      using i Some ig(3) [OF Some] v k by (simp add: Let_def)
    have key: "s = None" if "string_is_const n" "ok'" using that assms(2) kg(2) by simp
    consider "\<not> ok" | "ok" "\<not> ok'" | "ok" "ok'" by blast
    then show ?thesis
    proof cases
      case 1
      then have "gives m (blocks (CJ ?new [])) m2" using g2 vg(3) flags by simp
      moreover have "r = None" "m' = delete_item (CJ ?new []) m2" using d assms(3) 1 by (simp_all only: if_True simp_thms prod.inject)
      moreover have "\<not> willing m" using vg(3) 1 ig(1) by (auto simp: gives_def)
      ultimately show ?thesis using delete_after by (simp del: delete_item.simps blocks.simps)
    next
      case 2
      then have "gives m (blocks (CJ ?new' [])) m3" using g3 kg(3) flags by simp
      moreover have "r = None" "m' = delete_item (CJ ?new' []) m3"
        using d assms(3) 2 by (simp_all only: if_True if_False simp_thms prod.inject)
      moreover have "\<not> willing m" using kg(3) 2 g2 by (auto simp: gives_def)
      ultimately show ?thesis using delete_after by (simp del: delete_item.simps blocks.simps)
    next
      case 3
      then have a: "gives m (blocks (CJ ?new' [])) m3" using g3 flags key by auto
      have e: "vs = j_valuestring n" "s = j_string n" using 3 vg(2) kg(2) by simp_all
      have c: "?new' = n\<lparr>j_type := j_type n AND NOT 256\<rparr>" using e by (simp add: new_item_def)
      show ?thesis
      proof (cases recurse)
        case True
        have "list_all (\<lambda>c. c \<in> set cs \<and> plain_keys c) cs" using assms(2) by (simp add: list_all_iff)
        moreover have "gather (duplicate_mem True) cs (CJ ?new' []) m3 = (r, m')" using d assms(3) 3 True by simp
        ultimately show ?thesis
          using item_maker.gather_all [OF assms(1) _ a, of cs r m'] flags(2) True c by (auto split: option.splits)
      next
        case False
        have "r = Some (CJ ?new' [])" "m' = m3"
          using d assms(3) 3 False by (simp_all only: if_True if_False simp_thms prod.inject)
        moreover have "cJSON_Duplicate recurse (CJ n cs) = CJ ?new' []" unfolding c using False by simp
        ultimately show ?thesis using a by (simp only: option.case simp_thms)
      qed
    qed
  qed
qed

lemma duplicate_maker: "item_maker (duplicate_mem True) (\<lambda>c. c \<in> S \<and> plain_keys c) (cJSON_Duplicate True)"
proof -
  have one: "gives m (case r of None \<Rightarrow> 0 | Some c \<Rightarrow> blocks c) m' \<and>
      (case r of None \<Rightarrow> \<not> willing m | Some c \<Rightarrow> c = cJSON_Duplicate True t)"
    if "plain_keys t" "duplicate_mem True t m = (r, m')" for t m r m'
    using that
  proof (induction t arbitrary: m r m')
    case (CJ n cs)
    have "item_maker (duplicate_mem True) (\<lambda>c. c \<in> set cs \<and> plain_keys c) (cJSON_Duplicate True)"
    proof
      fix c m r m'
      assume "c \<in> set cs \<and> plain_keys c" "duplicate_mem True c m = (r, m')"
      then show "gives m (case r of None \<Rightarrow> 0 | Some c \<Rightarrow> blocks c) m'" using CJ.IH by blast
    next
      fix c m d m'
      assume "c \<in> set cs \<and> plain_keys c" "duplicate_mem True c m = (Some d, m')"
      then show "d = cJSON_Duplicate True c" using CJ.IH [of c m "Some d" m'] by simp
    next
      fix c m
      assume "c \<in> set cs \<and> plain_keys c" "willing m"
      then show "fst (duplicate_mem True c m) \<noteq> None"
        using CJ.IH [of c m "fst (duplicate_mem True c m)" "snd (duplicate_mem True c m)"] by (auto split: option.splits)
    qed
    then show ?case using CJ.prems by (rule duplicate_maker_step)
  qed
  show ?thesis
  proof
    fix c m r m'
    assume "c \<in> S \<and> plain_keys c" "duplicate_mem True c m = (r, m')"
    then show "gives m (case r of None \<Rightarrow> 0 | Some c \<Rightarrow> blocks c) m'" using one by blast
  next
    fix c m d m'
    assume "c \<in> S \<and> plain_keys c" "duplicate_mem True c m = (Some d, m')"
    then show "d = cJSON_Duplicate True c" using one [of c m "Some d" m'] by simp
  next
    fix c m
    assume "c \<in> S \<and> plain_keys c" "willing m"
    then show "fst (duplicate_mem True c m) \<noteq> None"
      using one [of c m "fst (duplicate_mem True c m)" "snd (duplicate_mem True c m)"] by (auto split: option.splits)
  qed
qed

interpretation copies: item_maker "duplicate_mem True" plain_keys "cJSON_Duplicate True"
  using duplicate_maker [of UNIV] by simp

text \<open>
  C19: Copying an item, in which no item has a name that it marks as constant, never leaks and never gives half
  a copy, whichever allocation fails: it gives the copy, with as many blocks more out as deleting it frees, or
  nothing, with none; and it gives the copy, the one of \<open>Json_Api\<close>, when no allocation fails. A constant name
  leaks (\<open>const_key_leaks\<close>).
\<close>

theorem json_duplicate_memory:
  assumes "plain_keys t" "duplicate_mem recurse t m = (r, m')"
  shows "m_live m' = m_live m + (case r of None \<Rightarrow> 0 | Some c \<Rightarrow> blocks c) \<and>
    (case r of None \<Rightarrow> \<not> willing m | Some c \<Rightarrow> c = cJSON_Duplicate recurse t)"
proof (cases t)
  case (CJ n cs)
  then show ?thesis using duplicate_maker_step [OF duplicate_maker, of n cs recurse m r m'] assms unfolding gives_def by blast
qed

definition sample_item :: cjson where
  "sample_item = CJ (new_item\<lparr>j_type := cJSON_Array\<rparr>) [string_item ''a'', string_item ''b'']"

theorem json_duplicate_memory_witness:
  "\<exists>m'. duplicate_mem True sample_item \<lparr>m_answers = [True, True, True, True, False], m_live = 7\<rparr> = (None, m') \<and> m_live m' = 7"
proof -
  let ?m = "\<lparr>m_answers = [True, True, True, True, False], m_live = 7\<rparr>"
  have ok: "plain_keys sample_item" by (simp add: sample_item_def string_item_def string_is_const_def)
  have "fst (duplicate_mem True sample_item ?m) = None"
    by (simp add: sample_item_def string_item_def new_item_mem_def cJSON_strdup_def copy_text_def malloc_def Let_def)
  then obtain m' where "duplicate_mem True sample_item ?m = (None, m')" by (metis prod.collapse)
  then show ?thesis using json_duplicate_memory [OF ok] by fastforce
qed

text \<open>
  The copy of an item with a constant key has a key of its own, but is still marked: nothing frees it.
\<close>

lemma const_key_leaks:
  assumes "string_is_const n" "j_string n \<noteq> None" "willing m"
  shows "\<exists>c m'. duplicate_mem recurse (CJ n []) m = (Some c, m') \<and> m_live (delete_item c m') = m_live m + 1"
proof -
  obtain i m1 where i: "new_item_mem m = (i, m1)" by fastforce
  obtain ok vs m2 where v: "copy_text (j_valuestring n) m1 = (ok, vs, m2)" by (metis prod_cases3)
  obtain ok' s m3 where k: "copy_text (j_string n) m2 = (ok', s, m3)" by (metis prod_cases3)
  note ig = new_item_gives [OF i] and vg = copy_text_gives [OF v] and kg = copy_text_gives [OF k]
  have w: "willing m1" "willing m2" using ig(1) vg(1) assms(3) by (auto simp: gives_def)
  have ok: "i = Some new_item" "ok" "ok'" using ig(2,3) vg(3) kg(3) w assms(3) by auto
  let ?c = "CJ (n\<lparr>j_type := j_type n AND NOT 256\<rparr>) []"
  have d: "duplicate_mem recurse (CJ n []) m = (Some ?c, m3)"
    using i v k ok vg(2) kg(2) by (cases n) (simp add: Let_def new_item_def)
  have "m_live m3 = m_live m + 2 + (if j_valuestring n = None then 0 else 1)"
    using ig(1) vg kg ok assms(2) by (auto simp: gives_def)
  moreover have "blocks ?c = 1 + (if j_valuestring n = None then 0 else 1)"
    using assms(1) by (simp add: is_reference_def string_is_const_def and_not_flags)
  ultimately show ?thesis using d delete_gives [of m3 ?c]
    by (auto simp: gives_def simp del: blocks.simps delete_item.simps duplicate_mem.simps)
qed

end
