(* ===== verification/Json_Mem_Parse.thy ===== *)
theory Json_Mem_Parse
  imports Json_Mem
begin

unbundle bit_operations_syntax

text \<open>
  The parser of \<^verbatim>\<open>libjson.c\<close> with allocations that can fail. What it has built so far hangs on the item it was
  given, also when it gives up, and \<^verbatim>\<open>cJSON_ParseWithOpts\<close> deletes it then.
\<close>

section \<open>The code\<close>

text \<open>How a parser ends: behind a value, with a place for the error pointer, without memory, or not at all.\<close>

datatype pstate = S_Ok string | S_Fail string | S_Mem | S_Fault c_fault | S_Fuel

text \<open>
  The buffer is put into the item before it is filled; what it holds when an escape is refused plays no
  part.
\<close>

definition parse_string_mem :: "jnode \<Rightarrow> string \<Rightarrow> mem \<Rightarrow> jnode \<times> pstate \<times> mem" where
  "parse_string_mem item str m =
     (case str of
        [] \<Rightarrow> (item, S_Fail str, m)
      | q # s \<Rightarrow>
          if q \<noteq> QUOTE then (item, S_Fail str, m)
          else case scan_string s of
            Inl e \<Rightarrow> (item, S_Fault e, m)
          | Inr (k, len) \<Rightarrow>
              (case malloc m of (ok, m1) \<Rightarrow>
                 if \<not> ok then (item, S_Mem, m1)
                 else case decode_string k s of
                   Inl e \<Rightarrow> (item, S_Fault e, m1)
                 | Inr None \<Rightarrow> (item\<lparr>j_valuestring := Some [], j_type := cJSON_String\<rparr>, S_Fail str, m1)
                 | Inr (Some out) \<Rightarrow>
                     if len < length out then (item, S_Fault Out_Of_Bounds, m1)
                     else (item\<lparr>j_valuestring := Some out, j_type := cJSON_String\<rparr>,
                           S_Ok (case drop k s of c # r \<Rightarrow> if c = QUOTE then r else c # r | [] \<Rightarrow> []), m1)))"

definition parse_bracket_mem ::
  "char \<Rightarrow> (string \<Rightarrow> mem \<Rightarrow> cjson list \<times> pstate \<times> mem) \<Rightarrow> jnode \<Rightarrow> string \<Rightarrow> mem \<Rightarrow> cjson \<times> pstate \<times> mem" where
  "parse_bracket_mem close entries item v m =
     (let w = skip (tl v)
      in if take 1 w = [close] then (CJ item [], S_Ok (tl w), m)
         else case entries w m of (cs, st, m1) \<Rightarrow>
           (CJ item cs,
            (case st of S_Ok r \<Rightarrow> if take 1 r = [close] then S_Ok (tl r) else S_Fail r | _ \<Rightarrow> st), m1))"

fun parse_value_mem :: "nat \<Rightarrow> jnode \<Rightarrow> string \<Rightarrow> mem \<Rightarrow> cjson \<times> pstate \<times> mem"
and parse_items_mem :: "nat \<Rightarrow> string \<Rightarrow> mem \<Rightarrow> cjson list \<times> pstate \<times> mem"
and parse_members_mem :: "nat \<Rightarrow> string \<Rightarrow> mem \<Rightarrow> cjson list \<times> pstate \<times> mem"
where
  "parse_value_mem 0 item v m = (CJ item [], S_Fuel, m)"
| "parse_value_mem (Suc f) item v m =
     (if prefix ''null'' v then (CJ (item\<lparr>j_type := cJSON_NULL\<rparr>) [], S_Ok (drop 4 v), m)
      else if prefix ''false'' v then (CJ (item\<lparr>j_type := cJSON_False\<rparr>) [], S_Ok (drop 5 v), m)
      else if prefix ''true'' v then (CJ (item\<lparr>j_type := cJSON_True, j_valueint := 1\<rparr>) [], S_Ok (drop 4 v), m)
      else case v of
        [] \<Rightarrow> (CJ item [], S_Fail v, m)
      | c # w \<Rightarrow>
          if c = QUOTE then (case parse_string_mem item v m of (n, st, m1) \<Rightarrow> (CJ n [], st, m1))
          else if c = CHR ''-'' \<or> isdigit_char c then
            (case parse_number v of (n, r) \<Rightarrow>
               (CJ (item\<lparr>j_valuedouble := n, j_valueint := d_to_int n, j_type := cJSON_Number\<rparr>) [], S_Ok r, m))
          else if c = CHR ''['' then
            parse_bracket_mem (CHR '']'') (parse_items_mem f) (item\<lparr>j_type := cJSON_Array\<rparr>) v m
          else if c = CHR ''{'' then
            parse_bracket_mem (CHR ''}'') (parse_members_mem f) (item\<lparr>j_type := cJSON_Object\<rparr>) v m
          else (CJ item [], S_Fail v, m))"
| "parse_items_mem 0 v m = ([], S_Fuel, m)"
| "parse_items_mem (Suc f) v m =
     (case new_item_mem m of
        (None, m1) \<Rightarrow> ([], S_Mem, m1)
      | (Some i, m1) \<Rightarrow>
          (case parse_value_mem f i (skip v) m1 of
             (c, S_Ok r, m2) \<Rightarrow>
               (let w = skip r
                in if take 1 w = '','' then (case parse_items_mem f (tl w) m2 of (cs, st, m3) \<Rightarrow> (c # cs, st, m3))
                   else ([c], S_Ok w, m2))
           | (c, st, m2) \<Rightarrow> ([c], st, m2)))"
| "parse_members_mem 0 v m = ([], S_Fuel, m)"
| "parse_members_mem (Suc f) v m =
     (case new_item_mem m of
        (None, m1) \<Rightarrow> ([], S_Mem, m1)
      | (Some i, m1) \<Rightarrow>
          (case parse_string_mem i (skip v) m1 of
             (n, S_Ok r, m2) \<Rightarrow>
               (let n' = n\<lparr>j_string := j_valuestring n, j_valuestring := None\<rparr>; w = skip r
                in if take 1 w \<noteq> '':'' then ([CJ n' []], S_Fail w, m2)
                   else case parse_value_mem f n' (skip (tl w)) m2 of
                     (c, S_Ok r', m3) \<Rightarrow>
                       (let w' = skip r'
                        in if take 1 w' = '','' then (case parse_members_mem f (tl w') m3 of (cs, st, m4) \<Rightarrow> (c # cs, st, m4))
                           else ([c], S_Ok w', m3))
                   | (c, st, m3) \<Rightarrow> ([c], st, m3))
           | (n, st, m2) \<Rightarrow> ([CJ n []], st, m2)))"

definition parse_opts_mem :: "string \<Rightarrow> bool \<Rightarrow> mem \<Rightarrow> cjson option \<times> pstate \<times> mem" where
  "parse_opts_mem value require_null_terminated m =
     (case new_item_mem m of
        (None, m1) \<Rightarrow> (None, S_Mem, m1)
      | (Some i, m1) \<Rightarrow>
          (let v = skip value
           in case parse_value_mem (json_fuel v) i v m1 of
                (c, S_Ok end, m2) \<Rightarrow>
                  if require_null_terminated then
                    (let end' = skip end
                     in if end' \<noteq> [] then (None, S_Fail end', delete_item c m2) else (Some c, S_Ok end', m2))
                  else (Some c, S_Ok end, m2)
              | (c, st, m2) \<Rightarrow> (None, st, delete_item c m2)))"

section \<open>Against the parser that never runs out\<close>

text \<open>The plain result that an ending stands for, if it is not the lack of memory.\<close>

definition agrees :: "'a \<times> pstate \<times> mem \<Rightarrow> 'a pres \<Rightarrow> bool" where
  "agrees r p \<longleftrightarrow> (case r of (x, st, m) \<Rightarrow>
     (case st of S_Ok e \<Rightarrow> p = P_Ok x e | S_Fail e \<Rightarrow> p = P_Fail e | S_Mem \<Rightarrow> True
      | S_Fault e \<Rightarrow> p = P_Fault e | S_Fuel \<Rightarrow> p = P_Fuel))"

text \<open>The blocks: what is built has grown by what is out, unless the run has met a fault.\<close>

definition grown :: "mem \<Rightarrow> int \<Rightarrow> pstate \<Rightarrow> mem \<Rightarrow> bool" where
  "grown m n st m' \<longleftrightarrow> (\<exists>e. st = S_Fault e) \<or> gives m n m' \<and> (st = S_Mem \<longrightarrow> \<not> willing m)"

text \<open>An item that the parser is given: no flags, and no string as value.\<close>

definition fresh_node :: "jnode \<Rightarrow> bool" where
  "fresh_node n \<longleftrightarrow> \<not> is_reference n \<and> \<not> string_is_const n \<and> j_valuestring n = None"

lemma flagless [simp]:
  "is_reference (n\<lparr>j_type := t\<rparr>) \<longleftrightarrow> t AND 256 \<noteq> 0" "string_is_const (n\<lparr>j_type := t\<rparr>) \<longleftrightarrow> t AND 512 \<noteq> 0"
  "is_reference (n\<lparr>j_valueint := i\<rparr>) = is_reference n" "string_is_const (n\<lparr>j_valueint := i\<rparr>) = string_is_const n"
  "is_reference (n\<lparr>j_valuedouble := d\<rparr>) = is_reference n" "string_is_const (n\<lparr>j_valuedouble := d\<rparr>) = string_is_const n"
  "is_reference (n\<lparr>j_valuestring := s\<rparr>) = is_reference n" "string_is_const (n\<lparr>j_valuestring := s\<rparr>) = string_is_const n"
  "is_reference (n\<lparr>j_string := s\<rparr>) = is_reference n" "string_is_const (n\<lparr>j_string := s\<rparr>) = string_is_const n"
  "\<not> is_reference new_item" "\<not> string_is_const new_item"
  by (simp_all add: is_reference_def string_is_const_def)

lemma parse_string_cases:
  assumes "parse_string_mem n str m = (n', st, m')"
  obtains (bad) "n' = n" "st = S_Fail str" "m' = m" "parse_string str = P_Fail str"
  | (fault) e where "st = S_Fault e" "parse_string str = P_Fault e"
  | (nomem) "n' = n" "st = S_Mem" "malloc m = (False, m')"
  | (invalid) "n' = n\<lparr>j_valuestring := Some [], j_type := cJSON_String\<rparr>" "st = S_Fail str" "malloc m = (True, m')"
      "parse_string str = P_Fail str"
  | (ok) s r where "n' = n\<lparr>j_valuestring := Some s, j_type := cJSON_String\<rparr>" "st = S_Ok r" "malloc m = (True, m')"
      "parse_string str = P_Ok s r"
proof (cases "\<exists>s. str = QUOTE # s")
  case False
  then show ?thesis using assms bad by (cases str) (auto simp: parse_string_mem_def parse_string_def)
next
  case True
  then obtain s where s: "str = QUOTE # s" by blast
  obtain good m1 where a: "malloc m = (good, m1)" by fastforce
  show ?thesis
  proof (cases "scan_string s")
    case (Inl e)
    then show ?thesis using assms s fault by (auto simp: parse_string_mem_def parse_string_def)
  next
    case (Inr kl)
    obtain k len where kl: "kl = (k, len)" by (cases kl)
    show ?thesis
    proof (cases good)
      case False
      then show ?thesis using assms s a Inr kl nomem by (auto simp: parse_string_mem_def)
    next
      case True
      show ?thesis
      proof (cases "decode_string k s")
        case (Inl e)
        then show ?thesis using assms s a Inr kl True fault by (auto simp: parse_string_mem_def parse_string_def)
      next
        case d: (Inr out)
        show ?thesis
        proof (cases out)
          case None
          then show ?thesis using assms s a Inr kl True d invalid by (auto simp: parse_string_mem_def parse_string_def)
        next
          case (Some x)
          then show ?thesis using assms s a Inr kl True d ok fault
            by (cases "len < length x") (auto simp: parse_string_mem_def parse_string_def)
        qed
      qed
    qed
  qed
qed

lemma parse_string_grown:
  assumes "parse_string_mem n str m = (n', st, m')" "fresh_node n"
  shows "grown m (blocks (CJ n' []) - blocks (CJ n [])) st m'"
  using assms(1)
proof (cases rule: parse_string_cases)
  case nomem
  then show ?thesis using malloc_gives [of m] malloc_willing [of m] by (auto simp: grown_def)
qed (use malloc_gives [of m] assms(2) in \<open>auto simp: grown_def fresh_node_def\<close>)

lemma agrees_simps [simp]:
  "agrees (x, S_Ok e, m) p \<longleftrightarrow> p = P_Ok x e" "agrees (x, S_Fail e, m) p \<longleftrightarrow> p = P_Fail e" "agrees (x, S_Mem, m) p"
  "agrees (x, S_Fault c, m) p \<longleftrightarrow> p = P_Fault c" "agrees (x, S_Fuel, m) p \<longleftrightarrow> p = P_Fuel"
  by (simp_all add: agrees_def)

lemma grown_trans: "gives m a m1 \<Longrightarrow> grown m1 b st m2 \<Longrightarrow> a + b = n \<Longrightarrow> grown m n st m2"
  using gives_trans by (auto simp: grown_def gives_def)

lemma grown_ok [simp]: "grown m n (S_Ok r) m' = gives m n m'" "grown m n (S_Fail r) m' = gives m n m'"
  by (auto simp: grown_def)

lemma grown_fault [simp]: "grown m n (S_Fault e) m'"
  by (simp add: grown_def)

lemma blocks_children: "\<not> is_reference n \<Longrightarrow> blocks (CJ n cs) = blocks (CJ n []) + sum_list (map blocks cs)"
  by simp

text \<open>One run against the plain one: what it built has \<open>n\<close> blocks.\<close>

definition sound :: "mem \<Rightarrow> int \<Rightarrow> 'a \<times> pstate \<times> mem \<Rightarrow> 'a pres \<Rightarrow> bool" where
  "sound m n r p \<longleftrightarrow> grown m n (fst (snd r)) (snd (snd r)) \<and> agrees r p"

lemma string_sound:
  assumes "fresh_node n" "parse_string_mem n str m = (n', st, m')"
  shows "sound m (blocks (CJ n' []) - blocks (CJ n [])) (CJ n' [], st, m')
    (pbind (parse_string str) (\<lambda>s r. P_Ok (CJ (n\<lparr>j_valuestring := Some s, j_type := cJSON_String\<rparr>) []) r))"
  using assms(2) parse_string_grown [OF assms(2,1)]
  by (cases rule: parse_string_cases) (auto simp: sound_def)

lemma bracket_sound:
  assumes entries: "\<And>w m. sound m (sum_list (map blocks (fst (mem_entries w m)))) (mem_entries w m) (entries w)"
    and "\<not> is_reference item"
  shows "sound m (blocks (fst (parse_bracket_mem close mem_entries item v m)) - blocks (CJ item []))
    (parse_bracket_mem close mem_entries item v m) (parse_bracket close entries item v)"
proof -
  let ?w = "skip (tl v)"
  obtain cs st m1 where e: "mem_entries ?w m = (cs, st, m1)" by (metis prod_cases3)
  have "sound m (sum_list (map blocks cs)) (cs, st, m1) (entries ?w)" using entries [of m ?w] e by simp
  then have g: "grown m (sum_list (map blocks cs)) st m1" "agrees (cs, st, m1) (entries ?w)" by (simp_all add: sound_def)
  show ?thesis
  proof (cases "take 1 ?w = [close]")
    case True
    then show ?thesis by (simp add: parse_bracket_mem_def parse_bracket_def sound_def Let_def)
  next
    case False
    then have "parse_bracket_mem close mem_entries item v m =
        (CJ item cs, (case st of S_Ok r \<Rightarrow> if take 1 r = [close] then S_Ok (tl r) else S_Fail r | _ \<Rightarrow> st), m1)"
      "parse_bracket close entries item v =
        pbind (entries ?w) (\<lambda>cs r. if take 1 r = [close] then P_Ok (CJ item cs) (tl r) else P_Fail r)"
      using e by (simp_all add: parse_bracket_mem_def parse_bracket_def Let_def)
    then show ?thesis using g blocks_children [OF assms(2), of cs]
      by (cases st) (simp_all add: sound_def grown_def del: blocks.simps)
  qed
qed

lemma more_sound:
  assumes "gives m (blocks c) m2" "sound m2 (sum_list (map blocks cs)) (cs, st, m3) p"
  shows "sound m (sum_list (map blocks (c # cs))) (c # cs, st, m3) (pbind p (\<lambda>cs r. P_Ok (c # cs) r))"
  using grown_trans [OF assms(1), of "sum_list (map blocks cs)" st m3] assms(2) by (cases st) (auto simp: sound_def)

lemma parse_sound:
  "fresh_node item \<Longrightarrow> sound m (blocks (fst (parse_value_mem f item v m)) - blocks (CJ item [])) (parse_value_mem f item v m)
     (parse_value f item v)"
  "sound m (sum_list (map blocks (fst (parse_items_mem f v m)))) (parse_items_mem f v m) (parse_items f v)"
  "sound m (sum_list (map blocks (fst (parse_members_mem f v m)))) (parse_members_mem f v m) (parse_members f v)"
proof (induction f arbitrary: v item m)
  case 0
  {
    case 1 then show ?case by (simp add: sound_def grown_def)
  next
    case 2 then show ?case by (simp add: sound_def grown_def)
  next
    case 3 then show ?case by (simp add: sound_def grown_def)
  }
next
  case (Suc f)
  {
    case 1
    have leaf: "blocks (CJ (item\<lparr>j_type := t\<rparr>) []) = blocks (CJ item [])" if "t AND 256 = 0" "t AND 512 = 0" for t
      using that 1 by (simp add: fresh_node_def)
    show ?case
    proof (cases "prefix ''null'' v \<or> prefix ''false'' v \<or> prefix ''true'' v")
      case True
      then show ?thesis using 1 by (auto simp: sound_def fresh_node_def)
    next
      case False
      show ?thesis
      proof (cases v)
        case Nil
        then show ?thesis by (simp add: sound_def)
      next
        case (Cons c w)
        obtain n st m1 where s: "parse_string_mem item v m = (n, st, m1)" by (metis prod_cases3)
        obtain d r where d: "parse_number v = (d, r)" by fastforce
        have none: "\<not> prefix ''null'' v" "\<not> prefix ''false'' v" "\<not> prefix ''true'' v" using False by simp_all
        note br = bracket_sound [where mem_entries = "parse_items_mem f" and entries = "parse_items f", OF Suc(2)]
          bracket_sound [where mem_entries = "parse_members_mem f" and entries = "parse_members f", OF Suc(3)]
        consider (quote) "c = QUOTE" | (num) "c \<noteq> QUOTE" "c = CHR ''-'' \<or> isdigit_char c"
          | (arr) "c = CHR ''[''" | (obj) "c = CHR ''{''"
          | (other) "c \<noteq> QUOTE" "\<not> (c = CHR ''-'' \<or> isdigit_char c)" "c \<noteq> CHR ''[''" "c \<noteq> CHR ''{''"
          by blast
        then show ?thesis
        proof cases
          case quote
          then have "parse_value_mem (Suc f) item v m = (CJ n [], st, m1)"
            "parse_value (Suc f) item v =
              pbind (parse_string v) (\<lambda>s r. P_Ok (CJ (item\<lparr>j_valuestring := Some s, j_type := cJSON_String\<rparr>) []) r)"
            using none Cons s by simp_all
          then show ?thesis using string_sound [OF 1 s] by (simp only: fst_conv)
        next
          case num
          then have "parse_value_mem (Suc f) item v m =
              (CJ (item\<lparr>j_valuedouble := d, j_valueint := d_to_int d, j_type := cJSON_Number\<rparr>) [], S_Ok r, m)"
            "parse_value (Suc f) item v =
              P_Ok (CJ (item\<lparr>j_valuedouble := d, j_valueint := d_to_int d, j_type := cJSON_Number\<rparr>) []) r"
            using none Cons d by auto
          then show ?thesis using 1 by (simp add: sound_def fresh_node_def)
        next
          case arr
          then have "parse_value_mem (Suc f) item v m = parse_bracket_mem (CHR '']'') (parse_items_mem f) (item\<lparr>j_type := cJSON_Array\<rparr>) v m"
            "parse_value (Suc f) item v = parse_bracket (CHR '']'') (parse_items f) (item\<lparr>j_type := cJSON_Array\<rparr>) v"
            using none Cons by (simp_all add: isdigit_char_def)
          then show ?thesis using br(1) [of "item\<lparr>j_type := cJSON_Array\<rparr>" m "CHR '']''" v] leaf [of cJSON_Array]
            by (simp del: blocks.simps parse_value.simps parse_value_mem.simps)
        next
          case obj
          then have "parse_value_mem (Suc f) item v m = parse_bracket_mem (CHR ''}'') (parse_members_mem f) (item\<lparr>j_type := cJSON_Object\<rparr>) v m"
            "parse_value (Suc f) item v = parse_bracket (CHR ''}'') (parse_members f) (item\<lparr>j_type := cJSON_Object\<rparr>) v"
            using none Cons by (simp_all add: isdigit_char_def)
          then show ?thesis using br(2) [of "item\<lparr>j_type := cJSON_Object\<rparr>" m "CHR ''}''" v] leaf [of cJSON_Object]
            by (simp del: blocks.simps parse_value.simps parse_value_mem.simps)
        next
          case other
          then have "parse_value_mem (Suc f) item v m = (CJ item [], S_Fail v, m)" "parse_value (Suc f) item v = P_Fail v"
            using none Cons by auto
          then show ?thesis by (simp add: sound_def del: blocks.simps)
        qed
      qed
    qed
  next
    case 2
    obtain i m1 where i: "new_item_mem m = (i, m1)" by fastforce
    note ig = new_item_gives [OF i]
    show ?case
    proof (cases i)
      case None
      then show ?thesis using i ig by (simp add: sound_def grown_def)
    next
      case (Some x)
      then have x: "x = new_item" using ig(3) by simp
      obtain c st m2 where v: "parse_value_mem f new_item (skip v) m1 = (c, st, m2)" by (metis prod_cases3)
      have c: "grown m1 (blocks c - 1) st m2" "agrees (c, st, m2) (parse_value f new_item (skip v))"
        using Suc(1) [of new_item m1 "skip v"] v by (simp_all add: sound_def fresh_node_def)
      have g: "grown m (blocks c) st m2" using grown_trans [OF ig(1) c(1), of "blocks c"] Some by simp
      show ?thesis
      proof (cases "\<exists>r. st = S_Ok r \<and> take 1 (skip r) = '',''")
        case False
        then have "parse_items_mem (Suc f) v m = ([c], (case st of S_Ok r \<Rightarrow> S_Ok (skip r) | _ \<Rightarrow> st), m2)"
          using i Some x v by (cases st) (simp_all add: Let_def)
        then show ?thesis using g c(2) False by (cases st) (auto simp: sound_def Let_def grown_def)
      next
        case True
        then obtain r where r: "st = S_Ok r" "take 1 (skip r) = '',''" by blast
        obtain cs st' m3 where n: "parse_items_mem f (tl (skip r)) m2 = (cs, st', m3)" by (metis prod_cases3)
        have "sound m2 (sum_list (map blocks cs)) (cs, st', m3) (parse_items f (tl (skip r)))"
          using Suc(2) [of m2 "tl (skip r)"] n by simp
        moreover have "parse_items_mem (Suc f) v m = (c # cs, st', m3)" using i Some x v r n by (simp add: Let_def)
        moreover have "gives m (blocks c) m2" using g r by simp
        moreover have "parse_items (Suc f) v = pbind (parse_items f (tl (skip r))) (\<lambda>cs r'. P_Ok (c # cs) r')"
          using c(2) r by (simp add: Let_def)
        ultimately show ?thesis using more_sound by (simp only: fst_conv)
      qed
    qed
  next
    case 3
    obtain i m1 where i: "new_item_mem m = (i, m1)" by fastforce
    note ig = new_item_gives [OF i]
    show ?case
    proof (cases i)
      case None
      then show ?thesis using i ig by (simp add: sound_def grown_def)
    next
      case (Some x)
      then have x: "x = new_item" using ig(3) by simp
      obtain n st m2 where s: "parse_string_mem new_item (skip v) m1 = (n, st, m2)" by (metis prod_cases3)
      have fresh: "fresh_node new_item" by (simp add: fresh_node_def)
      have sg: "grown m (blocks (CJ n [])) st m2"
        using grown_trans [OF ig(1) parse_string_grown [OF s fresh], of "blocks (CJ n [])"] Some by simp
      show ?thesis
      proof (cases "\<exists>r. st = S_Ok r")
        case False
        then have "parse_members_mem (Suc f) v m = ([CJ n []], st, m2)" using i Some x s by (cases st) simp_all
        moreover have "agrees ([CJ n []], st, m2) (parse_members (Suc f) v)"
          using s False by (cases rule: parse_string_cases) auto
        ultimately show ?thesis using sg by (simp add: sound_def)
      next
        case True
        then obtain r where r: "st = S_Ok r" by blast
        obtain t where t: "n = new_item\<lparr>j_valuestring := Some t, j_type := cJSON_String\<rparr>" "parse_string (skip v) = P_Ok t r"
          using s r by (cases rule: parse_string_cases) auto
        let ?n = "new_item\<lparr>j_type := cJSON_String, j_string := Some t\<rparr>" and ?w = "skip r"
        have n: "n\<lparr>j_string := j_valuestring n, j_valuestring := None\<rparr> = ?n" by (simp add: t(1) new_item_def)
        have g: "gives m 2 m2" using sg r t(1) by simp
        show ?thesis
        proof (cases "take 1 ?w = '':''")
          case False
          then have "parse_members_mem (Suc f) v m = ([CJ ?n []], S_Fail ?w, m2)" using i Some x s r n by (simp add: Let_def)
          then show ?thesis using g t(2) False by (simp add: sound_def Let_def)
        next
          case True
          obtain c st' m3 where pv: "parse_value_mem f ?n (skip (tl ?w)) m2 = (c, st', m3)" by (metis prod_cases3)
          have c: "grown m2 (blocks c - 2) st' m3" "agrees (c, st', m3) (parse_value f ?n (skip (tl ?w)))"
            using Suc(1) [of ?n m2 "skip (tl ?w)"] pv by (simp_all add: sound_def fresh_node_def)
          have g3: "grown m (blocks c) st' m3" using grown_trans [OF g c(1), of "blocks c"] by simp
          show ?thesis
          proof (cases "\<exists>q. st' = S_Ok q \<and> take 1 (skip q) = '',''")
            case False
            then have "parse_members_mem (Suc f) v m = ([c], (case st' of S_Ok q \<Rightarrow> S_Ok (skip q) | _ \<Rightarrow> st'), m3)"
              using i Some x s r n True pv by (cases st') (simp_all add: Let_def)
            then show ?thesis using g3 c(2) t(2) True False by (cases st') (auto simp: sound_def Let_def grown_def)
          next
            case comma: True
            then obtain q where q: "st' = S_Ok q" "take 1 (skip q) = '',''" by blast
            obtain cs st'' m4 where ms: "parse_members_mem f (tl (skip q)) m3 = (cs, st'', m4)" by (metis prod_cases3)
            have "sound m3 (sum_list (map blocks cs)) (cs, st'', m4) (parse_members f (tl (skip q)))"
              using Suc(3) [of m3 "tl (skip q)"] ms by simp
            moreover have "parse_members_mem (Suc f) v m = (c # cs, st'', m4)" using i Some x s r n True pv q ms by (simp add: Let_def)
            moreover have "gives m (blocks c) m3" using g3 q by simp
            moreover have "parse_members (Suc f) v = pbind (parse_members f (tl (skip q))) (\<lambda>cs r'. P_Ok (c # cs) r')"
              using c(2) t(2) True q by (simp add: Let_def)
            ultimately show ?thesis using more_sound by (simp only: fst_conv)
          qed
        qed
      qed
    qed
  }
qed

section \<open>The whole text\<close>

lemma parse_memory:
  assumes "last s \<noteq> BSL" "parse_opts_mem s q m = (t, st, m')"
  shows "gives m (case t of None \<Rightarrow> 0 | Some c \<Rightarrow> blocks c) m' \<and>
    (case t of Some c \<Rightarrow> \<exists>r. st = S_Ok r \<and> cJSON_ParseWithOpts s q = P_Ok c r
     | None \<Rightarrow> (st = S_Mem \<and> \<not> willing m) \<or> (\<exists>e. st = S_Fail e \<and> cJSON_ParseWithOpts s q = P_Fail e))"
proof -
  obtain i m1 where i: "new_item_mem m = (i, m1)" by fastforce
  note ig = new_item_gives [OF i]
  show ?thesis
  proof (cases i)
    case None
    then show ?thesis using assms(2) i ig by (simp add: parse_opts_mem_def)
  next
    case (Some x)
    then have x: "x = new_item" using ig(3) by simp
    let ?v = "skip s"
    obtain c st' m2 where v: "parse_value_mem (json_fuel ?v) new_item ?v m1 = (c, st', m2)" by (metis prod_cases3)
    have c: "grown m1 (blocks c - 1) st' m2" "agrees (c, st', m2) (parse_value (json_fuel ?v) new_item ?v)"
      using parse_sound(1) [of new_item m1 "json_fuel ?v" ?v] v by (simp_all add: sound_def fresh_node_def)
    have top: "cJSON_ParseWithOpts s q = pbind (parse_value (json_fuel ?v) new_item ?v) (\<lambda>c end.
        if q then (let end' = skip end in if end' \<noteq> [] then P_Fail end' else P_Ok c end') else P_Ok c end)"
      by (simp add: cJSON_ParseWithOpts_def Let_def)
    have safe: "consumes s (cJSON_ParseWithOpts s q)" by (rule parse_top_consumes)
    have st: "(\<exists>r. st' = S_Ok r) \<or> (\<exists>e. st' = S_Fail e) \<or> st' = S_Mem"
      using c(2) safe assms(1) top by (cases st') auto
    then have g: "gives m (blocks c) m2" using grown_trans [OF ig(1) c(1), of "blocks c"] Some
      by (auto simp: grown_def)
    have mem: "\<not> willing m" if "st' = S_Mem" using c(1) that ig(1) by (auto simp: grown_def gives_def)
    have run: "parse_opts_mem s q m = (case (c, st', m2) of
        (c, S_Ok end, m2) \<Rightarrow>
          if q then (let end' = skip end in if end' \<noteq> [] then (None, S_Fail end', delete_item c m2) else (Some c, S_Ok end', m2))
          else (Some c, S_Ok end, m2)
      | (c, st, m2) \<Rightarrow> (None, st, delete_item c m2))"
      using i Some x v by (simp add: parse_opts_mem_def Let_def)
    note del = delete_after [OF g]
    from st consider (ok) r where "st' = S_Ok r" | (fail) e where "st' = S_Fail e" | (nomem) "st' = S_Mem" by blast
    then show ?thesis
    proof cases
      case ok
      then have p: "parse_value (json_fuel ?v) new_item ?v = P_Ok c r" using c(2) by simp
      show ?thesis
      proof (cases "q \<and> skip r \<noteq> []")
        case True
        then have "t = None" "st = S_Fail (skip r)" "m' = delete_item c m2" using run ok assms(2) by (simp_all add: Let_def)
        then show ?thesis using del top p True by (simp add: Let_def)
      next
        case False
        then have "t = Some c" "st = S_Ok (if q then skip r else r)" "m' = m2"
          using run ok assms(2) by (auto simp: Let_def split: if_splits)
        then show ?thesis using g top p False by (simp add: Let_def del: blocks.simps)
      qed
    next
      case fail
      then have "t = None" "st = S_Fail e" "m' = delete_item c m2" using run assms(2) by simp_all
      then show ?thesis using del top c(2) fail by simp
    next
      case nomem
      then have "t = None" "st = S_Mem" "m' = delete_item c m2" using run assms(2) by simp_all
      then show ?thesis using del mem nomem by simp
    qed
  qed
qed

text \<open>
  C17: Whatever allocation fails, parsing a text that does not end in a backslash neither leaks nor
  gives half a tree: it gives the item that the parser gives with unlimited memory, with as many blocks more
  out as deleting it frees, or nothing, with as many out as before; and with enough memory it fails only on the
  texts that are refused, at the same place.
\<close>

theorem json_parse_memory:
  assumes "last s \<noteq> BSL" "parse_opts_mem s q m = (t, st, m')"
  shows "m_live m' = m_live m + (case t of None \<Rightarrow> 0 | Some c \<Rightarrow> blocks c) \<and>
    (case t of Some c \<Rightarrow> \<exists>r. st = S_Ok r \<and> cJSON_ParseWithOpts s q = P_Ok c r
     | None \<Rightarrow> (st = S_Mem \<and> \<not> willing m) \<or> (\<exists>e. st = S_Fail e \<and> cJSON_ParseWithOpts s q = P_Fail e))"
  using parse_memory [OF assms] unfolding gives_def by blast

theorem json_parse_memory_witness:
  "\<exists>m'. parse_opts_mem ''[1,2]'' False \<lparr>m_answers = [True, True, False], m_live = 4\<rparr> = (None, S_Mem, m') \<and> m_live m' = 4"
proof -
  let ?m = "\<lparr>m_answers = [True, True, False], m_live = 4\<rparr>"
  obtain t st m' where r: "parse_opts_mem ''[1,2]'' False ?m = (t, st, m')" by (metis prod_cases3)
  have n: "parse_number ''1,2]'' = (fst (parse_number ''1,2]''), '',2]'')"
    by (simp add: prod_eq_iff parse_number_rest num_sign_def num_zero_def num_int_def num_frac_def num_exp_def isdigit_char_def)
  have s: "skip ''[1,2]'' = ''[1,2]''" "skip ''1,2]'' = ''1,2]''" "skip '',2]'' = '',2]''" by (simp_all add: skip_def)
  have "json_fuel ''[1,2]'' = Suc (Suc (Suc (Suc (Suc (Suc (Suc (Suc (Suc (Suc (Suc 0))))))))))" by (simp add: json_fuel_def)
  then have e: "t = None" "st = S_Mem"
    using r n s by (auto simp: parse_opts_mem_def parse_bracket_mem_def new_item_mem_def malloc_def Let_def isdigit_char_def
        split: prod.splits)
  then show ?thesis using json_parse_memory [OF _ r] r by simp
qed

end
