(* ===== verification/Json_Mem_Print.thy ===== *)
theory Json_Mem_Print
  imports Json_Mem
begin

unbundle bit_operations_syntax

text \<open>
  The unbuffered printer of \<^verbatim>\<open>libjson.c\<close> with allocations that can fail: the texts of the entries and the
  arrays that hold them are freed, whether the text of the whole is made or not.
\<close>

section \<open>The code\<close>

definition print_text_mem :: "nat \<Rightarrow> string \<Rightarrow> mem \<Rightarrow> (string option \<times> mem) cres" where
  "print_text_mem k s m =
     (case malloc m of (ok, m1) \<Rightarrow>
        if \<not> ok then Inr (None, m1) else cbind (alloc_text k s) (\<lambda>out. Inr (Some out, m1)))"

definition print_number_mem :: "jnode \<Rightarrow> mem \<Rightarrow> (string option \<times> mem) cres" where
  "print_number_mem item m = (case number_text item of (n, s) \<Rightarrow> print_text_mem n s m)"

definition print_string_mem :: "string option \<Rightarrow> mem \<Rightarrow> (string option \<times> mem) cres" where
  "print_string_mem str m = print_text_mem (print_string_size str) (print_string_text str) m"

definition free_texts :: "nat \<Rightarrow> mem \<Rightarrow> mem" where
  "free_texts k m = (free ^^ k) m"

text \<open>The end of the two printers: the output is made of the entries, and they and \<open>k\<close> arrays are freed.\<close>

definition compose :: "nat \<Rightarrow> nat \<Rightarrow> string cres \<Rightarrow> mem \<Rightarrow> (string option \<times> mem) cres" where
  "compose k texts out m =
     (case malloc m of (ok, m1) \<Rightarrow>
        if \<not> ok then Inr (None, free_texts (texts + k) m1)
        else cbind out (\<lambda>s. Inr (Some s, free_texts (texts + k) m1)))"

fun made :: "string option \<Rightarrow> nat" where
  "made None = 0"
| "made (Some s) = 1"

text \<open>The names and entries collected, the last of them perhaps missing, and whether that is so.\<close>

definition count_texts :: "(string option \<times> string option) list \<Rightarrow> nat" where
  "count_texts ps = sum_list (map (\<lambda>(a, b). made a + made b) ps)"

fun print_value_mem :: "nat \<Rightarrow> bool \<Rightarrow> cjson \<Rightarrow> mem \<Rightarrow> (string option \<times> mem) cres"
and print_items_mem :: "nat \<Rightarrow> bool \<Rightarrow> cjson list \<Rightarrow> mem \<Rightarrow> (string list \<times> bool \<times> mem) cres"
and print_members_mem ::
  "nat \<Rightarrow> bool \<Rightarrow> cjson list \<Rightarrow> mem \<Rightarrow> ((string option \<times> string option) list \<times> bool \<times> mem) cres"
where
  "print_value_mem depth fmt (CJ n cs) m =
     (let t = j_type n AND 255
      in if t = cJSON_NULL then Inr (cJSON_strdup ''null'' m)
         else if t = cJSON_False then Inr (cJSON_strdup ''false'' m)
         else if t = cJSON_True then Inr (cJSON_strdup ''true'' m)
         else if t = cJSON_Number then print_number_mem n m
         else if t = cJSON_String then print_string_mem (j_valuestring n) m
         else if t = cJSON_Array then
           (if cs = [] then print_text_mem 3 ''[]'' m
            else case malloc m of (ok, m1) \<Rightarrow>
              if \<not> ok then Inr (None, m1)
              else cbind (print_items_mem (depth + 1) fmt cs m1) (\<lambda>(es, fail, m2).
                if fail then Inr (None, free_texts (length es + 1) m2)
                else compose 1 (length es) (print_array fmt es) m2))
         else if t = cJSON_Object then
           (if cs = [] then
              print_text_mem (if fmt then depth + 4 else 3) (''{'' @ (if fmt then LF # tabs depth else []) @ ''}'') m
            else case malloc m of (ok, m1) \<Rightarrow>
              if \<not> ok then Inr (None, m1)
              else case malloc m1 of (ok', m2) \<Rightarrow>
                if \<not> ok' then Inr (None, free m2)
                else cbind (print_members_mem (depth + 1) fmt cs m2) (\<lambda>(ps, fail, m3).
                  if fail then Inr (None, free_texts (count_texts ps + 2) m3)
                  else compose 2 (count_texts ps) (print_object depth fmt (map (\<lambda>(a, b). (the a, the b)) ps)) m3))
         else Inr (None, m))"
| "print_items_mem depth fmt [] m = Inr ([], False, m)"
| "print_items_mem depth fmt (c # cs) m =
     cbind (print_value_mem depth fmt c m) (\<lambda>(ret, m1).
       case ret of
         None \<Rightarrow> Inr ([], True, m1)
       | Some s \<Rightarrow> cbind (print_items_mem depth fmt cs m1) (\<lambda>(es, fail, m2). Inr (s # es, fail, m2)))"
| "print_members_mem depth fmt [] m = Inr ([], False, m)"
| "print_members_mem depth fmt (c # cs) m =
     cbind (print_string_mem (j_string (cj_node c)) m) (\<lambda>(str, m1).
     cbind (print_value_mem depth fmt c m1) (\<lambda>(ret, m2).
       if str \<noteq> None \<and> ret \<noteq> None then
         cbind (print_members_mem depth fmt cs m2) (\<lambda>(ps, fail, m3). Inr ((str, ret) # ps, fail, m3))
       else Inr ([(str, ret)], True, m2)))"

section \<open>Against the printer that never runs out\<close>

text \<open>A run of a printer: it makes the text that \<open>p\<close> is, or nothing when there is none or no memory.\<close>

definition clean :: "mem \<Rightarrow> string option cres \<Rightarrow> (string option \<times> mem) cres \<Rightarrow> bool" where
  "clean m p x \<longleftrightarrow> (\<exists>r m'. x = Inr (r, m') \<and> gives m (int (made r)) m' \<and>
     (case r of None \<Rightarrow> \<not> willing m \<or> p = Inr None | Some s \<Rightarrow> p = Inr (Some s)))"

fun numbers_ok :: "cjson \<Rightarrow> bool" where
  "numbers_ok (CJ n cs) \<longleftrightarrow> number_ok n \<and> (\<forall>c \<in> set cs. numbers_ok c)"

lemma strdup_clean: "clean m (Inr (Some s)) (Inr (cJSON_strdup s m))"
proof -
  obtain d m1 where d: "cJSON_strdup s m = (d, m1)" by fastforce
  then show ?thesis using strdup_gives [OF d] by (cases d) (auto simp: clean_def)
qed

lemma text_clean: "alloc_text k s = Inr s \<Longrightarrow> clean m (Inr (Some s)) (print_text_mem k s m)"
  using malloc_gives [of m] malloc_willing [of m]
  by (cases "malloc m") (auto simp: print_text_mem_def clean_def)

lemma free_texts_gives: "gives m (int k + n) m1 \<Longrightarrow> gives m n (free_texts k m1)"
proof (induction k arbitrary: m1)
  case (Suc k)
  have "gives m (int k + n) (free m1)" using gives_free [OF Suc.prems] by simp
  then have "gives m n ((free ^^ k) (free m1))" using Suc.IH by (simp add: free_texts_def)
  then show ?case by (simp only: free_texts_def funpow_Suc_right o_apply)
qed (simp add: free_texts_def)

lemma compose_clean:
  assumes "gives m (int (texts + k)) m1" "out = Inr s"
  shows "clean m (Inr (Some s)) (compose k texts out m1)"
proof -
  obtain ok m2 where a: "malloc m1 = (ok, m2)" by fastforce
  have g: "gives m (int (texts + k) + (if ok then 1 else 0)) m2"
    by (rule gives_trans [OF assms(1) malloc_gives [OF a]])
  have "\<not> ok \<Longrightarrow> \<not> willing m" using malloc_willing [OF a] assms(1) by (auto simp: gives_def)
  then show ?thesis using free_texts_gives [OF g] a assms(2) by (cases ok) (auto simp: compose_def clean_def)
qed

lemma number_clean: "number_ok n \<Longrightarrow> clean m (map_sum id Some (print_number n)) (print_number_mem n m)"
proof -
  assume ok: "number_ok n"
  obtain k s where k: "number_text n = (k, s)" by fastforce
  have "alloc_text k s = Inr s" using print_number_ok [OF ok] k by (simp add: print_number_def)
  then show ?thesis using text_clean [of k s m] print_number_ok [OF ok] k by (simp add: print_number_mem_def)
qed

lemma string_clean: "clean m (Inr (Some (print_string_text so))) (print_string_mem so m)"
  unfolding print_string_mem_def by (rule text_clean) (simp add: alloc_text_def print_string_fits)

text \<open>The lists of texts: what the loops hand to the composing, and how much memory is out for it.\<close>

definition items_clean :: "mem \<Rightarrow> string list option cres \<Rightarrow> (string list \<times> bool \<times> mem) cres \<Rightarrow> bool" where
  "items_clean m p x \<longleftrightarrow> (\<exists>es fail m'. x = Inr (es, fail, m') \<and> gives m (int (length es)) m' \<and>
     (if fail then \<not> willing m \<or> p = Inr None else p = Inr (Some es)))"

definition members_clean ::
  "mem \<Rightarrow> (string \<times> string) list option cres \<Rightarrow> ((string option \<times> string option) list \<times> bool \<times> mem) cres \<Rightarrow> bool" where
  "members_clean m p x \<longleftrightarrow> (\<exists>ps fail m'. x = Inr (ps, fail, m') \<and> gives m (int (count_texts ps)) m' \<and>
     (if fail then \<not> willing m \<or> p = Inr None else p = Inr (Some (map (\<lambda>(a, b). (the a, the b)) ps))))"

lemma items_clean_step:
  assumes v: "clean m p (print_value_mem d f c m)" "print_value d f c = p"
    and rest: "\<And>m. items_clean m (print_items d f cs) (print_items_mem d f cs m)"
  shows "items_clean m (print_items d f (c # cs)) (print_items_mem d f (c # cs) m)"
proof -
  obtain r m1 where r: "print_value_mem d f c m = Inr (r, m1)" "gives m (int (made r)) m1"
    "case r of None \<Rightarrow> \<not> willing m \<or> p = Inr None | Some s \<Rightarrow> p = Inr (Some s)"
    using v(1) unfolding clean_def by blast
  show ?thesis
  proof (cases r)
    case None
    then show ?thesis using r v(2) by (auto simp: items_clean_def)
  next
    case (Some s)
    obtain es fail m2 where e: "print_items_mem d f cs m1 = Inr (es, fail, m2)" "gives m1 (int (length es)) m2"
      "if fail then \<not> willing m1 \<or> print_items d f cs = Inr None else print_items d f cs = Inr (Some es)"
      using rest [of m1] unfolding items_clean_def by blast
    have g: "gives m (1 + int (length es)) m2" using gives_trans [OF r(2) e(2)] Some by simp
    have w: "\<not> willing m" if "\<not> willing m1" using r(2) that by (auto simp: gives_def)
    show ?thesis using r(1,3) v(2) Some e(1,3) g w by (auto simp: items_clean_def split: if_splits)
  qed
qed

lemma members_clean_step:
  assumes v: "\<And>m. clean m p (print_value_mem d f c m)" "print_value d f c = p"
    and rest: "\<And>m. members_clean m (print_members d f cs) (print_members_mem d f cs m)"
  shows "members_clean m (print_members d f (c # cs)) (print_members_mem d f (c # cs) m)"
proof -
  let ?n = "print_string_text (j_string (cj_node c))"
  obtain a m1 where a: "print_string_mem (j_string (cj_node c)) m = Inr (a, m1)" "gives m (int (made a)) m1"
    "case a of None \<Rightarrow> \<not> willing m | Some s \<Rightarrow> s = ?n"
    using string_clean [of m "j_string (cj_node c)"] unfolding clean_def by (auto split: option.splits)
  obtain r m2 where r: "print_value_mem d f c m1 = Inr (r, m2)" "gives m1 (int (made r)) m2"
    "case r of None \<Rightarrow> \<not> willing m1 \<or> p = Inr None | Some s \<Rightarrow> p = Inr (Some s)"
    using v(1) [of m1] unfolding clean_def by blast
  have g2: "gives m (int (made a + made r)) m2" using gives_trans [OF a(2) r(2)] by simp
  have w: "\<not> willing m" if "\<not> willing m1 \<or> \<not> willing m2" using g2 a(2) that by (auto simp: gives_def)
  show ?thesis
  proof (cases "a \<noteq> None \<and> r \<noteq> None")
    case False
    then have "print_members_mem d f (c # cs) m = Inr ([(a, r)], True, m2)" using a(1) r(1) by auto
    moreover have "\<not> willing m \<or> print_members d f (c # cs) = Inr None"
      using False a(3) r(3) v(2) w by (auto simp: print_string_ok split: option.splits)
    ultimately show ?thesis using g2 unfolding members_clean_def
      by (intro exI [of _ "[(a, r)]"] exI [of _ True] exI [of _ m2])
        (simp add: count_texts_def del: print_members.simps print_members_mem.simps)
  next
    case True
    then obtain s where s: "a = Some ?n" "r = Some s" "p = Inr (Some s)" using a(3) r(3) by auto
    obtain ps fail m3 where e: "print_members_mem d f cs m2 = Inr (ps, fail, m3)" "gives m2 (int (count_texts ps)) m3"
      "if fail then \<not> willing m2 \<or> print_members d f cs = Inr None
       else print_members d f cs = Inr (Some (map (\<lambda>(a, b). (the a, the b)) ps))"
      using rest [of m2] unfolding members_clean_def by blast
    have "gives m (int (count_texts ((a, r) # ps))) m3"
      using gives_trans [OF g2 e(2)] by (simp add: count_texts_def)
    then show ?thesis using a(1) r(1) s v(2) e(1,3) w
      by (auto simp: members_clean_def print_string_ok split: if_splits)
  qed
qed

lemma array_clean:
  assumes "cs \<noteq> []" "\<And>m. items_clean m p (print_items_mem d f cs m)"
  shows "clean m (cbind p (\<lambda>es. case es of None \<Rightarrow> Inr None | Some es \<Rightarrow> map_sum id Some (print_array f es)))
    (case malloc m of (ok, m1) \<Rightarrow>
       if \<not> ok then Inr (None, m1)
       else cbind (print_items_mem d f cs m1) (\<lambda>(es, fail, m2).
         if fail then Inr (None, free_texts (length es + 1) m2) else compose 1 (length es) (print_array f es) m2))"
proof -
  obtain ok m1 where a: "malloc m = (ok, m1)" by fastforce
  note ag = malloc_gives [OF a] and aw = malloc_willing [OF a]
  show ?thesis
  proof (cases ok)
    case True
    obtain es fail m2 where e: "print_items_mem d f cs m1 = Inr (es, fail, m2)" "gives m1 (int (length es)) m2"
      "if fail then \<not> willing m1 \<or> p = Inr None else p = Inr (Some es)"
      using assms(2) [of m1] unfolding items_clean_def by blast
    have g: "gives m (int (length es + 1)) m2" using gives_trans [OF ag e(2)] True by simp
    have w: "\<not> willing m" if "\<not> willing m1" using ag that by (auto simp: gives_def)
    show ?thesis
    proof (cases fail)
      case True
      then show ?thesis using a e \<open>ok\<close> w free_texts_gives [of m "length es + 1" 0 m2] g by (auto simp: clean_def)
    next
      case False
      then show ?thesis using compose_clean [OF g print_array_ok [of f es]] a e \<open>ok\<close> by (simp add: print_array_ok)
    qed
  qed (use a ag aw in \<open>auto simp: clean_def\<close>)
qed

lemma object_clean:
  assumes "cs \<noteq> []" "\<And>m. members_clean m p (print_members_mem d' f cs m)"
  shows "clean m (cbind p (\<lambda>es. case es of None \<Rightarrow> Inr None | Some es \<Rightarrow> map_sum id Some (print_object d f es)))
    (case malloc m of (ok, m1) \<Rightarrow>
       if \<not> ok then Inr (None, m1)
       else case malloc m1 of (ok', m2) \<Rightarrow>
         if \<not> ok' then Inr (None, free m2)
         else cbind (print_members_mem d' f cs m2) (\<lambda>(ps, fail, m3).
           if fail then Inr (None, free_texts (count_texts ps + 2) m3)
           else compose 2 (count_texts ps) (print_object d f (map (\<lambda>(a, b). (the a, the b)) ps)) m3))"
proof -
  obtain ok m1 where a: "malloc m = (ok, m1)" by fastforce
  note ag = malloc_gives [OF a] and aw = malloc_willing [OF a]
  show ?thesis
  proof (cases ok)
    case True
    obtain ok' m2 where b: "malloc m1 = (ok', m2)" by fastforce
    note bg = malloc_gives [OF b] and bw = malloc_willing [OF b]
    have g2: "gives m (1 + (if ok' then 1 else 0)) m2" using gives_trans [OF ag bg] True by simp
    have w1: "\<not> willing m" if "\<not> willing m1 \<or> \<not> willing m2" using ag g2 that by (auto simp: gives_def)
    show ?thesis
    proof (cases ok')
      case False
      then show ?thesis using a b \<open>ok\<close> bw w1 gives_free [OF g2] by (auto simp: clean_def)
    next
      case ok': True
      obtain ps fail m3 where e: "print_members_mem d' f cs m2 = Inr (ps, fail, m3)" "gives m2 (int (count_texts ps)) m3"
        "if fail then \<not> willing m2 \<or> p = Inr None else p = Inr (Some (map (\<lambda>(a, b). (the a, the b)) ps))"
        using assms(2) [of m2] unfolding members_clean_def by blast
      have g: "gives m (int (count_texts ps + 2)) m3" using gives_trans [OF g2 e(2)] ok' by simp
      show ?thesis
      proof (cases fail)
        case True
        then show ?thesis using a b e \<open>ok\<close> ok' w1 free_texts_gives [of m "count_texts ps + 2" 0 m3] g by (auto simp: clean_def)
      next
        case False
        obtain out where out: "print_object d f (map (\<lambda>(a, b). (the a, the b)) ps) = Inr out" by (simp add: print_object_ok)
        show ?thesis using compose_clean [OF g out] False a b e \<open>ok\<close> ok' out by simp
      qed
    qed
  qed (use a ag aw in \<open>auto simp: clean_def\<close>)
qed

lemma print_clean: "numbers_ok t \<Longrightarrow> clean m (print_value d f t) (print_value_mem d f t m)"
proof (induction t arbitrary: d m)
  case (CJ n cs)
  have ih: "clean m (print_value d f c) (print_value_mem d f c m)" if "c \<in> set cs" for c d m
    using CJ that by simp
  have items: "items_clean m (print_items d f xs) (print_items_mem d f xs m)" if "set xs \<subseteq> set cs" for xs d m
    using that
  proof (induction xs arbitrary: m)
    case (Cons x xs)
    show ?case by (rule items_clean_step [OF _ refl]) (use Cons ih in simp_all)
  qed (simp add: items_clean_def ex_bool_eq)
  have members: "members_clean m (print_members d f xs) (print_members_mem d f xs m)" if "set xs \<subseteq> set cs" for xs d m
    using that
  proof (induction xs arbitrary: m)
    case (Cons x xs)
    show ?case by (rule members_clean_step [OF _ refl]) (use Cons ih in simp_all)
  qed (simp add: members_clean_def count_texts_def ex_bool_eq)
  have num: "number_ok n" using CJ.prems by simp
  let ?t = "j_type n AND 255"
  consider "?t = cJSON_NULL" | "?t = cJSON_False" | "?t = cJSON_True" | "?t = cJSON_Number" | "?t = cJSON_String"
    | (arr) "?t = cJSON_Array" | (obj) "?t = cJSON_Object" | (none) "?t \<notin> json_types"
    unfolding json_types_def by blast
  then show ?case
  proof cases
    case arr
    show ?thesis
    proof (cases "cs = []")
      case True
      then show ?thesis using arr text_clean [of 3 "''[]''" m] by (simp add: print_array_ok alloc_text_def)
    next
      case False
      show ?thesis
        unfolding print_value.simps print_value_mem.simps Let_def arr
        using array_clean [OF False items [OF subset_refl], of m "d + 1"] False by simp
    qed
  next
    case obj
    show ?thesis
    proof (cases "cs = []")
      case True
      then show ?thesis using obj text_clean by (simp add: print_object_def alloc_text_def tabs_def)
    next
      case False
      show ?thesis
        unfolding print_value.simps print_value_mem.simps Let_def obj
        using object_clean [OF False members [OF subset_refl], of m "d + 1"] False by simp
    qed
  qed (use num number_clean string_clean strdup_clean in \<open>simp_all add: print_string_ok clean_def json_types_def\<close>)
qed

text \<open>
  C18: Whatever allocation fails, printing neither leaks nor gives half a text: it gives the text that the
  printer gives with unlimited memory and that is the only block more, or nothing, with as many blocks out
  as before; and with enough memory it gives nothing only for an item that has no text. It never writes
  outside what it allocated.
\<close>

theorem json_print_memory:
  assumes "numbers_ok t"
  shows "\<exists>r m'. print_value_mem d f t m = Inr (r, m') \<and> m_live m' = m_live m + (case r of None \<Rightarrow> 0 | Some s \<Rightarrow> 1) \<and>
    (case r of Some s \<Rightarrow> print_value d f t = Inr (Some s) | None \<Rightarrow> \<not> willing m \<or> print_value d f t = Inr None)"
proof -
  obtain r m' where "print_value_mem d f t m = Inr (r, m')" "gives m (int (made r)) m'"
    "case r of None \<Rightarrow> \<not> willing m \<or> print_value d f t = Inr None | Some s \<Rightarrow> print_value d f t = Inr (Some s)"
    using print_clean [OF assms, of m d f] unfolding clean_def by blast
  then show ?thesis by (cases r) (simp_all add: gives_def)
qed

theorem json_print_memory_witness:
  "\<exists>m'. print_value_mem 0 True sample_item \<lparr>m_answers = [True, True, True, False], m_live = 9\<rparr> = Inr (None, m') \<and> m_live m' = 9"
proof -
  let ?m = "\<lparr>m_answers = [True, True, True, False], m_live = 9\<rparr>"
  have ok: "numbers_ok sample_item"
    by (simp add: sample_item_def string_item_def number_ok_def new_item_def)
  obtain r m' where r: "print_value_mem 0 True sample_item ?m = Inr (r, m')"
    "m_live m' = m_live ?m + (case r of None \<Rightarrow> 0 | Some s \<Rightarrow> 1)"
    using json_print_memory [OF ok, of 0 True ?m] by blast
  then have "r = None"
    by (auto simp: sample_item_def string_item_def malloc_def print_string_mem_def print_text_mem_def alloc_text_def
        print_string_fits compose_def)
  then show ?thesis using r by simp
qed

end
