(* ===== verification/Json_Mem_Api.thy ===== *)
theory Json_Mem_Api
  imports Json_Mem_Parse Json_Mem_Print
begin

unbundle bit_operations_syntax

text \<open>
  The two functions of \<^verbatim>\<open>utils.c\<close> that use the library, with allocations that can fail: \<^verbatim>\<open>JsonParseText\<close>, and
  \<^verbatim>\<open>JsonCreateObjects\<close>, which looks at no result before it goes on.
\<close>

section \<open>The code\<close>

text \<open>
  The type is compared so that the loop ends at once; the tree and the text are freed after it. The text goes
  to \<^verbatim>\<open>printf\<close> as a line of its own, whether there is one or not. \<open>MsgBuf\<close> is the text given.
\<close>

definition JsonParseText_mem :: "string \<Rightarrow> mem \<Rightarrow> (int \<times> (string \<times> string) list \<times> mem) cres" where
  "JsonParseText_mem MsgBuf m =
     (case parse_opts_mem MsgBuf False m of
        (Some json, st, m1) \<Rightarrow>
          cbind (print_value_mem 0 True json m1) (\<lambda>(out, m2).
            if out = None then Inl Null_Deref
            else cbind (collect_pairs [cj_node json] []) (\<lambda>ps.
              Inr (int (length ps), ps, free (delete_item json m2))))
      | (None, S_Fault e, m1) \<Rightarrow> Inl e
      | (None, S_Fuel, m1) \<Rightarrow> Inl Diverges
      | (None, st, m1) \<Rightarrow> Inr (- 1, [], m1))"

text \<open>
  \<^verbatim>\<open>cJSON_CreateString\<close> of a pointer and \<^verbatim>\<open>cJSON_AddItemToObject\<close>: nothing for a missing item, and a null
  pointer for a missing object. Copying a missing string is a null pointer too.
\<close>

definition create_value_mem :: "string option \<Rightarrow> mem \<Rightarrow> (cjson option \<times> mem) cres" where
  "create_value_mem v m =
     (case v of
        Some s \<Rightarrow> Inr (create_string_mem s m)
      | None \<Rightarrow> (case new_item_mem m of (None, m1) \<Rightarrow> Inr (None, m1) | (Some n, m1) \<Rightarrow> Inl Null_Deref))"

definition add_to_object_mem :: "cjson option \<Rightarrow> string option \<Rightarrow> cjson option \<Rightarrow> mem \<Rightarrow> (cjson option \<times> mem) cres" where
  "add_to_object_mem obj name item m =
     (case item of
        None \<Rightarrow> Inr (obj, m)
      | Some it \<Rightarrow>
          let m1 = (if j_string (cj_node it) \<noteq> None then free m else m)
          in case name of
            None \<Rightarrow> Inl Null_Deref
          | Some s \<Rightarrow> (case cJSON_strdup s m1 of (d, m2) \<Rightarrow>
              (case obj of
                 None \<Rightarrow> Inl Null_Deref
               | Some ob \<Rightarrow> Inr (Some (CJ (cj_node ob) (cj_child ob @ [CJ ((cj_node it)\<lparr>j_string := d\<rparr>) (cj_child it)])), m2))))"

fun add_pairs_mem :: "cjson option \<Rightarrow> (string option \<times> string option) list \<Rightarrow> mem \<Rightarrow> (cjson option \<times> mem) cres" where
  "add_pairs_mem obj [] m = Inr (obj, m)"
| "add_pairs_mem obj ((s, v) # ps) m =
     cbind (create_value_mem v m) (\<lambda>(item, m1).
       cbind (add_to_object_mem obj s item m1) (\<lambda>(obj', m2). add_pairs_mem obj' ps m2))"

text \<open>
  \<open>ps\<close> are the first \<^verbatim>\<open>TokenNum\<close> names and values, \<open>cap\<close> is the size of \<^verbatim>\<open>MsgBuf\<close>; at most 1000 bytes are
  stored in it, without a terminator.
\<close>

definition JsonCreateObjects_mem ::
  "(string option \<times> string option) list \<Rightarrow> nat \<Rightarrow> mem \<Rightarrow> (int \<times> string \<times> mem) cres" where
  "JsonCreateObjects_mem ps cap m =
     (case create_type_mem cJSON_Object m of (obj0, m1) \<Rightarrow>
        cbind (add_pairs_mem obj0 ps m1) (\<lambda>(obj, m2).
        cbind (case obj of None \<Rightarrow> Inr (None, m2) | Some ob \<Rightarrow> print_value_mem 0 True ob m2) (\<lambda>(out, m3).
          let m4 = (case obj of None \<Rightarrow> m3 | Some ob \<Rightarrow> delete_item ob m3)
          in case out of
               None \<Rightarrow> Inr (0, [], m4)
             | Some txt \<Rightarrow>
                 (let ret = min (length txt) 1000
                  in if cap < ret then Inl Out_Of_Bounds else Inr (int ret, take ret txt, free m4)))))"

section \<open>Neither leaks\<close>

text \<open>Pairs of C strings, and whether the memory suffices for the item of any of them.\<close>

definition texts_of :: "(string \<times> string) list \<Rightarrow> (string option \<times> string option) list" where
  "texts_of ps = map (\<lambda>(s, v). (Some s, Some v)) ps"

lemma texts_of_simps [simp]: "texts_of [] = []" "texts_of ((s, v) # ps) = (Some s, Some v) # texts_of ps"
  by (simp_all add: texts_of_def)

fun pair_made :: "(string \<times> string) list \<Rightarrow> mem \<Rightarrow> bool" where
  "pair_made [] m \<longleftrightarrow> False"
| "pair_made ((s, v) # ps) m \<longleftrightarrow>
     (case create_string_mem v m of (Some it, m1) \<Rightarrow> True | (None, m1) \<Rightarrow> pair_made ps m1)"

lemma add_to_object_inr: "\<exists>r m'. add_to_object_mem (Some ob) (Some s) item m = Inr (r, m')"
  by (auto simp: add_to_object_mem_def Let_def split: option.split prod.split)

lemma pair_object_good:
  assumes "\<not> is_reference (cj_node ob)" "gives m (blocks ob) m1" "numbers_ok ob"
    "create_string_mem v m1 = (item, m2)" "add_to_object_mem (Some ob) (Some s) item m2 = Inr (r, m3)"
  obtains ob' where "r = Some ob'" "\<not> is_reference (cj_node ob')" "gives m (blocks ob') m3" "numbers_ok ob'"
    "willing m \<longrightarrow> ob' = add_to_object ob s (string_item v)"
proof (cases item)
  case None
  have "gives m (blocks ob) m2" using gives_trans [OF assms(2) words.balanced [OF TrueI assms(4)]] None by simp
  moreover have "\<not> willing m" using words.returns [of m1 v] assms(2,4) None by (auto simp: gives_def)
  ultimately show ?thesis using that [of ob] assms(1,3,5) None by (simp add: add_to_object_mem_def)
next
  case (Some it)
  then have it: "it = string_item v" using words.makes [OF TrueI] assms(4) by simp
  obtain d m' where d: "cJSON_strdup s m2 = (d, m')" by fastforce
  let ?ob = "CJ (cj_node ob) (cj_child ob @ [CJ ((cj_node it)\<lparr>j_string := d\<rparr>) (cj_child it)])"
  have r: "r = Some ?ob" "m3 = m'"
    using assms(5) Some d it by (simp_all add: add_to_object_mem_def string_item_def)
  have "gives m (blocks ob + 2) m2"
    using gives_trans [OF assms(2) words.balanced [OF TrueI assms(4)]] Some it
    by (simp add: string_item_def is_reference_def string_is_const_def)
  from gives_trans [OF this strdup_gives(1) [OF d]] have "gives m (blocks ?ob) m3"
    using r assms(1) it by (cases ob; cases d) (simp_all add: string_item_def ac_simps)
  moreover have "numbers_ok ?ob"
    using assms(3) it by (cases ob) (auto simp: string_item_def number_ok_def new_item_def)
  moreover have "willing m \<longrightarrow> ?ob = add_to_object ob s (string_item v)"
  proof
    assume "willing m"
    then have "d = Some s" using strdup_gives [OF d] \<open>gives m (blocks ob + 2) m2\<close> by (cases d) (auto simp: gives_def)
    then show "?ob = add_to_object ob s (string_item v)" by (simp add: add_to_object_def it)
  qed
  ultimately show ?thesis using that r assms(1) by simp
qed

lemma add_pairs_good:
  assumes "\<not> is_reference (cj_node ob)" "gives m (blocks ob) m1" "numbers_ok ob"
  shows "\<exists>ob' m'. add_pairs_mem (Some ob) (texts_of ps) m1 = Inr (Some ob', m') \<and> \<not> is_reference (cj_node ob') \<and>
    gives m (blocks ob') m' \<and> numbers_ok ob' \<and>
    (willing m \<longrightarrow> add_pairs ob (texts_of ps) (length ps) = Inr ob')"
  using assms
proof (induction ps arbitrary: ob m1)
  case (Cons p ps)
  obtain s v where p: "p = (s, v)" by fastforce
  obtain item m2 where c: "create_string_mem v m1 = (item, m2)" by fastforce
  obtain r m3 where a: "add_to_object_mem (Some ob) (Some s) item m2 = Inr (r, m3)"
    by (metis add_to_object_inr)
  obtain ob' where o: "r = Some ob'" "\<not> is_reference (cj_node ob')" "gives m (blocks ob') m3" "numbers_ok ob'"
    "willing m \<longrightarrow> ob' = add_to_object ob s (string_item v)"
    using pair_object_good [OF Cons.prems c a] by blast
  have "add_pairs ob (texts_of (p # ps)) (length (p # ps)) =
      add_pairs (add_to_object ob s (string_item v)) (texts_of ps) (length ps)"
    by (simp add: p cJSON_CreateString_def string_item_def)
  then show ?case using Cons.IH [OF o(2-4)] c a o(1,5) p by (auto simp: create_value_mem_def)
qed simp

lemma add_pairs_null:
  "if pair_made ps m then add_pairs_mem None (texts_of ps) m = Inl Null_Deref
   else \<exists>m'. add_pairs_mem None (texts_of ps) m = Inr (None, m') \<and> gives m 0 m'"
proof (induction ps m rule: pair_made.induct)
  case (2 s v ps m)
  obtain item m1 where c: "create_string_mem v m = (item, m1)" by fastforce
  show ?case
  proof (cases item)
    case None
    then have "gives m 0 m1" using words.balanced [OF TrueI c] by simp
    then show ?thesis using 2 c None gives_trans [of m 0 m1 0]
      by (auto simp: add_to_object_mem_def create_value_mem_def)
  next
    case (Some it)
    then show ?thesis using c by (simp add: add_to_object_mem_def create_value_mem_def Let_def split: prod.split)
  qed
qed simp

lemma object_start:
  assumes "create_type_mem cJSON_Object m = (r, m1)"
  shows "r = None \<Longrightarrow> gives m 0 m1 \<and> \<not> willing m" "r = Some ob \<Longrightarrow> ob = create_type cJSON_Object \<and> gives m (blocks ob) m1"
proof -
  obtain i m' where i: "new_item_mem m = (i, m')" by fastforce
  note g = new_item_gives [OF i]
  show "r = None \<Longrightarrow> gives m 0 m1 \<and> \<not> willing m"
    using assms i g(1,2) by (simp add: create_type_mem_def)
  show "r = Some ob \<Longrightarrow> ob = create_type cJSON_Object \<and> gives m (blocks ob) m1"
    using assms i g(1,3) by (auto simp: create_type_mem_def create_type_def is_reference_def string_is_const_def)
qed

lemma printed:
  assumes "numbers_ok t" "gives m n m1"
  shows "\<exists>r m'. print_value_mem d f t m1 = Inr (r, m') \<and> gives m (n + int (made r)) m' \<and>
    (willing m \<longrightarrow> print_value d f t = Inr r)"
proof -
  obtain r m' where r: "print_value_mem d f t m1 = Inr (r, m')" "gives m1 (int (made r)) m'"
    "case r of None \<Rightarrow> \<not> willing m1 \<or> print_value d f t = Inr None | Some s \<Rightarrow> print_value d f t = Inr (Some s)"
    using print_clean [OF assms(1), of m1 d f] unfolding clean_def by blast
  then show ?thesis using gives_trans [OF assms(2) r(2)] assms(2) by (cases r) (auto simp: gives_def)
qed

text \<open>
  C20: Making a message of pairs of C strings in a buffer of at least 1000 bytes never leaks, whichever
  allocation fails, and with enough memory it stores what the model without failing allocations stores. It
  looks at no allocation, though: it faults, with a null pointer, exactly when there was no memory for the
  object itself but some for the item of a later pair. Pairs whose own item cannot be made are dropped.
\<close>

theorem json_create_memory:
  assumes "1000 \<le> cap"
  shows "case JsonCreateObjects_mem (texts_of ps) cap m of
     Inl e \<Rightarrow> e = Null_Deref \<and> \<not> fst (malloc m) \<and> pair_made ps (snd (malloc m))
   | Inr (ret, txt, m') \<Rightarrow> m_live m' = m_live m \<and> (fst (malloc m) \<or> \<not> pair_made ps (snd (malloc m))) \<and>
       (fst (malloc m) \<or> ret = 0) \<and>
       (willing m \<longrightarrow> JsonCreateObjects (texts_of ps) (int (length ps)) = Inr (ret, txt))"
proof -
  obtain obj m1 where o: "create_type_mem cJSON_Object m = (obj, m1)" by fastforce
  have al: "fst (malloc m) \<longleftrightarrow> obj \<noteq> None" "snd (malloc m) = m1"
    using o by (auto simp: create_type_mem_def new_item_mem_def Let_def split: prod.splits if_splits)
  show ?thesis
  proof (cases obj)
    case None
    then have g: "gives m 0 m1" "\<not> willing m" using object_start(1) [OF o] by simp_all
    show ?thesis
    proof (cases "pair_made ps m1")
      case True
      then show ?thesis using add_pairs_null [of ps m1] o None al by (simp add: JsonCreateObjects_mem_def)
    next
      case False
      then obtain m' where "add_pairs_mem None (texts_of ps) m1 = Inr (None, m')" "gives m1 0 m'"
        using add_pairs_null [of ps m1] by auto
      then show ?thesis using o None g al False by (simp add: JsonCreateObjects_mem_def Let_def gives_def)
    qed
  next
    case (Some ob)
    note ob = object_start(2) [OF o Some, THEN conjunct1] object_start(2) [OF o Some, THEN conjunct2]
    have "\<not> is_reference (cj_node ob)" "numbers_ok ob"
      by (simp_all add: ob(1) create_type_def is_reference_def number_ok_def new_item_def)
    then obtain ob' m2 where a: "add_pairs_mem (Some ob) (texts_of ps) m1 = Inr (Some ob', m2)" "gives m (blocks ob') m2" "numbers_ok ob'"
      "willing m \<longrightarrow> add_pairs ob (texts_of ps) (length ps) = Inr ob'"
      using add_pairs_good [of ob m m1 ps] ob(2) by blast
    obtain out m3 where p: "print_value_mem 0 True ob' m2 = Inr (out, m3)" "gives m (blocks ob' + int (made out)) m3"
      "willing m \<longrightarrow> print_value 0 True ob' = Inr out"
      using printed [OF a(3,2)] by blast
    have "gives m (int (made out)) (delete_item ob' m3)"
      using gives_trans [OF p(2) delete_gives] by (rule gives_eq) simp
    then show ?thesis using o Some a(1,4) p(1,3) ob(1) al assms
      by (cases out) (auto simp: JsonCreateObjects_mem_def JsonCreateObjects_def cJSON_Print_def Let_def gives_def free_def)
  qed
qed

theorem json_create_memory_witness:
  "\<exists>ret txt m'. JsonCreateObjects_mem [(Some ''a'', Some ''b'')] 1000 \<lparr>m_answers = [True, True], m_live = 3\<rparr> = Inr (ret, txt, m') \<and>
     m_live m' = 3 \<and> JsonCreateObjects [(Some ''a'', Some ''b'')] 1 = Inr (ret, txt)"
proof -
  let ?m = "\<lparr>m_answers = [True, True], m_live = 3\<rparr>"
  have w: "willing ?m" "fst (malloc ?m)" by (simp_all add: willing_def malloc_def)
  have "(1000 :: nat) \<le> 1000" by simp
  from json_create_memory [OF this, of ?m "[(''a'', ''b'')]"] w show ?thesis
    by (cases "JsonCreateObjects_mem [(Some ''a'', Some ''b'')] 1000 ?m") auto
qed

text \<open>
  Reading a message frees everything again; it stores no pair, as \<open>json_parse_text_empty\<close> says. When there is no
  memory for the text of the tree, a null pointer is printed.
\<close>

lemma json_parse_text_memory:
  assumes "NUL \<notin> set s" "last s \<noteq> BSL"
  shows "case JsonParseText_mem s m of
     Inl e \<Rightarrow> e = Null_Deref \<and> \<not> willing m
   | Inr (ret, ps, m') \<Rightarrow> ps = [] \<and> m_live m' = m_live m \<and> (ret = 0 \<or> ret = - 1)"
proof -
  obtain t st m1 where r: "parse_opts_mem s False m = (t, st, m1)" by (metis prod_cases3)
  show ?thesis
  proof (cases t)
    case None
    then show ?thesis using parse_memory [OF assms(2) r] r by (auto simp: JsonParseText_mem_def gives_def)
  next
    case (Some json)
    obtain e where j: "cJSON_ParseWithOpts s False = P_Ok json e" "gives m (blocks json) m1"
      using parse_memory [OF assms(2) r] Some by auto
    have "numbers_ok u" if "json_wf u" for u using that by (induction u) (auto simp: node_wf_def)
    moreover have wf: "json_wf json" using parse_top_wf [OF assms(1), of False] j(1) by simp
    ultimately obtain out m2 where p: "print_value_mem 0 True json m1 = Inr (out, m2)"
      "gives m (blocks json + int (made out)) m2" "willing m \<longrightarrow> print_value 0 True json = Inr out"
      using printed [OF _ j(2)] by blast
    have "out = None \<longrightarrow> \<not> willing m" using p(3) print_value_text [OF wf_printable, of json] wf by auto
    moreover have "gives m (int (made out)) (delete_item json m2)"
      using gives_trans [OF p(2) delete_gives] by (rule gives_eq) simp
    ultimately show ?thesis using r Some p(1)
      by (cases out) (auto simp: JsonParseText_mem_def gives_def free_def)
  qed
qed

text \<open>The fault happens: no memory for the object, but enough for the pair behind it.\<close>

lemma json_create_faults:
  "JsonCreateObjects_mem [(Some ''a'', Some ''b'')] 1000 \<lparr>m_answers = [False], m_live = 0\<rparr> = Inl Null_Deref"
  by (simp add: JsonCreateObjects_mem_def create_value_mem_def create_type_mem_def create_string_mem_def new_item_mem_def cJSON_strdup_def
      malloc_def add_to_object_mem_def Let_def)

end
