(* ===== verification/Json_Mem_Buffer.thy ===== *)
theory Json_Mem_Buffer
  imports Json_Mem_Print Json_Buffer_Props
begin

text \<open>
  The buffered printer of \<^verbatim>\<open>libjson.c\<close> with allocations that can fail. When the buffer cannot grow it is freed and
  gone, and every later step finds it missing.
\<close>

section \<open>The code\<close>

type_synonym bres = "(bool \<times> printbuffer \<times> mem) cres"

definition ensure_mem :: "(nat \<Rightarrow> char) \<Rightarrow> printbuffer \<Rightarrow> nat \<Rightarrow> mem \<Rightarrow> bres" where
  "ensure_mem junk p needed m =
     (case pb_buffer p of
        None \<Rightarrow> Inr (False, p, m)
      | Some b \<Rightarrow>
          let need = to_int32 (int needed + int (pb_offset p))
          in if need \<le> int (length b) then Inr (True, p, m)
             else
               let newsize = pow2gt need
               in if newsize < 0 then Inr (False, p\<lparr>pb_buffer := None\<rparr>, free m)
                  else case malloc m of (ok, m1) \<Rightarrow>
                    if \<not> ok then Inr (False, p\<lparr>pb_buffer := None\<rparr>, free m1)
                    else if nat newsize < length b then Inl Out_Of_Bounds
                    else Inr (True, p\<lparr>pb_buffer := Some (b @ map junk [length b..<nat newsize])\<rparr>, free m1))"

definition emit_mem :: "(nat \<Rightarrow> char) \<Rightarrow> nat \<Rightarrow> string \<Rightarrow> nat \<Rightarrow> printbuffer \<Rightarrow> mem \<Rightarrow> bres" where
  "emit_mem junk n s k p m =
     cbind (ensure_mem junk p n m) (\<lambda>(ok, p', m').
       if \<not> ok then Inr (False, p', m')
       else case pb_buffer p' of
         None \<Rightarrow> Inl Null_Deref
       | Some b \<Rightarrow>
           cbind (buf_write b (pb_offset p') s) (\<lambda>b'.
             Inr (True, p'\<lparr>pb_buffer := Some b', pb_offset := pb_offset p' + k\<rparr>, m')))"

definition andthen_mem :: "bres \<Rightarrow> (printbuffer \<Rightarrow> mem \<Rightarrow> bres) \<Rightarrow> bres" where
  "andthen_mem x f = cbind x (\<lambda>(ok, p, m). if ok then f p m else Inr (False, p, m))"

definition skip_result_mem :: "bres \<Rightarrow> bres" where
  "skip_result_mem x = cbind x (\<lambda>(ok, p, m). cbind (update p) (\<lambda>p'. Inr (True, p', m)))"

definition number_buf_mem :: "(nat \<Rightarrow> char) \<Rightarrow> jnode \<Rightarrow> printbuffer \<Rightarrow> mem \<Rightarrow> bres" where
  "number_buf_mem junk n p m = (let (k, s) = number_text n in emit_mem junk k (s @ [NUL]) 0 p m)"

definition string_buf_mem :: "(nat \<Rightarrow> char) \<Rightarrow> string option \<Rightarrow> printbuffer \<Rightarrow> mem \<Rightarrow> bres" where
  "string_buf_mem junk so p m = emit_mem junk (print_string_size so) (print_string_text so @ [NUL]) 0 p m"

fun value_buf_mem :: "(nat \<Rightarrow> char) \<Rightarrow> nat \<Rightarrow> bool \<Rightarrow> cjson \<Rightarrow> printbuffer \<Rightarrow> mem \<Rightarrow> bres"
and items_buf_mem :: "(nat \<Rightarrow> char) \<Rightarrow> nat \<Rightarrow> bool \<Rightarrow> cjson list \<Rightarrow> printbuffer \<Rightarrow> mem \<Rightarrow> bres"
and members_buf_mem :: "(nat \<Rightarrow> char) \<Rightarrow> nat \<Rightarrow> bool \<Rightarrow> cjson list \<Rightarrow> printbuffer \<Rightarrow> mem \<Rightarrow> bres"
where
  "value_buf_mem junk depth fmt (CJ n cs) p m =
     (let t = j_type n AND 255
      in if t = cJSON_NULL then emit_mem junk 5 (''null'' @ [NUL]) 0 p m
         else if t = cJSON_False then emit_mem junk 6 (''false'' @ [NUL]) 0 p m
         else if t = cJSON_True then emit_mem junk 5 (''true'' @ [NUL]) 0 p m
         else if t = cJSON_Number then number_buf_mem junk n p m
         else if t = cJSON_String then string_buf_mem junk (j_valuestring n) p m
         else if t = cJSON_Array then
           (if cs = [] then emit_mem junk 3 (''[]'' @ [NUL]) 0 p m
            else
              andthen_mem (emit_mem junk 1 ''['' 1 p m) (\<lambda>p1 m1.
              andthen_mem (items_buf_mem junk (depth + 1) fmt cs p1 m1) (\<lambda>p2 m2.
                emit_mem junk 2 ('']'' @ [NUL]) 0 p2 m2)))
         else if t = cJSON_Object then
           (if cs = []
            then emit_mem junk (if fmt then depth + 4 else 3)
                   (''{'' @ (if fmt then LF # tabs depth else []) @ ''}'' @ [NUL]) 0 p m
            else
              let len = (if fmt then 2 else 1)
              in andthen_mem (emit_mem junk (len + 1) (''{'' @ (if fmt then [LF] else []) @ [NUL]) len p m) (\<lambda>p1 m1.
                 andthen_mem (members_buf_mem junk (depth + 1) fmt cs p1 m1) (\<lambda>p2 m2.
                   emit_mem junk (if fmt then depth + 1 + 1 else 2)
                     ((if fmt then tabs depth else []) @ ''}'' @ [NUL]) 0 p2 m2)))
         else Inr (False, p, m))"
| "items_buf_mem junk depth fmt [] p m = Inr (True, p, m)"
| "items_buf_mem junk depth fmt (c # cs) p m =
     andthen_mem (skip_result_mem (value_buf_mem junk depth fmt c p m)) (\<lambda>p1 m1.
       if cs = [] then Inr (True, p1, m1)
       else
         let len = (if fmt then 2 else 1)
         in andthen_mem (emit_mem junk (len + 1) ('','' @ (if fmt then '' '' else []) @ [NUL]) len p1 m1) (\<lambda>p2 m2.
              items_buf_mem junk depth fmt cs p2 m2))"
| "members_buf_mem junk depth fmt [] p m = Inr (True, p, m)"
| "members_buf_mem junk depth fmt (c # cs) p m =
     andthen_mem (if fmt then emit_mem junk depth (tabs depth) depth p m else Inr (True, p, m)) (\<lambda>p1 m1.
     andthen_mem (skip_result_mem (string_buf_mem junk (j_string (cj_node c)) p1 m1)) (\<lambda>p2 m2.
     let len = (if fmt then 2 else 1)
     in andthen_mem (emit_mem junk len ('':'' @ (if fmt then [TAB] else [])) len p2 m2) (\<lambda>p3 m3.
        andthen_mem (skip_result_mem (value_buf_mem junk depth fmt c p3 m3)) (\<lambda>p4 m4.
        let len = (if fmt then 1 else 0) + (if cs \<noteq> [] then 1 else 0)
        in andthen_mem
             (emit_mem junk (len + 1) ((if cs \<noteq> [] then '','' else []) @ (if fmt then [LF] else []) @ [NUL]) len p4 m4)
             (\<lambda>p5 m5. members_buf_mem junk depth fmt cs p5 m5)))))"

definition PrintBuffered_mem :: "(nat \<Rightarrow> char) \<Rightarrow> cjson \<Rightarrow> int \<Rightarrow> bool \<Rightarrow> mem \<Rightarrow> (string option \<times> mem) cres" where
  "PrintBuffered_mem junk item prebuffer fmt m =
     (let (ok, m1) = (if prebuffer < 0 then (False, m) else malloc m)
      in cbind (value_buf_mem junk 0 fmt item
           \<lparr>pb_buffer = (if ok then Some (map junk [0..<nat prebuffer]) else None), pb_offset = 0\<rparr> m1) (\<lambda>(ok, p, m2).
           if \<not> ok then Inr (None, m2)
           else case pb_buffer p of
             None \<Rightarrow> Inl Null_Deref
           | Some b \<Rightarrow> cbind (buf_string b) (\<lambda>s. Inr (Some s, m2))))"

section \<open>Against the printer that never runs out\<close>

definition own :: "printbuffer \<Rightarrow> int" where
  "own p = (if pb_buffer p = None then 0 else 1)"

text \<open>
  A step follows the plain one: without a buffer it does nothing, and with one it does the same, or the memory has
  run out and the buffer is gone.
\<close>

definition lost :: "mem \<Rightarrow> printbuffer \<Rightarrow> bres \<Rightarrow> bool" where
  "lost m p x \<longleftrightarrow> (\<exists>ok q m'. x = Inr (ok, q, m') \<and> pb_buffer q = None \<and> m_live m' = m_live m - own p)"

definition follows :: "(printbuffer \<Rightarrow> mem \<Rightarrow> bres) \<Rightarrow> (printbuffer \<Rightarrow> (bool \<times> printbuffer) cres) \<Rightarrow> bool" where
  "follows fm f \<longleftrightarrow> (\<forall>p m.
     (pb_buffer p = None \<longrightarrow> lost m p (fm p m)) \<and>
     (\<forall>ok q. f p = Inr (ok, q) \<longrightarrow>
        (\<exists>m'. fm p m = Inr (ok, q, m') \<and> gives m (own q - own p) m') \<or> (\<not> willing m \<and> lost m p (fm p m))))"

lemma lost_none: "pb_buffer p = None \<Longrightarrow> lost m p (Inr (ok, p, m))"
  by (simp add: lost_def own_def)

lemma follows_done: "follows (\<lambda>p m. Inr (ok, p, m)) (\<lambda>p. Inr (ok, p))"
  by (auto simp: follows_def lost_none)

lemma follows_ensure: "follows (\<lambda>p m. ensure_mem junk p n m) (\<lambda>p. ensure junk p n)"
proof -
  have "(\<exists>m'. ensure_mem junk p n m = Inr (ok, q, m') \<and> gives m (own q - own p) m') \<or> (\<not> willing m \<and> lost m p (ensure_mem junk p n m))"
    if e: "ensure junk p n = Inr (ok, q)" for p m ok q
  proof (cases "pb_buffer p")
    case None
    then show ?thesis using e by (simp add: ensure_def ensure_mem_def)
  next
    case (Some b)
    obtain good m1 where a: "malloc m = (good, m1)" by fastforce
    have g: "gives m (if good then 1 else 0) m1" "willing m \<Longrightarrow> good" using malloc_gives [OF a] malloc_willing [OF a] by simp_all
    show ?thesis using e Some a g gives_free [OF g(1)] gives_free [OF gives_refl, of m]
      by (auto simp: ensure_def ensure_mem_def Let_def own_def lost_def gives_def split: if_splits)
  qed
  then show ?thesis by (auto simp: follows_def lost_none ensure_mem_def split: option.splits)
qed

lemma follows_emit: "follows (emit_mem junk n s k) (emit junk n s k)"
  unfolding follows_def
proof (intro allI conjI impI)
  fix p :: printbuffer and m :: mem
  assume "pb_buffer p = None"
  then show "lost m p (emit_mem junk n s k p m)" by (simp add: emit_mem_def ensure_mem_def lost_none)
next
  fix p q :: printbuffer and m :: mem and ok
  assume e: "emit junk n s k p = Inr (ok, q)"
  then obtain ok' p' where r: "ensure junk p n = Inr (ok', p')" by (auto simp: emit_def cbind_Inr_iff)
  from follows_ensure [of junk n, unfolded follows_def] r
  have "(\<exists>m'. ensure_mem junk p n m = Inr (ok', p', m') \<and> gives m (own p' - own p) m') \<or>
      (\<not> willing m \<and> lost m p (ensure_mem junk p n m))" by blast
  then show "(\<exists>m'. emit_mem junk n s k p m = Inr (ok, q, m') \<and> gives m (own q - own p) m') \<or>
      (\<not> willing m \<and> lost m p (emit_mem junk n s k p m))"
  proof
    assume "\<exists>m'. ensure_mem junk p n m = Inr (ok', p', m') \<and> gives m (own p' - own p) m'"
    then obtain m' where m': "ensure_mem junk p n m = Inr (ok', p', m')" "gives m (own p' - own p) m'" by blast
    then show ?thesis using e r
      by (auto simp: emit_def emit_mem_def cbind_Inr_iff own_def split: if_splits option.splits)
  next
    assume l: "\<not> willing m \<and> lost m p (ensure_mem junk p n m)"
    then obtain ok q m' where "ensure_mem junk p n m = Inr (ok, q, m')" "pb_buffer q = None" "m_live m' = m_live m - own p"
      by (auto simp: lost_def)
    moreover have "\<not> ok" if "ensure_mem junk p n m = Inr (ok, q, m')" "pb_buffer q = None" for ok q m'
      using that by (auto simp: ensure_mem_def Let_def split: option.splits if_splits prod.splits)
    ultimately show ?thesis using l by (simp add: emit_mem_def lost_def)
  qed
qed

lemma follows_then:
  assumes "follows fm f" "follows gm g"
  shows "follows (\<lambda>p m. andthen_mem (fm p m) gm) (\<lambda>p. andthen (f p) g)"
proof -
  have after: "lost m p (andthen_mem x gm)" if l: "lost m p x" for m p x
  proof -
    obtain ok q m' where x: "x = Inr (ok, q, m')" "pb_buffer q = None" "m_live m' = m_live m - own p"
      using l by (auto simp: lost_def)
    moreover have "lost m' q (gm q m')" using assms(2) x(2) by (simp add: follows_def)
    ultimately show ?thesis by (auto simp: andthen_mem_def lost_def own_def)
  qed
  show ?thesis
    unfolding follows_def
  proof (intro allI conjI impI)
    fix p :: printbuffer and m :: mem
    assume "pb_buffer p = None"
    then show "lost m p (andthen_mem (fm p m) gm)" using assms(1) after by (simp add: follows_def)
  next
    fix p q :: printbuffer and m :: mem and ok
    assume e: "andthen (f p) g = Inr (ok, q)"
    then obtain ok' p' where r: "f p = Inr (ok', p')" by (auto simp: andthen_def cbind_Inr_iff)
    have "(\<exists>m'. fm p m = Inr (ok', p', m') \<and> gives m (own p' - own p) m') \<or> (\<not> willing m \<and> lost m p (fm p m))"
      using assms(1) r unfolding follows_def by blast
    then show "(\<exists>m'. andthen_mem (fm p m) gm = Inr (ok, q, m') \<and> gives m (own q - own p) m') \<or>
        (\<not> willing m \<and> lost m p (andthen_mem (fm p m) gm))"
    proof
      assume "\<exists>m'. fm p m = Inr (ok', p', m') \<and> gives m (own p' - own p) m'"
      then obtain m1 where m1: "fm p m = Inr (ok', p', m1)" "gives m (own p' - own p) m1" by blast
      show ?thesis
      proof (cases ok')
        case False
        then show ?thesis using e r m1 by (auto simp: andthen_def andthen_mem_def)
      next
        case True
        then have "g p' = Inr (ok, q)" using e r by (simp add: andthen_def)
        then have "(\<exists>m'. gm p' m1 = Inr (ok, q, m') \<and> gives m1 (own q - own p') m') \<or> (\<not> willing m1 \<and> lost m1 p' (gm p' m1))"
          using assms(2) unfolding follows_def by blast
        then show ?thesis using True m1 gives_trans [OF m1(2)]
          by (fastforce simp: andthen_mem_def lost_def gives_def)
      qed
    qed (use after in blast)
  qed
qed

lemma follows_skip:
  assumes "follows fm f"
  shows "follows (\<lambda>p m. skip_result_mem (fm p m)) (\<lambda>p. skip_result (f p))"
proof -
  have after: "lost m p (skip_result_mem x)" if "lost m p x" for m p x
    using that by (auto simp: lost_def skip_result_mem_def update_def)
  have keeps: "own q = own p" if "update p = Inr q" for p q
    using that by (auto simp: update_def own_def cbind_Inr_iff split: option.splits)
  show ?thesis
    unfolding follows_def
  proof (intro allI conjI impI)
    fix p :: printbuffer and m :: mem
    assume "pb_buffer p = None"
    then show "lost m p (skip_result_mem (fm p m))" using assms after by (simp add: follows_def)
  next
    fix p q :: printbuffer and m :: mem and ok
    assume "skip_result (f p) = Inr (ok, q)"
    then obtain ok' p' where r: "f p = Inr (ok', p')" "update p' = Inr q" "ok"
      by (auto simp: skip_result_def cbind_Inr_iff)
    have "(\<exists>m'. fm p m = Inr (ok', p', m') \<and> gives m (own p' - own p) m') \<or> (\<not> willing m \<and> lost m p (fm p m))"
      using assms r(1) unfolding follows_def by blast
    then show "(\<exists>m'. skip_result_mem (fm p m) = Inr (ok, q, m') \<and> gives m (own q - own p) m') \<or>
        (\<not> willing m \<and> lost m p (skip_result_mem (fm p m)))"
      using after r keeps [OF r(2)] by (auto simp: skip_result_mem_def)
  qed
qed

lemma follows_items:
  assumes "\<And>c d. c \<in> set cs \<Longrightarrow> follows (value_buf_mem junk d fmt c) (value_buf junk d fmt c)"
  shows "follows (items_buf_mem junk d fmt cs) (items_buf junk d fmt cs)"
  using assms
proof (induction cs)
  case Nil
  show ?case using follows_done [of True] by (simp add: items_buf_mem.simps [abs_def] items_buf.simps [abs_def])
next
  case (Cons c cs)
  let ?n = "(if fmt then 2 else 1) + 1" and ?s = "'','' @ (if fmt then '' '' else []) @ [NUL]" and ?k = "if fmt then 2 else 1"
  have c: "follows (\<lambda>p m. skip_result_mem (value_buf_mem junk d fmt c p m)) (\<lambda>p. skip_result (value_buf junk d fmt c p))"
    using Cons.prems by (intro follows_skip) simp
  have r: "follows (\<lambda>p m. if cs = [] then Inr (True, p, m)
        else andthen_mem (emit_mem junk ?n ?s ?k p m) (items_buf_mem junk d fmt cs))
      (\<lambda>p. if cs = [] then Inr (True, p) else andthen (emit junk ?n ?s ?k p) (items_buf junk d fmt cs))"
    using follows_done [of True] follows_then [OF follows_emit Cons.IH] Cons.prems by (cases "cs = []") simp_all
  show ?case unfolding items_buf_mem.simps [abs_def] items_buf.simps [abs_def] Let_def by (rule follows_then [OF c r])
qed

lemma follows_members:
  assumes "\<And>c d. c \<in> set cs \<Longrightarrow> follows (value_buf_mem junk d fmt c) (value_buf junk d fmt c)"
  shows "follows (members_buf_mem junk d fmt cs) (members_buf junk d fmt cs)"
  using assms
proof (induction cs)
  case Nil
  show ?case using follows_done [of True] by (simp add: members_buf_mem.simps [abs_def] members_buf.simps [abs_def])
next
  case (Cons c cs)
  let ?k = "if fmt then 2 else 1 :: nat" and ?l = "(if fmt then 1 else 0) + (if cs \<noteq> [] then 1 else 0 :: nat)"
  let ?s = "(if cs \<noteq> [] then '','' else []) @ (if fmt then [LF] else []) @ [NUL]"
  have a: "follows (\<lambda>p m. if fmt then emit_mem junk d (tabs d) d p m else Inr (True, p, m))
      (\<lambda>p. if fmt then emit junk d (tabs d) d p else Inr (True, p))"
    using follows_done [of True] follows_emit by (cases fmt) simp_all
  have b: "follows (\<lambda>p m. skip_result_mem (string_buf_mem junk (j_string (cj_node c)) p m))
      (\<lambda>p. skip_result (string_buf junk (j_string (cj_node c)) p))"
    unfolding string_buf_mem_def string_buf_def by (intro follows_skip follows_emit)
  have c: "follows (\<lambda>p m. skip_result_mem (value_buf_mem junk d fmt c p m)) (\<lambda>p. skip_result (value_buf junk d fmt c p))"
    using Cons.prems by (intro follows_skip) simp
  have r: "follows (members_buf_mem junk d fmt cs) (members_buf junk d fmt cs)" using Cons by simp
  show ?case
    unfolding members_buf_mem.simps [abs_def] members_buf.simps [abs_def] Let_def
    by (rule follows_then [OF a follows_then [OF b follows_then [OF follows_emit [of junk ?k "'':'' @ (if fmt then [TAB] else [])" ?k]
      follows_then [OF c follows_then [OF follows_emit [of junk "?l + 1" ?s ?l] r]]]]])
qed

lemma follows_value: "follows (value_buf_mem junk d fmt t) (value_buf junk d fmt t)"
proof (induction t arbitrary: d)
  case (CJ n cs)
  note its = follows_items [of cs junk fmt, OF CJ] and ms = follows_members [of cs junk fmt, OF CJ]
  let ?t = "j_type n AND 255" and ?k = "if fmt then 2 else 1 :: nat"
  have num: "follows (number_buf_mem junk n) (number_buf junk n)"
    using follows_emit by (cases "number_text n") (simp add: number_buf_mem_def [abs_def] number_buf_def [abs_def])
  have str: "follows (string_buf_mem junk (j_valuestring n)) (string_buf junk (j_valuestring n))"
    using follows_emit by (simp add: string_buf_mem_def [abs_def] string_buf_def [abs_def])
  note arrs = follows_then [OF follows_emit [of junk 1 "''[''" 1]
      follows_then [OF its [of "d + 1"] follows_emit [of junk 2 "'']'' @ [NUL]" 0]]]
  note objs = follows_then [OF follows_emit [of junk "?k + 1" "''{'' @ (if fmt then [LF] else []) @ [NUL]" ?k]
      follows_then [OF ms [of "d + 1"] follows_emit [of junk "if fmt then d + 1 + 1 else 2"
        "(if fmt then tabs d else []) @ ''}'' @ [NUL]" 0]]]
  consider "?t = cJSON_NULL" | "?t = cJSON_False" | "?t = cJSON_True" | "?t = cJSON_Number" | "?t = cJSON_String"
    | (arr) "?t = cJSON_Array" | (obj) "?t = cJSON_Object" | (none) "?t \<notin> json_types"
    unfolding json_types_def by blast
  then show ?case
  proof cases
    case arr
    then show ?thesis using arrs follows_emit
      by (cases "cs = []") (simp_all add: value_buf_mem.simps [abs_def] value_buf.simps [abs_def] Let_def)
  next
    case obj
    then show ?thesis using objs follows_emit
      by (cases "cs = []") (simp_all add: value_buf_mem.simps [abs_def] value_buf.simps [abs_def] Let_def)
  next
    case none
    then show ?thesis using follows_done [of False]
      by (simp add: value_buf_mem.simps [abs_def] value_buf.simps [abs_def] Let_def json_types_def)
  qed (use num str follows_emit in \<open>simp_all add: value_buf_mem.simps [abs_def] value_buf.simps [abs_def] Let_def\<close>)
qed

text \<open>A printer that has printed has a buffer.\<close>

lemma emit_has: "emit_mem junk n s k p m = Inr (True, q, m') \<Longrightarrow> pb_buffer q \<noteq> None"
  by (auto simp: emit_mem_def cbind_Inr_iff split: if_splits option.splits)

lemma then_has: "andthen_mem x g = Inr (True, q, m') \<Longrightarrow> (\<And>p m. g p m = Inr (True, q, m') \<Longrightarrow> P) \<Longrightarrow> P"
  by (auto simp: andthen_mem_def cbind_Inr_iff split: if_splits)

lemma value_has: "value_buf_mem junk d fmt t p m = Inr (True, q, m') \<Longrightarrow> pb_buffer q \<noteq> None"
  by (cases t) (auto simp: Let_def number_buf_mem_def string_buf_mem_def split: if_splits prod.splits
      elim!: then_has dest!: emit_has)

lemma lost_value:
  assumes "lost m p (value_buf_mem junk d fmt t p m)"
  obtains q m' where "value_buf_mem junk d fmt t p m = Inr (False, q, m')" "m_live m' = m_live m - own p"
proof -
  obtain ok q m' where "value_buf_mem junk d fmt t p m = Inr (ok, q, m')" "pb_buffer q = None" "m_live m' = m_live m - own p"
    using assms by (auto simp: lost_def)
  then show ?thesis using that value_has by (cases ok) auto
qed

lemma follows_use:
  assumes "follows fm f" "f p = Inr (ok, q)"
  shows "(\<exists>m'. fm p m = Inr (ok, q, m') \<and> gives m (own q - own p) m') \<or> (\<not> willing m \<and> lost m p (fm p m))"
  using assms unfolding follows_def by blast

text \<open>
  Whatever allocation fails, the buffered printer leaks nothing when it prints an item that can be printed: it
  gives the text that it gives with enough memory, in one block, or nothing, and then its buffer is gone too.
\<close>

lemma json_buffered_memory:
  assumes "cJSON_PrintBuffered junk t prebuffer fmt = Inr (Some s)"
  shows "\<exists>r m'. PrintBuffered_mem junk t prebuffer fmt m = Inr (r, m') \<and> m_live m' = m_live m + int (made r) \<and>
    (r = Some s \<or> r = None \<and> \<not> willing m)"
proof -
  let ?p = "\<lparr>pb_buffer = if prebuffer < 0 then None else Some (map junk [0..<nat prebuffer]), pb_offset = 0\<rparr>"
  obtain q b where q: "value_buf junk 0 fmt t ?p = Inr (True, q)" "pb_buffer q = Some b" "buf_string b = Inr s"
    using assms by (auto simp: cJSON_PrintBuffered_def cbind_Inr_iff split: if_splits option.splits)
  have p: "\<not> prebuffer < 0"
  proof
    let ?m = "\<lparr>m_answers = [], m_live = 0\<rparr>"
    assume "prebuffer < 0"
    then have "lost ?m ?p (value_buf_mem junk 0 fmt t ?p ?m)"
      using follows_value [of junk 0 fmt t] by (simp add: follows_def)
    then obtain q' m' where "value_buf_mem junk 0 fmt t ?p ?m = Inr (False, q', m')" by (rule lost_value)
    then show False using follows_use [OF follows_value q(1), of ?m] by (simp add: willing_def)
  qed
  obtain ok m1 where a: "malloc m = (ok, m1)" by fastforce
  note g = malloc_gives [OF a]
  show ?thesis
  proof (cases ok)
    case False
    let ?q = "\<lparr>pb_buffer = None, pb_offset = 0\<rparr>"
    have "lost m1 ?q (value_buf_mem junk 0 fmt t ?q m1)"
      using follows_value [of junk 0 fmt t] by (simp add: follows_def)
    then obtain q' m' where "value_buf_mem junk 0 fmt t ?q m1 = Inr (False, q', m')" "m_live m' = m_live m1"
      by (rule lost_value) (simp add: own_def)
    then show ?thesis using False a g p malloc_willing [OF a] by (auto simp: PrintBuffered_mem_def gives_def)
  next
    case True
    from follows_use [OF follows_value q(1), of m1] show ?thesis
    proof
      assume "\<exists>m'. value_buf_mem junk 0 fmt t ?p m1 = Inr (True, q, m') \<and> gives m1 (own q - own ?p) m'"
      then show ?thesis using True a g p q(2,3) by (auto simp: PrintBuffered_mem_def gives_def own_def)
    next
      assume l: "\<not> willing m1 \<and> lost m1 ?p (value_buf_mem junk 0 fmt t ?p m1)"
      then obtain q' m' where "value_buf_mem junk 0 fmt t ?p m1 = Inr (False, q', m')" "m_live m' = m_live m1 - own ?p"
        using lost_value by blast
      then show ?thesis using True a g p l by (auto simp: PrintBuffered_mem_def gives_def own_def)
    qed
  qed
qed

lemma json_buffered_memory_witness:
  "\<exists>m'. PrintBuffered_mem (\<lambda>i. CHR ''x'') (CJ (new_item\<lparr>j_type := cJSON_NULL\<rparr>) []) 1 False
     \<lparr>m_answers = [True, False], m_live = 8\<rparr> = Inr (None, m') \<and> m_live m' = 8"
proof -
  let ?t = "CJ (new_item\<lparr>j_type := cJSON_NULL\<rparr>) []" and ?m = "\<lparr>m_answers = [True, False], m_live = 8\<rparr>"
  have "cJSON_PrintBuffered (\<lambda>i. CHR ''x'') ?t 1 False = Inr (Some ''null'')"
    by code_simp
  from json_buffered_memory [OF this, of ?m] obtain r m' where
    r: "PrintBuffered_mem (\<lambda>i. CHR ''x'') ?t 1 False ?m = Inr (r, m')" "m_live m' = 8 + int (made r)" by auto
  have "r = None" using r(1)
    by (simp add: PrintBuffered_mem_def emit_mem_def ensure_mem_def malloc_def free_def new_item_def to_int32_def Let_def
        split: if_splits)
  then show ?thesis using r by simp
qed

text \<open>An item of no type makes it give up without freeing its buffer.\<close>

lemma buffered_leaks:
  assumes "j_type n AND 255 \<notin> json_types" "0 \<le> prebuffer" "willing m"
  shows "\<exists>m'. PrintBuffered_mem junk (CJ n cs) prebuffer fmt m = Inr (None, m') \<and> m_live m' = m_live m + 1"
proof -
  obtain ok m1 where a: "malloc m = (ok, m1)" by fastforce
  then have "ok" "gives m 1 m1" using malloc_gives [OF a] malloc_willing [OF a] assms(3) by simp_all
  then show ?thesis using assms a by (auto simp: PrintBuffered_mem_def json_types_def Let_def gives_def)
qed

end
