(* ===== verification/Time_Text.thy ===== *)
theory Time_Text
  imports Utils
begin

text \<open>
  Facts on times printed with leading zeros, for the file and directory names that carry a time: their
  length is fixed, and a time can be read off its text.
\<close>

section \<open>Padded numbers\<close>

lemma zero_pad_length:
  assumes "0 \<le> i" "i < 10 ^ Suc k"
  shows "length (zero_pad (Suc k) i) = Suc k"
proof -
  have "nat i < 10 ^ Suc k" using assms by (simp add: nat_less_iff)
  then have "length (nat_digits (nat i)) \<le> Suc k" unfolding nat_digits_length .
  then show ?thesis using assms(1) by (simp add: zero_pad_def dec_def Let_def)
qed

lemma digits_val_zeros: "digits_val (replicate k (CHR ''0'') @ s) = digits_val s"
  by (induction k) (simp_all add: digits_val_def)

lemma zero_pad_inj:
  assumes "zero_pad n i = zero_pad n j" "0 \<le> i" "0 \<le> j"
  shows "i = j"
proof -
  have "digits_val (zero_pad n i) = nat i" if "0 \<le> i" for i
    using that by (simp add: zero_pad_def dec_def Let_def digits_val_zeros digits_val_nat)
  then show ?thesis using assms by (metis nat_eq_iff)
qed

lemma zero_pad_head:
  assumes "zero_pad (Suc k) i @ xs = zero_pad (Suc k) j @ ys" "0 \<le> i" "i < 10 ^ Suc k" "0 \<le> j" "j < 10 ^ Suc k"
  shows "i = j \<and> xs = ys"
  using assms zero_pad_inj zero_pad_length by (metis append_eq_append_conv)

lemma dec_no_NUL: "NUL \<notin> set (dec i)"
  using nat_digits_digits isdigit_not(8) by (auto simp: dec_def)

section \<open>Times\<close>

text \<open>What \<^verbatim>\<open>localtime\<close> returns: a calendar time with a year of at most four digits.\<close>

definition tm_range :: "c_tm \<Rightarrow> bool" where
  "tm_range t \<longleftrightarrow> 0 \<le> tm_year t + 1900 \<and> tm_year t + 1900 < 10000 \<and> 0 \<le> tm_mon t \<and> tm_mon t < 12 \<and>
     1 \<le> tm_mday t \<and> tm_mday t \<le> 31 \<and> 0 \<le> tm_hour t \<and> tm_hour t < 24 \<and> 0 \<le> tm_min t \<and> tm_min t < 60 \<and>
     0 \<le> tm_sec t \<and> tm_sec t \<le> 60"

lemma tm_range_lengths:
  assumes "tm_range t"
  shows "length (zero_pad 4 (tm_year t + 1900)) = 4" "length (zero_pad 2 (tm_mon t + 1)) = 2"
    "length (zero_pad 2 (tm_mday t)) = 2" "length (zero_pad 2 (tm_hour t)) = 2"
    "length (zero_pad 2 (tm_min t)) = 2" "length (zero_pad 2 (tm_sec t)) = 2"
  using assms zero_pad_length [of _ 3] zero_pad_length [of _ 1] by (simp_all add: tm_range_def eval_nat_numeral)

lemma zero_pad_4:
  "zero_pad 4 i @ xs = zero_pad 4 j @ ys \<Longrightarrow> 0 \<le> i \<Longrightarrow> i < 10000 \<Longrightarrow> 0 \<le> j \<Longrightarrow> j < 10000 \<Longrightarrow> i = j \<and> xs = ys"
  using zero_pad_head [of 3 i xs j ys] by (simp add: eval_nat_numeral)

lemma zero_pad_2:
  "zero_pad 2 i @ xs = zero_pad 2 j @ ys \<Longrightarrow> 0 \<le> i \<Longrightarrow> i < 100 \<Longrightarrow> 0 \<le> j \<Longrightarrow> j < 100 \<Longrightarrow> i = j \<and> xs = ys"
  using zero_pad_head [of 1 i xs j ys] by (simp add: eval_nat_numeral)

definition sample_tm :: c_tm where
  "sample_tm = \<lparr>tm_year = 117, tm_mon = 1, tm_mday = 9, tm_hour = 17, tm_min = 14, tm_sec = 11\<rparr>"

lemma sample_tm_range: "tm_range sample_tm"
  by (simp add: tm_range_def sample_tm_def)

end
