(* ===== verification/Logfile.thy ===== *)
theory Logfile
  imports Time_Text
begin

text \<open>
  The log files of \<^verbatim>\<open>logfile.c\<close>: a line gets the time in front and goes to the end of its file, which is
  renamed and begun again when it has reached its limit. The directory is a map from full names to
  contents; \<open>can\<close> says which names \<^verbatim>\<open>fopen\<close> may open or create, \<open>ren\<close> whether \<^verbatim>\<open>rename\<close> succeeds, and \<open>t\<close>
  is what \<^verbatim>\<open>localtime\<close> returns.
\<close>

section \<open>The code\<close>

type_synonym log_dir = "string \<Rightarrow> string option"

record log_state =
  gLogDir :: string
  gMaxLogFileSize :: u32
  gLogInitFlag :: bool

definition KB :: nat where "KB = 1000"
definition LOG_FILE_LIMIT :: nat where "LOG_FILE_LIMIT = 10 * 1000000"
definition LOG_LINE_LIMIT :: nat where "LOG_LINE_LIMIT = 1000"

definition log_state0 :: log_state where
  "log_state0 = \<lparr>gLogDir = ''./logs/'', gMaxLogFileSize = of_nat LOG_FILE_LIMIT, gLogInitFlag = False\<rparr>"

definition fGetSize :: "log_dir \<Rightarrow> string \<Rightarrow> nat" where
  "fGetSize fs f = (case fs f of None \<Rightarrow> 0 | Some s \<Rightarrow> length s)"

text \<open>The directory is copied to 256 bytes; the test lets a name of 256 characters pass.\<close>

definition Log_Init :: "string option \<Rightarrow> u32 \<Rightarrow> log_state \<Rightarrow> (int \<times> log_state) cres" where
  "Log_Init LogDir MaxLogFileSize g =
     (if gLogInitFlag g then Inr (0, g)
      else
        let finish = (\<lambda>g1.
          (let g2 = (if 2 * KB < unat MaxLogFileSize \<and> unat MaxLogFileSize \<le> 500 * KB
                     then g1\<lparr>gMaxLogFileSize := MaxLogFileSize\<rparr> else g1)
           in Inr (0, g2\<lparr>gLogInitFlag := True\<rparr>)))
        in case LogDir of
             None \<Rightarrow> finish g
           | Some d \<Rightarrow>
               if 256 < length d then Inr (- 1, g)
               else cbind (sprintf_buf 256 d) (\<lambda>d'. finish (g\<lparr>gLogDir := d'\<rparr>)))"

definition Log_UnInit :: "log_state \<Rightarrow> int \<times> log_state" where
  "Log_UnInit g = (0, if gLogInitFlag g then g\<lparr>gLogInitFlag := False\<rparr> else g)"

definition log_stamp :: "c_tm \<Rightarrow> string" where
  "log_stamp t =
     zero_pad 4 (tm_year t + 1900) @ zero_pad 2 (tm_mon t + 1) @ zero_pad 2 (tm_mday t) @ ''-'' @
     zero_pad 2 (tm_hour t) @ '':'' @ zero_pad 2 (tm_min t) @ '':'' @ zero_pad 2 (tm_sec t) @ '' ''"

definition archive_name :: "string \<Rightarrow> c_tm \<Rightarrow> string" where
  "archive_name full t =
     full @ ''-'' @ zero_pad 4 (tm_year t + 1900) @ zero_pad 2 (tm_mon t + 1) @ zero_pad 2 (tm_mday t) @ ''-'' @
     zero_pad 2 (tm_hour t) @ zero_pad 2 (tm_min t) @ zero_pad 2 (tm_sec t)"

definition c_rename :: "bool \<Rightarrow> log_dir \<Rightarrow> string \<Rightarrow> string \<Rightarrow> log_dir" where
  "c_rename ren fs f g = (if ren \<and> fs f \<noteq> None \<and> f \<noteq> g then (fs(g := fs f))(f := None) else fs)"

text \<open>The modes \<^verbatim>\<open>w+\<close> and \<^verbatim>\<open>a+\<close> of \<^verbatim>\<open>fopen\<close>: the directory behind the call, \<open>None\<close> when it fails.\<close>

definition fopen_w :: "(string \<Rightarrow> bool) \<Rightarrow> log_dir \<Rightarrow> string \<Rightarrow> log_dir option" where
  "fopen_w can fs f = (if can f then Some (fs(f \<mapsto> [])) else None)"

definition fopen_a :: "(string \<Rightarrow> bool) \<Rightarrow> log_dir \<Rightarrow> string \<Rightarrow> log_dir option" where
  "fopen_a can fs f = (if can f then Some (if fs f = None then fs(f \<mapsto> []) else fs) else None)"

definition c_fputs :: "string \<Rightarrow> log_dir \<Rightarrow> string \<Rightarrow> log_dir" where
  "c_fputs s fs f = fs(f := map_option (\<lambda>x. x @ s) (fs f))"

text \<open>The directory before the open, and the open itself, by the size found.\<close>

definition log_open ::
  "(string \<Rightarrow> bool) \<Rightarrow> bool \<Rightarrow> c_tm \<Rightarrow> string \<Rightarrow> u32 \<Rightarrow> log_dir \<Rightarrow> (log_dir \<times> log_dir option) cres" where
  "log_open can ren t full FileSizeLimit fs =
     (let fSize = fGetSize fs full
      in if fSize = 0 then Inr (fs, fopen_w can fs full)
         else if unat FileSizeLimit \<le> fSize then
           cbind (sprintf_buf 128 (archive_name full t)) (\<lambda>dest.
             let fs1 = c_rename ren fs full dest in Inr (fs1, fopen_w can fs1 full))
         else Inr (fs, fopen_a can fs full))"

text \<open>When the file cannot be opened the length of the line is returned all the same.\<close>

definition Log_MsgLine2 ::
  "(string \<Rightarrow> bool) \<Rightarrow> bool \<Rightarrow> c_tm \<Rightarrow> string option \<Rightarrow> string option \<Rightarrow> string option \<Rightarrow> u32 \<Rightarrow> log_dir \<Rightarrow>
    (int \<times> log_dir) cres" where
  "Log_MsgLine2 can ren t Dir FileName sLine FileSizeLimit fs =
     (case (Dir, FileName, sLine) of
        (Some d, Some n, Some s) \<Rightarrow>
          if FileSizeLimit = 0 then Inr (- 1, fs)
          else if LOG_LINE_LIMIT < length s then Inr (- 2, fs)
          else
            cbind (sprintf_buf (LOG_LINE_LIMIT + 32) (log_stamp t @ s)) (\<lambda>gsLine.
            cbind (sprintf_buf 128 (d @ ''/'')) (\<lambda>_.
            cbind (sprintf_buf 128 (d @ ''/'' @ n)) (\<lambda>full.
            cbind (log_open can ren t full FileSizeLimit fs) (\<lambda>(fs1, fp).
              case fp of
                None \<Rightarrow> Inr (int (length s), fs1)
              | Some fs2 \<Rightarrow> Inr (int (length gsLine), c_fputs gsLine fs2 full)))))
      | _ \<Rightarrow> Inr (- 1, fs))"

definition Log_MsgLine ::
  "(string \<Rightarrow> bool) \<Rightarrow> bool \<Rightarrow> c_tm \<Rightarrow> log_state \<Rightarrow> string option \<Rightarrow> string option \<Rightarrow> log_dir \<Rightarrow> (int \<times> log_dir) cres" where
  "Log_MsgLine can ren t g LogFileName sLine fs =
     Log_MsgLine2 can ren t (Some (gLogDir g)) LogFileName sLine (gMaxLogFileSize g) fs"

section \<open>Names and lines\<close>

lemma sprintf_buf_Inr: "sprintf_buf n s = Inr t \<longleftrightarrow> length s < n \<and> t = s"
  by (auto simp: sprintf_buf_def)

lemma log_stamp_length: "tm_range t \<Longrightarrow> length (log_stamp t) = 18"
  by (simp add: log_stamp_def tm_range_lengths)

lemma archive_name_length: "tm_range t \<Longrightarrow> length (archive_name full t) = length full + 16"
  by (simp add: archive_name_def tm_range_lengths)

lemma archive_name_ne [simp]: "archive_name full t \<noteq> full"
  by (simp add: archive_name_def)

lemma archive_name_inj:
  assumes "archive_name full t = archive_name full u" "tm_range t" "tm_range u"
  shows "t = u"
proof -
  note r = assms(2,3) [unfolded tm_range_def]
  have *: "zero_pad 4 (tm_year t + 1900) @ zero_pad 2 (tm_mon t + 1) @ zero_pad 2 (tm_mday t) @ ''-'' @
      zero_pad 2 (tm_hour t) @ zero_pad 2 (tm_min t) @ zero_pad 2 (tm_sec t) @ [] =
    zero_pad 4 (tm_year u + 1900) @ zero_pad 2 (tm_mon u + 1) @ zero_pad 2 (tm_mday u) @ ''-'' @
      zero_pad 2 (tm_hour u) @ zero_pad 2 (tm_min u) @ zero_pad 2 (tm_sec u) @ []"
    using assms(1) by (simp add: archive_name_def)
  have y: "tm_year t + 1900 = tm_year u + 1900 \<and> zero_pad 2 (tm_mon t + 1) @ zero_pad 2 (tm_mday t) @ ''-'' @
      zero_pad 2 (tm_hour t) @ zero_pad 2 (tm_min t) @ zero_pad 2 (tm_sec t) @ [] =
      zero_pad 2 (tm_mon u + 1) @ zero_pad 2 (tm_mday u) @ ''-'' @
      zero_pad 2 (tm_hour u) @ zero_pad 2 (tm_min u) @ zero_pad 2 (tm_sec u) @ []"
    by (rule zero_pad_4 [OF *]) (use r in simp_all)
  have m: "tm_mon t + 1 = tm_mon u + 1 \<and> zero_pad 2 (tm_mday t) @ ''-'' @
      zero_pad 2 (tm_hour t) @ zero_pad 2 (tm_min t) @ zero_pad 2 (tm_sec t) @ [] =
      zero_pad 2 (tm_mday u) @ ''-'' @ zero_pad 2 (tm_hour u) @ zero_pad 2 (tm_min u) @ zero_pad 2 (tm_sec u) @ []"
    by (rule zero_pad_2 [OF conjunct2 [OF y]]) (use r in simp_all)
  have d: "tm_mday t = tm_mday u \<and> ''-'' @ zero_pad 2 (tm_hour t) @ zero_pad 2 (tm_min t) @ zero_pad 2 (tm_sec t) @ [] =
      ''-'' @ zero_pad 2 (tm_hour u) @ zero_pad 2 (tm_min u) @ zero_pad 2 (tm_sec u) @ []"
    by (rule zero_pad_2 [OF conjunct2 [OF m]]) (use r in simp_all)
  then have d': "zero_pad 2 (tm_hour t) @ zero_pad 2 (tm_min t) @ zero_pad 2 (tm_sec t) @ [] =
      zero_pad 2 (tm_hour u) @ zero_pad 2 (tm_min u) @ zero_pad 2 (tm_sec u) @ []" by simp
  have h: "tm_hour t = tm_hour u \<and> zero_pad 2 (tm_min t) @ zero_pad 2 (tm_sec t) @ [] =
      zero_pad 2 (tm_min u) @ zero_pad 2 (tm_sec u) @ []"
    by (rule zero_pad_2 [OF d']) (use r in simp_all)
  have i: "tm_min t = tm_min u \<and> zero_pad 2 (tm_sec t) @ [] = zero_pad 2 (tm_sec u) @ []"
    by (rule zero_pad_2 [OF conjunct2 [OF h]]) (use r in simp_all)
  have s: "tm_sec t = tm_sec u \<and> ([] :: string) = []"
    by (rule zero_pad_2 [OF conjunct2 [OF i]]) (use r in simp_all)
  show ?thesis using y m d h i s by (intro c_tm.equality) simp_all
qed

section \<open>One call\<close>

definition log_text :: "log_dir \<Rightarrow> string \<Rightarrow> string" where
  "log_text fs f = (case fs f of None \<Rightarrow> [] | Some s \<Rightarrow> s)"

lemma fGetSize_text: "fGetSize fs f = length (log_text fs f)"
  by (simp add: fGetSize_def log_text_def split: option.splits)

text \<open>What a call does to a file that can be opened, when the names fit into their buffers.\<close>

definition rotates :: "u32 \<Rightarrow> string \<Rightarrow> log_dir \<Rightarrow> bool" where
  "rotates lim full fs \<longleftrightarrow> unat lim \<le> length (log_text fs full)"

definition log_step :: "c_tm \<Rightarrow> string \<Rightarrow> u32 \<Rightarrow> string \<Rightarrow> log_dir \<Rightarrow> log_dir" where
  "log_step t full lim s fs =
     (if rotates lim full fs then fs(archive_name full t := fs full, full \<mapsto> log_stamp t @ s)
      else fs(full \<mapsto> log_text fs full @ log_stamp t @ s))"

lemma Log_MsgLine2_step:
  assumes "tm_range t" "length s \<le> 1000" "lim \<noteq> 0" "length d + length n \<le> 110"
  shows "Log_MsgLine2 (\<lambda>_. True) True t (Some d) (Some n) (Some s) lim fs =
    Inr (int (length s) + 18, log_step t (d @ ''/'' @ n) lim s fs)"
proof -
  let ?full = "d @ ''/'' @ n"
  have l: "sprintf_buf (LOG_LINE_LIMIT + 32) (log_stamp t @ s) = Inr (log_stamp t @ s)"
    "sprintf_buf 128 (d @ ''/'') = Inr (d @ ''/'')" "sprintf_buf 128 ?full = Inr ?full"
    "sprintf_buf 128 (archive_name ?full t) = Inr (archive_name ?full t)"
    using assms by (simp_all add: sprintf_buf_def LOG_LINE_LIMIT_def log_stamp_length archive_name_length)
  have p: "0 < unat lim" using assms(3) by (simp add: unat_gt_0)
  have "\<exists>fs1 fs2. log_open (\<lambda>_. True) True t ?full lim fs = Inr (fs1, Some fs2) \<and>
      c_fputs (log_stamp t @ s) fs2 ?full = log_step t ?full lim s fs"
  proof (cases "log_text fs ?full = []")
    case True
    then show ?thesis using p
      by (simp add: log_open_def fGetSize_text fopen_w_def c_fputs_def log_step_def rotates_def)
  next
    case False
    then obtain x where x: "fs ?full = Some x" by (auto simp: log_text_def split: option.splits)
    show ?thesis
    proof (cases "unat lim \<le> length (log_text fs ?full)")
      case True
      then show ?thesis using False x archive_name_ne [of ?full t] l(4)
        by (simp add: log_open_def fGetSize_text fopen_w_def c_fputs_def log_step_def rotates_def c_rename_def
          fun_upd_twist del: append_assoc)
    next
      case 2: False
      then show ?thesis using False x
        by (simp add: log_open_def fGetSize_text fopen_a_def c_fputs_def log_step_def rotates_def log_text_def)
    qed
  qed
  then show ?thesis
    using assms l by (auto simp: Log_MsgLine2_def LOG_LINE_LIMIT_def log_stamp_length)
qed

section \<open>Nothing is lost\<close>

text \<open>
  A sequence of calls for one file; the times at which the file was renamed are collected.
\<close>

fun log_run ::
  "string \<Rightarrow> string \<Rightarrow> u32 \<Rightarrow> (c_tm \<times> string) list \<Rightarrow> log_dir \<Rightarrow> (log_dir \<times> c_tm list) cres" where
  "log_run d n lim [] fs = Inr (fs, [])"
| "log_run d n lim ((t, s) # es) fs =
     cbind (Log_MsgLine2 (\<lambda>_. True) True t (Some d) (Some n) (Some s) lim fs) (\<lambda>(r, fs1).
     cbind (log_run d n lim es fs1) (\<lambda>(fs2, ts).
       Inr (fs2, if rotates lim (d @ ''/'' @ n) fs then t # ts else ts)))"

definition log_entry :: "c_tm \<times> string \<Rightarrow> bool" where
  "log_entry e \<longleftrightarrow> tm_range (fst e) \<and> length (snd e) \<le> 1000"

definition log_lines :: "(c_tm \<times> string) list \<Rightarrow> string" where
  "log_lines es = concat (map (\<lambda>(t, s). log_stamp t @ s) es)"

definition archived :: "log_dir \<Rightarrow> string \<Rightarrow> c_tm list \<Rightarrow> string" where
  "archived fs full ts = concat (map (\<lambda>t. log_text fs (archive_name full t)) ts)"

lemma archived_cong:
  "(\<And>t. t \<in> set ts \<Longrightarrow> fs (archive_name full t) = gs (archive_name full t)) \<Longrightarrow> archived fs full ts = archived gs full ts"
  by (simp add: archived_def log_text_def cong: map_cong)

lemma log_step_other:
  "f \<noteq> full \<Longrightarrow> (rotates lim full fs \<Longrightarrow> f \<noteq> archive_name full t) \<Longrightarrow> log_step t full lim s fs f = fs f"
  by (simp add: log_step_def)

lemma log_run_lines:
  assumes "\<forall>e \<in> set es. log_entry e" "lim \<noteq> 0" "length d + length n \<le> 110" "full = d @ ''/'' @ n"
  shows "\<exists>fs' ts. log_run d n lim es fs = Inr (fs', ts) \<and> set ts \<subseteq> fst ` set es \<and>
    (\<forall>f. f \<noteq> full \<and> f \<notin> archive_name full ` set ts \<longrightarrow> fs' f = fs f) \<and>
    (distinct ts \<longrightarrow> archived fs' full ts @ log_text fs' full = log_text fs full @ log_lines es)"
  using assms(1)
proof (induction es arbitrary: fs)
  case Nil
  then show ?case by (simp add: archived_def log_lines_def)
next
  case (Cons e es)
  obtain t s where e: "e = (t, s)" by (cases e)
  have ok: "tm_range t" "length s \<le> 1000" using Cons.prems by (simp_all add: e log_entry_def)
  let ?fs1 = "log_step t full lim s fs"
  obtain fs' ts where ih: "log_run d n lim es ?fs1 = Inr (fs', ts)" "set ts \<subseteq> fst ` set es"
    "\<And>f. f \<noteq> full \<Longrightarrow> f \<notin> archive_name full ` set ts \<Longrightarrow> fs' f = ?fs1 f"
    "distinct ts \<Longrightarrow> archived fs' full ts @ log_text fs' full = log_text ?fs1 full @ log_lines es"
    using Cons.IH [of ?fs1] Cons.prems by auto
  have call: "Log_MsgLine2 (\<lambda>_. True) True t (Some d) (Some n) (Some s) lim fs = Inr (int (length s) + 18, ?fs1)"
    using Log_MsgLine2_step [OF ok assms(2,3)] assms(4) by simp
  have lines: "log_lines (e # es) = log_stamp t @ s @ log_lines es" by (simp add: log_lines_def e)
  have rng: "tm_range u" if "u \<in> set ts" for u
    using that ih(2) Cons.prems by (auto simp: log_entry_def)
  show ?case
  proof (cases "rotates lim full fs")
    case False
    have "log_text ?fs1 full = log_text fs full @ log_stamp t @ s" using False by (simp add: log_step_def log_text_def)
    moreover have "fs' f = fs f" if "f \<noteq> full" "f \<notin> archive_name full ` set ts" for f
      using ih(3) [OF that] that(1) False by (simp add: log_step_def)
    ultimately show ?thesis
      using call ih(1,2,4) False lines by (auto simp: e assms(4))
  next
    case True
    have new: "archive_name full t \<notin> archive_name full ` set ts" if "t \<notin> set ts"
      using that archive_name_inj ok(1) rng by blast
    have old: "log_text fs' (archive_name full t) = log_text fs full" if "t \<notin> set ts"
      using ih(3) [OF archive_name_ne new [OF that]] True by (simp add: log_step_def log_text_def)
    have "log_text ?fs1 full = log_stamp t @ s" using True by (simp add: log_step_def log_text_def)
    moreover have "fs' f = fs f" if "f \<noteq> full" "f \<notin> archive_name full ` set (t # ts)" for f
      using ih(3) [of f] log_step_other [of f full lim fs t s] that by auto
    moreover have "log_run d n lim (e # es) fs = Inr (fs', t # ts)"
      using call ih(1) True by (simp add: e assms(4))
    moreover have "set (t # ts) \<subseteq> fst ` set (e # es)" using ih(2) by (auto simp: e)
    ultimately show ?thesis
      using ih(4) old lines by (intro exI [of _ fs'] exI [of _ "t # ts"]) (auto simp: archived_def)
  qed
qed

text \<open>
  C12: Logging loses nothing as long as every \<^verbatim>\<open>fopen\<close> and \<^verbatim>\<open>rename\<close> succeeds and no file is renamed twice within
  a second: for any sequence of lines of at most 1000 characters, a directory and a name of at most 110
  together and a limit that is not 0, every call succeeds, and the renamed files in the order of their times
  followed by the current file hold what the file held, then the lines in order, each with its time. Other
  files stay as they are. What a failing rename loses is in \<open>log_rename_fails\<close>.
\<close>

theorem log_nothing_lost:
  assumes "\<forall>e \<in> set es. log_entry e" "lim \<noteq> 0" "length d + length n \<le> 110"
  shows "\<exists>fs' ts. log_run d n lim es fs = Inr (fs', ts) \<and>
    (\<forall>f. f \<noteq> d @ ''/'' @ n \<and> f \<notin> archive_name (d @ ''/'' @ n) ` set ts \<longrightarrow> fs' f = fs f) \<and>
    (distinct ts \<longrightarrow>
      archived fs' (d @ ''/'' @ n) ts @ log_text fs' (d @ ''/'' @ n) = log_text fs (d @ ''/'' @ n) @ log_lines es)"
  using log_run_lines [OF assms refl] by blast

theorem log_nothing_lost_witness:
  "\<exists>fs' ts. log_run ''d'' ''n'' 20 [(sample_tm, ''abc''), (sample_tm, ''de''), (sample_tm\<lparr>tm_sec := 12\<rparr>, ''f'')] Map.empty =
      Inr (fs', ts) \<and> fs' ''x'' = None"
proof -
  have "\<forall>e \<in> set [(sample_tm, ''abc''), (sample_tm, ''de''), (sample_tm\<lparr>tm_sec := 12\<rparr>, ''f'')]. log_entry e"
    by (simp add: log_entry_def tm_range_def sample_tm_def)
  from log_nothing_lost [OF this, of 20 "''d''" "''n''" Map.empty]
  obtain fs' ts where "log_run ''d'' ''n'' 20 [(sample_tm, ''abc''), (sample_tm, ''de''), (sample_tm\<lparr>tm_sec := 12\<rparr>, ''f'')]
      Map.empty = Inr (fs', ts)" "\<And>f. f \<noteq> ''d/n'' \<Longrightarrow> f \<notin> archive_name ''d/n'' ` set ts \<Longrightarrow> fs' f = None" by auto
  moreover have "''x'' \<notin> archive_name ''d/n'' ` set ts" by (auto simp: archive_name_def)
  ultimately show ?thesis by auto
qed

text \<open>Two renames within a second leave only the second of the two files.\<close>

lemma log_same_second:
  assumes "rotates lim full fs" "rotates lim full (log_step t full lim s fs)"
  shows "log_step t full lim s' (log_step t full lim s fs) (archive_name full t) = Some (log_stamp t @ s) \<and>
    log_step t full lim s fs (archive_name full t) = fs full"
  using assms by (simp add: log_step_def)

text \<open>A rename that fails loses the file: it is opened for writing all the same.\<close>

lemma log_rename_fails:
  assumes "fs full = Some x" "x \<noteq> []" "unat lim \<le> length x" "length full + 16 < 128" "tm_range t"
  shows "log_open (\<lambda>_. True) False t full lim fs = Inr (fs, Some (fs(full \<mapsto> [])))"
  using assms by (simp add: log_open_def fGetSize_def sprintf_buf_def archive_name_length fopen_w_def c_rename_def)

section \<open>The size of the files\<close>

text \<open>The directories that calls with limits of at most \<open>L\<close> lead to, whatever the system answers.\<close>

inductive log_reach :: "u32 \<Rightarrow> log_dir \<Rightarrow> bool" for L where
  empty: "log_reach L Map.empty"
| call: "log_reach L fs \<Longrightarrow> tm_range t \<Longrightarrow> lim \<le> L \<Longrightarrow> Log_MsgLine2 can ren t Dir FileName sLine lim fs = Inr (r, fs') \<Longrightarrow>
    log_reach L fs'"

definition small :: "nat \<Rightarrow> log_dir \<Rightarrow> bool" where
  "small b fs \<longleftrightarrow> (\<forall>f s. fs f = Some s \<longrightarrow> length s < b)"

lemma log_open_small:
  assumes "small b fs" "log_open can ren t full lim fs = Inr (fs1, fp)" "0 < b"
  shows "small b fs1 \<and> (\<forall>fs2. fp = Some fs2 \<longrightarrow> small b fs2 \<and> length (log_text fs2 full) < unat lim + (if lim = 0 then 1 else 0))"
proof -
  have p: "lim \<noteq> 0 \<Longrightarrow> 0 < unat lim" by (simp add: unat_gt_0)
  have r: "small b (c_rename ren fs full g)" for g
    using assms(1) by (auto simp: small_def c_rename_def)
  show ?thesis
    using assms p r [of "archive_name full t"]
    by (auto simp: log_open_def Let_def cbind_Inr_iff fopen_w_def fopen_a_def small_def log_text_def fGetSize_def
        sprintf_buf_def not_le split: if_splits option.splits)
qed

lemma Log_MsgLine2_small:
  assumes "small b fs" "Log_MsgLine2 can ren t Dir FileName sLine lim fs = Inr (r, fs')" "unat lim + 1018 \<le> b" "tm_range t"
  shows "small b fs'"
proof (cases "\<exists>d n s. Dir = Some d \<and> FileName = Some n \<and> sLine = Some s \<and> lim \<noteq> 0 \<and> length s \<le> LOG_LINE_LIMIT")
  case False
  then show ?thesis using assms(1,2) by (auto simp: Log_MsgLine2_def split: option.splits if_splits)
next
  case True
  then obtain d n s where a: "Dir = Some d" "FileName = Some n" "sLine = Some s" "lim \<noteq> 0" "length s \<le> LOG_LINE_LIMIT"
    by blast
  let ?full = "d @ ''/'' @ n"
  obtain fs1 fp where o: "log_open can ren t ?full lim fs = Inr (fs1, fp)"
    using assms(2) a by (auto simp: Log_MsgLine2_def cbind_Inr_iff sprintf_buf_Inr)
  have f: "fs' = (case fp of None \<Rightarrow> fs1 | Some fs2 \<Rightarrow> c_fputs (log_stamp t @ s) fs2 ?full)"
    using assms(2) a o by (cases fp) (auto simp: Log_MsgLine2_def cbind_Inr_iff sprintf_buf_Inr)
  have sm: "small b fs1" "\<And>fs2. fp = Some fs2 \<Longrightarrow> small b fs2 \<and> length (log_text fs2 ?full) < unat lim"
    using log_open_small [OF assms(1) o] assms(3) a(4) by auto
  show ?thesis
  proof (cases fp)
    case (Some fs2)
    have "small b fs2" "length (log_text fs2 ?full) < unat lim" using sm(2) Some by simp_all
    then show ?thesis
      using f Some assms(3,4) a(5) by (auto simp: small_def c_fputs_def log_text_def LOG_LINE_LIMIT_def log_stamp_length)
  qed (use f sm in simp)
qed

text \<open>
  C30: No file grows past its limit by more than a line: whatever the names, lines, limits of at most
  \<open>L\<close> and answers of the system, a call that returns leaves every file, renamed ones included, with less
  than \<open>L\<close> and 1018 bytes, the longest line with its time.
\<close>

theorem log_size_bounded:
  assumes "log_reach L fs" "fs f = Some s"
  shows "length s < unat L + 1018"
proof -
  have "small (unat L + 1018) fs"
    using assms(1)
  proof induction
    case empty
    then show ?case by (simp add: small_def)
  next
    case (call fs t lim can ren Dir FileName sLine r fs')
    have "unat lim \<le> unat L" using call.hyps by (simp add: word_le_nat_alt)
    then show ?case using Log_MsgLine2_small [OF call.IH call.hyps(4)] call.hyps(2) by simp
  qed
  then show ?thesis using assms(2) by (simp add: small_def)
qed

theorem log_size_bounded_witness:
  "\<exists>fs. log_reach 20 fs \<and> fs ''d/n'' = Some (log_stamp sample_tm @ ''abc'') \<and> length (log_stamp sample_tm @ ''abc'') < 1038"
proof -
  let ?fs = "log_step sample_tm ''d/n'' 20 ''abc'' Map.empty"
  have c: "Log_MsgLine2 (\<lambda>_. True) True sample_tm (Some ''d'') (Some ''n'') (Some ''abc'') 20 Map.empty = Inr (21, ?fs)"
    using Log_MsgLine2_step [OF sample_tm_range, of "''abc''" 20 "''d''" "''n''" Map.empty] by simp
  have r: "log_reach 20 ?fs" by (rule log_reach.call [OF log_reach.empty sample_tm_range _ c]) simp
  have v: "?fs ''d/n'' = Some (log_stamp sample_tm @ ''abc'')" by (simp add: log_step_def rotates_def log_text_def)
  show ?thesis using log_size_bounded [OF r v] r v by auto
qed

section \<open>Setting up\<close>

text \<open>
  A directory name of exactly 256 characters passes the test of \<^verbatim>\<open>Log_Init\<close> and overruns the buffer by
  its terminator; a longer one is refused and a shorter one taken. A limit outside 2001 to 500000 leaves
  the old one.
\<close>

lemma log_init_overflow:
  assumes "\<not> gLogInitFlag g"
  shows "(Log_Init (Some dir) m g = Inl Out_Of_Bounds \<longleftrightarrow> length dir = 256) \<and>
    (Log_Init (Some dir) m g = Inr (- 1, g) \<longleftrightarrow> 256 < length dir) \<and>
    (length dir < 256 \<longrightarrow> Log_Init (Some dir) m g = Inr (0, \<lparr>gLogDir = dir,
       gMaxLogFileSize = (if 2000 < unat m \<and> unat m \<le> 500000 then m else gMaxLogFileSize g), gLogInitFlag = True\<rparr>))"
  using assms by (cases g) (auto simp: Log_Init_def sprintf_buf_def KB_def Let_def)

end
