(* ===== verification/Os_Sys.thy ===== *)
theory Os_Sys
  imports Time_Text
begin

unbundle bit_operations_syntax

text \<open>
  The wrappers of \<^verbatim>\<open>vos.c\<close>: memory, semaphores and threads, times and directories, mounts, addresses,
  storage, copies of files, shell commands and the update of the firmware. What the system answers is an
  argument; a command that is handed to the shell is the text of the command.
\<close>

section \<open>Memory\<close>

text \<open>The number of bytes \<^verbatim>\<open>osMalloc\<close> asks \<^verbatim>\<open>calloc\<close> for.\<close>

definition osMalloc :: "32 word \<Rightarrow> u64" where
  "osMalloc sz =
     (let sz' = (if sz AND 0xFFF \<noteq> 0 then sz + (4096 - (sz AND 0xFFF)) else sz) in scast sz')"

section \<open>Semaphores\<close>

text \<open>
  The values of the semaphores that exist. A null handle is accepted everywhere; a wait on the value 0
  has not returned, which is \<open>None\<close>.
\<close>

type_synonym sems = "nat \<Rightarrow> nat option"

definition osCreateSemaphore :: "nat \<Rightarrow> nat \<Rightarrow> sems \<Rightarrow> nat option \<times> sems" where
  "osCreateSemaphore new level ss = (Some new, ss(new \<mapsto> level))"

definition osTryWaitSemaphore :: "nat option \<Rightarrow> sems \<Rightarrow> (int \<times> sems) cres" where
  "osTryWaitSemaphore sem ss =
     (case sem of
        None \<Rightarrow> Inr (0, ss)
      | Some s \<Rightarrow> (case ss s of
          None \<Rightarrow> Inl Use_After_Free
        | Some v \<Rightarrow> if v = 0 then Inr (- 1, ss) else Inr (0, ss(s \<mapsto> v - 1))))"

definition osWaitSemaphore :: "nat option \<Rightarrow> sems \<Rightarrow> (int \<times> sems) option cres" where
  "osWaitSemaphore sem ss =
     (case sem of
        None \<Rightarrow> Inr (Some (0, ss))
      | Some s \<Rightarrow> (case ss s of
          None \<Rightarrow> Inl Use_After_Free
        | Some v \<Rightarrow> Inr (if v = 0 then None else Some (0, ss(s \<mapsto> v - 1)))))"

definition SEM_VALUE_MAX :: nat where "SEM_VALUE_MAX = 2 ^ 31 - 1"

definition osPostSemaphore :: "nat option \<Rightarrow> sems \<Rightarrow> (int \<times> sems) cres" where
  "osPostSemaphore sem ss =
     (case sem of
        None \<Rightarrow> Inr (0, ss)
      | Some s \<Rightarrow> (case ss s of
          None \<Rightarrow> Inl Use_After_Free
        | Some v \<Rightarrow> if v = SEM_VALUE_MAX then Inr (- 1, ss) else Inr (0, ss(s \<mapsto> v + 1))))"

definition osDestroySemaphore :: "nat option \<Rightarrow> sems \<Rightarrow> (int \<times> sems) cres" where
  "osDestroySemaphore sem ss =
     (case sem of
        None \<Rightarrow> Inr (0, ss)
      | Some s \<Rightarrow> if ss s = None then Inl Use_After_Free else Inr (0, ss(s := None)))"

section \<open>Threads\<close>

text \<open>
  \<open>th_blocks\<close> are the blocks allocated for thread identifiers, \<open>th_live\<close> the identifiers of threads that
  can be joined.
\<close>

record threads =
  th_blocks :: "nat \<Rightarrow> nat option"
  th_live :: "nat set"

text \<open>\<open>new\<close> is the block that \<^verbatim>\<open>malloc\<close> gives, \<open>tid\<close> the identifier from \<^verbatim>\<open>pthread_create\<close> or \<open>None\<close>.\<close>

definition osCreateThread :: "nat \<Rightarrow> nat option \<Rightarrow> threads \<Rightarrow> nat option \<times> threads" where
  "osCreateThread new tid h =
     (case tid of
        None \<Rightarrow> (None, h\<lparr>th_blocks := (th_blocks h)(new \<mapsto> 0)\<rparr>)
      | Some t \<Rightarrow> (Some new, h\<lparr>th_blocks := (th_blocks h)(new \<mapsto> t), th_live := insert t (th_live h)\<rparr>))"

definition osCreateThreadJoinable :: "nat \<Rightarrow> nat option \<Rightarrow> threads \<Rightarrow> nat option \<times> threads" where
  "osCreateThreadJoinable = osCreateThread"

definition osJoinThread :: "nat option \<Rightarrow> threads \<Rightarrow> (int \<times> threads) cres" where
  "osJoinThread thread h =
     (case thread of
        None \<Rightarrow> Inr (0, h)
      | Some a \<Rightarrow> (case th_blocks h a of
          None \<Rightarrow> Inl Use_After_Free
        | Some t \<Rightarrow> Inr (0, h\<lparr>th_blocks := (th_blocks h)(a := None), th_live := th_live h - {t}\<rparr>)))"

section \<open>Shell commands\<close>

text \<open>\<^verbatim>\<open>WIFEXITED\<close> and \<^verbatim>\<open>WEXITSTATUS\<close> on the status that \<^verbatim>\<open>system\<close> returns.\<close>

definition WIFEXITED :: "u32 \<Rightarrow> bool" where
  "WIFEXITED status \<longleftrightarrow> status AND 0x7F = 0"

definition WEXITSTATUS :: "u32 \<Rightarrow> int" where
  "WEXITSTATUS status = uint (drop_bit 8 (status AND 0xFF00))"

definition osSystem :: "u32 \<Rightarrow> int" where
  "osSystem status =
     (if status = - 1 then - 1
      else if WIFEXITED status then (if 0 \<le> WEXITSTATUS status then WEXITSTATUS status else - 2)
      else - 3)"

section \<open>Times and directories\<close>

definition osRecGetTime :: "c_tm \<Rightarrow> string" where
  "osRecGetTime t =
     zero_pad 4 (tm_year t + 1900) @ zero_pad 2 (tm_mon t + 1) @ zero_pad 2 (tm_mday t) @
     zero_pad 2 (tm_hour t) @ zero_pad 2 (tm_min t) @ zero_pad 2 (tm_sec t)"

text \<open>The format has a \<^verbatim>\<open>d\<close> behind the year.\<close>

definition osSYS_GetTime :: "c_tm \<Rightarrow> string" where
  "osSYS_GetTime t =
     zero_pad 4 (tm_year t + 1900) @ ''d-'' @ zero_pad 2 (tm_mon t + 1) @ ''-'' @ zero_pad 2 (tm_mday t) @ '' '' @
     zero_pad 2 (tm_hour t) @ '':'' @ zero_pad 2 (tm_min t) @ '':'' @ zero_pad 2 (tm_sec t)"

text \<open>
  The directory of the day. \<open>dirs\<close> are those that exist, \<open>status\<close> is what the shell answers to \<^verbatim>\<open>mkdir\<close>. The
  results are the code, the name stored in \<^verbatim>\<open>NewDir\<close>, if any, and the command run, if any.
\<close>

definition osRecCreateDir ::
  "(string \<Rightarrow> bool) \<Rightarrow> u32 \<Rightarrow> c_tm \<Rightarrow> string option \<Rightarrow> nat option \<Rightarrow> (int \<times> string option \<times> string option) cres" where
  "osRecCreateDir dirs status t Dir NewDir =
     (case (Dir, NewDir) of
        (Some d, Some cap) \<Rightarrow>
          cbind (sprintf_buf 128 (d @ zero_pad 4 (tm_year t + 1900) @ zero_pad 2 (tm_mon t + 1) @ zero_pad 2 (tm_mday t)))
            (\<lambda>LocalDir.
          if dirs LocalDir then cbind (sprintf_buf cap LocalDir) (\<lambda>n. Inr (0, Some n, None))
          else cbind (sprintf_buf 128 (''mkdir '' @ LocalDir)) (\<lambda>sCmd.
            let ret = osSystem status
            in if ret = 0 then cbind (sprintf_buf cap LocalDir) (\<lambda>n. Inr (ret, Some n, Some sCmd))
               else Inr (ret, None, Some sCmd)))
      | _ \<Rightarrow> Inr (- 1, None, None))"

section \<open>Mounts\<close>

text \<open>The command is put together in 256 bytes; nothing in it is quoted.\<close>

definition osNetMountNAS ::
  "string option \<Rightarrow> string option \<Rightarrow> string option \<Rightarrow> string option \<Rightarrow> int \<Rightarrow> (int \<times> string option) cres" where
  "osNetMountNAS user pwd smbsrv sharepath status =
     (case (user, pwd, smbsrv, sharepath) of
        (Some u, Some p, Some s, Some sp) \<Rightarrow>
          cbind (sprintf_buf 256 (''mount -t cifs -o '' @ ''username='' @ u @ '','' @ ''password='' @ p @ '' //'' @ s @
            (if take 1 sp \<noteq> ''/'' then ''/'' else []) @ sp @ '' '' @ ''/mnt/nas/''))
            (\<lambda>buf. Inr (status, Some buf))
      | _ \<Rightarrow> Inr (0, None))"

text \<open>\<^verbatim>\<open>strstr\<close>: the offset of the first occurrence.\<close>

fun c_strstr :: "string \<Rightarrow> string \<Rightarrow> nat option" where
  "c_strstr hay needle =
     (if take (length needle) hay = needle then Some 0
      else case hay of [] \<Rightarrow> None | c # cs \<Rightarrow> map_option Suc (c_strstr cs needle))"

declare c_strstr.simps [simp del]

text \<open>
  What \<^verbatim>\<open>read\<close> leaves in a zeroed array of 256 bytes: 256 bytes or more have no terminator, and a search
  that runs through them leaves the array.
\<close>

definition read_256 :: "string \<Rightarrow> string cres" where
  "read_256 s = (if 256 \<le> length s \<and> NUL \<notin> set (take 256 s) then Inl Out_Of_Bounds
                 else Inr (takeWhile (\<lambda>c. c \<noteq> NUL) (take 256 s)))"

text \<open>\<open>out\<close> is what the command left in its file, \<open>None\<close> when the file cannot be opened.\<close>

definition osNetIsMounted :: "string option \<Rightarrow> string option \<Rightarrow> int cres" where
  "osNetIsMounted MountPoint out =
     (case MountPoint of
        None \<Rightarrow> Inr (- 1)
      | Some mp \<Rightarrow>
          cbind (sprintf_buf 128 (''/bin/mount |/bin/grep '' @ mp @ '' >/tmp/mount.txt 2>/dev/null'')) (\<lambda>_.
          case out of
            None \<Rightarrow> Inr 0
          | Some s \<Rightarrow>
              if s = [] then Inr 0
              else if c_strstr (takeWhile (\<lambda>c. c \<noteq> NUL) (take 256 s)) mp \<noteq> None then Inr 1
              else cbind (read_256 s) (\<lambda>_. Inr 0)))"

text \<open>The occurrences that do not overlap; the search for an empty key stays at its place.\<close>

function count_key :: "string \<Rightarrow> string \<Rightarrow> nat cres" where
  "count_key hay key =
     (case c_strstr hay key of
        None \<Rightarrow> Inr 0
      | Some k \<Rightarrow>
          if key = [] then Inl Diverges
          else cbind (count_key (drop (k + length key) hay) key) (\<lambda>n. Inr (n + 1)))"
  by pat_completeness auto

lemma c_strstr_length: "c_strstr hay key = Some k \<Longrightarrow> k + length key \<le> length hay"
proof (induction hay arbitrary: k)
  case Nil
  then show ?case by (simp add: c_strstr.simps [of "[]"] split: if_splits)
next
  case (Cons c cs)
  show ?case
  proof (cases "take (length key) (c # cs) = key")
    case True
    then have "length key \<le> length (c # cs)" by (metis length_take min.cobounded1)
    then show ?thesis using True Cons.prems by (simp add: c_strstr.simps [of "c # cs"])
  next
    case False
    then show ?thesis using Cons by (auto simp: c_strstr.simps [of "c # cs"])
  qed
qed

termination count_key
proof (relation "measure (\<lambda>(h, k). length h)")
  fix hay key :: string and k
  assume a: "c_strstr hay key = Some k" "key \<noteq> []"
  show "((drop (k + length key) hay, key), hay, key) \<in> measure (\<lambda>(h, k). length h)"
    using c_strstr_length [OF a(1)] a(2) by (cases key) auto
qed simp

declare count_key.simps [simp del]

definition utl_DoesExist :: "string \<Rightarrow> string \<Rightarrow> string option \<Rightarrow> nat cres" where
  "utl_DoesExist cmd key out =
     cbind (sprintf_buf 128 (cmd @ '' |/bin/grep '' @ key @ '' >/tmp/.tmp 2>/dev/null'')) (\<lambda>_.
     case out of
       None \<Rightarrow> Inr 0
     | Some s \<Rightarrow> if s = [] then Inr 0 else cbind (read_256 s) (\<lambda>buf. count_key buf key))"

end
