(* ===== verification/Reboot.thy ===== *)
theory Reboot
  imports Logfile Os_Sys
begin

text \<open>
  The reset log and the reboot of \<^verbatim>\<open>reboot.c\<close>, over the directory model of the log files. A reboot through
  the watchdog never returns.
\<close>

section \<open>The code\<close>

definition IPC_RESET_LOG :: string where "IPC_RESET_LOG = ''/mnt/mtd/reset.log''"
definition IPC_RESET_LOG_SIZE :: nat where "IPC_RESET_LOG_SIZE = 100 * 1024"

text \<open>The mode \<^verbatim>\<open>r+\<close> of \<^verbatim>\<open>fopen\<close> makes no file.\<close>

definition fopen_r :: "(string \<Rightarrow> bool) \<Rightarrow> log_dir \<Rightarrow> string \<Rightarrow> log_dir option" where
  "fopen_r can fs f = (if can f \<and> fs f \<noteq> None then Some fs else None)"

definition FLASH_AddOneResetLog :: "(string \<Rightarrow> bool) \<Rightarrow> string \<Rightarrow> log_dir \<Rightarrow> log_dir" where
  "FLASH_AddOneResetLog can line fs =
     (let fSize = fGetSize fs IPC_RESET_LOG;
          fp = (if IPC_RESET_LOG_SIZE < fSize \<or> fSize = 0 then fopen_w can fs IPC_RESET_LOG
                else fopen_r can fs IPC_RESET_LOG)
      in case fp of None \<Rightarrow> fs | Some fs1 \<Rightarrow> c_fputs line fs1 IPC_RESET_LOG)"

definition space_pad :: "nat \<Rightarrow> int \<Rightarrow> string" where
  "space_pad n i = (let d = dec i in replicate (n - length d) (CHR '' '') @ d)"

definition reset_line :: "int \<Rightarrow> c_tm \<Rightarrow> string" where
  "reset_line ResetCode t =
     ''WdtReboot('' @ dec ResetCode @ '') is called at '' @ space_pad 4 (tm_year t + 1900) @ ''-'' @
     zero_pad 2 (tm_mon t + 1) @ ''-'' @ zero_pad 2 (tm_mday t) @ '' '' @ zero_pad 2 (tm_hour t) @ '':'' @
     zero_pad 2 (tm_min t) @ '':'' @ zero_pad 2 (tm_sec t) @ ''. '' @ [LF]"

datatype reboot_act = Wdt_Timeout | Shell string

text \<open>
  \<open>wdt\<close> tells whether one of the two watchdog devices opens. The results are the directory, what was done,
  and the code returned, \<open>None\<close> for the loop that waits for the reset.
\<close>

definition WdtReboot ::
  "(string \<Rightarrow> bool) \<Rightarrow> bool \<Rightarrow> c_tm \<Rightarrow> 32 word \<Rightarrow> log_dir \<Rightarrow> (log_dir \<times> reboot_act list \<times> int option) cres" where
  "WdtReboot can wdt t ResetCode fs =
     cbind (sprintf_buf 128 (reset_line (sint ResetCode) t)) (\<lambda>line.
       let fs1 = FLASH_AddOneResetLog can line fs
       in if \<not> wdt then Inr (fs1, [Shell ''ln -s /bin/busybox /tmp/reboot;/tmp/reboot'', Shell ''reboot''], Some 0)
          else Inr (fs1, [Wdt_Timeout, Shell ''reboot''], None))"

section \<open>The reset log stays small\<close>

lemma space_pad_length:
  assumes "0 \<le> i" "i < 10000"
  shows "length (space_pad 4 i) = 4"
proof -
  have "nat i < 10 ^ Suc 3" using assms by (simp add: nat_less_iff)
  then have "length (nat_digits (nat i)) \<le> Suc 3" unfolding nat_digits_length .
  then show ?thesis using assms(1) by (simp add: space_pad_def dec_def Let_def)
qed

lemma dec_word_length: "length (dec (sint (x :: 32 word))) < 16"
  by (rule dec_sint_short) simp

lemma reset_line_length:
  assumes "tm_range t"
  shows "length (reset_line (sint (c :: 32 word)) t) < 64"
proof -
  have "length (space_pad 4 (tm_year t + 1900)) = 4" using assms by (intro space_pad_length) (simp_all add: tm_range_def)
  then show ?thesis using dec_word_length [of c] tm_range_lengths [OF assms] by (simp add: reset_line_def)
qed

lemma reset_log_small:
  assumes "length (log_text fs IPC_RESET_LOG) < 102464" "length line < 64"
  shows "length (log_text (FLASH_AddOneResetLog can line fs) IPC_RESET_LOG) < 102464"
  using assms
  by (auto simp: FLASH_AddOneResetLog_def Let_def fGetSize_text fopen_w_def fopen_r_def c_fputs_def
      IPC_RESET_LOG_SIZE_def log_text_def split: option.splits)

text \<open>
  A reboot request with any code and at any time of four-digit years stays inside its line buffer,
  keeps the reset log below 102464 bytes, whatever it held if it was below, leaves every other file, and
  returns exactly when there is no watchdog; the line that says so is then the end of the log if the log
  can be opened.
\<close>

lemma reboot_logged:
  assumes "tm_range t" "length (log_text fs IPC_RESET_LOG) < 102464"
  shows "\<exists>fs' acts. WdtReboot can wdt t code fs = Inr (fs', acts, if wdt then None else Some 0) \<and>
    length (log_text fs' IPC_RESET_LOG) < 102464 \<and> (\<forall>f. f \<noteq> IPC_RESET_LOG \<longrightarrow> fs' f = fs f) \<and>
    (can IPC_RESET_LOG \<longrightarrow> (\<exists>old. fs' IPC_RESET_LOG = Some (old @ reset_line (sint code) t)))"
proof -
  let ?line = "reset_line (sint code) t" and ?fs = "FLASH_AddOneResetLog can (reset_line (sint code) t) fs"
  have l: "length ?line < 64" by (rule reset_line_length [OF assms(1)])
  then have "\<exists>acts. WdtReboot can wdt t code fs = Inr (?fs, acts, if wdt then None else Some 0)"
    by (simp add: WdtReboot_def sprintf_buf_def Let_def)
  moreover have "length (log_text ?fs IPC_RESET_LOG) < 102464" by (rule reset_log_small [OF assms(2) l])
  moreover have "\<forall>f. f \<noteq> IPC_RESET_LOG \<longrightarrow> ?fs f = fs f"
    by (auto simp: FLASH_AddOneResetLog_def Let_def fopen_w_def fopen_r_def c_fputs_def split: option.splits)
  moreover have "\<exists>old. ?fs IPC_RESET_LOG = Some (old @ ?line)" if "can IPC_RESET_LOG"
    using that by (auto simp: FLASH_AddOneResetLog_def Let_def fGetSize_def fopen_w_def fopen_r_def c_fputs_def)
  ultimately show ?thesis by blast
qed

lemma reboot_logged_witness:
  "\<exists>fs' acts. WdtReboot (\<lambda>_. True) False sample_tm 11 Map.empty = Inr (fs', acts, Some 0) \<and> fs' IPC_RESET_LOG \<noteq> None"
proof -
  have "length (log_text Map.empty IPC_RESET_LOG) < 102464" by (simp add: log_text_def)
  from reboot_logged [OF sample_tm_range this, of "\<lambda>_. True" False 11] show ?thesis by auto
qed

end
