(* ===== verification/Os_Files.thy ===== *)
theory Os_Files
  imports Os_Sys
begin

text \<open>
  The wrappers of \<^verbatim>\<open>vos.c\<close> that read interface addresses and file system sizes, make and copy files,
  and update the firmware.
\<close>

section \<open>Addresses of an interface\<close>

text \<open>
  \<open>sock\<close> is the descriptor, which the code tests for zero, \<open>hw\<close> the hardware address that the kernel gives
  for the name. The name is copied into 16 bytes by the length the caller gives.
\<close>

definition mac_request ::
  "(u8 list \<Rightarrow> string) \<Rightarrow> string option \<Rightarrow> nat \<Rightarrow> nat option \<Rightarrow> int \<Rightarrow> u8 list option \<Rightarrow> (int \<times> string option) cres" where
  "mac_request fmt netcard nlen mac sock hw =
     (case (netcard, mac) of
        (Some n, Some cap) \<Rightarrow>
          if 16 < nlen \<or> length n + 1 < nlen then Inl Out_Of_Bounds
          else if sock = 0 then Inr (- 2, None)
          else (case hw of
                  Some bs \<Rightarrow>
                    if 0 < sock then cbind (sprintf_buf cap (fmt bs)) (\<lambda>m. Inr (0, Some m)) else Inr (- 3, None)
                | None \<Rightarrow> Inr (- 3, None))
      | _ \<Rightarrow> Inr (- 1, None))"

definition osNetGetMacAddr :: "string option \<Rightarrow> nat \<Rightarrow> nat option \<Rightarrow> int \<Rightarrow> u8 list option \<Rightarrow> (int \<times> string option) cres" where
  "osNetGetMacAddr = mac_request raw_mac_text"

definition utl_NetGetMacAddr :: "string option \<Rightarrow> nat \<Rightarrow> nat option \<Rightarrow> int \<Rightarrow> u8 list option \<Rightarrow> (int \<times> string option) cres" where
  "utl_NetGetMacAddr = mac_request mac_text"

definition ip_text :: "u8 list \<Rightarrow> string" where
  "ip_text a = dec (uint (a ! 0)) @ ''.'' @ dec (uint (a ! 1)) @ ''.'' @ dec (uint (a ! 2)) @ ''.'' @ dec (uint (a ! 3))"

text \<open>
  The first of four address families that gives a socket; the text goes into the caller's bytes
  without its terminator.
\<close>

fun first_sock :: "int list \<Rightarrow> int" where
  "first_sock [] = - 1"
| "first_sock (s # ss) = (if 0 \<le> s then s else first_sock ss)"

definition osNetGetIP :: "string option \<Rightarrow> string option \<Rightarrow> int list \<Rightarrow> u8 list option \<Rightarrow> (int \<times> string option) cres" where
  "osNetGetIP ifname ip socks addr =
     (case (ifname, ip) of
        (Some i, Some buf) \<Rightarrow>
          if first_sock (take 4 socks) < 0 then Inr (- 1, Some buf)
          else (case addr of
                  None \<Rightarrow> Inr (- 2, Some buf)
                | Some a \<Rightarrow> cbind (buf_write buf 0 (ip_text a)) (\<lambda>b. Inr (0, Some b)))
      | _ \<Rightarrow> Inr (- 1, ip))"

section \<open>Storage\<close>

definition kscale :: "u64 \<Rightarrow> u64 \<Rightarrow> u64" where
  "kscale b bs = (b * bs + 1024 div 2) div 1024"

text \<open>\<open>fs\<close> is what \<^verbatim>\<open>statfs\<close> fills in: blocks, available blocks, size of a block. The results are \<^verbatim>\<open>int\<close>.\<close>

definition osGetStorageInfo ::
  "string option \<Rightarrow> bool \<Rightarrow> bool \<Rightarrow> (u64 \<times> u64 \<times> u64) option \<Rightarrow> int \<times> (32 word \<times> 32 word) option" where
  "osGetStorageInfo MountPoint totalKiloBytes freeKiloBytes fs =
     (if MountPoint = None \<or> \<not> totalKiloBytes \<or> \<not> freeKiloBytes then (- 1, None)
      else case fs of
        None \<Rightarrow> (- 2, None)
      | Some (blocks, bavail, bsize) \<Rightarrow> (0, Some (ucast (kscale blocks bsize), ucast (kscale bavail bsize))))"

section \<open>Files\<close>

text \<open>
  \<^verbatim>\<open>open\<close> with \<^verbatim>\<open>O_CREAT | O_RDWR\<close> and no mode: a new file gets whatever permissions lie on the stack.
\<close>

definition open_create :: "bool \<times> bool \<Rightarrow> world \<Rightarrow> string \<Rightarrow> world option" where
  "open_create perm w f =
     (case files w f of
        Some fl \<Rightarrow> if fl_read fl \<and> fl_write fl then Some w else None
      | None \<Rightarrow>
          if may_create w f
          then Some (w\<lparr>files := (files w)(f \<mapsto> \<lparr>fl_data = [], fl_mtime = now w, fl_read = fst perm, fl_write = snd perm\<rparr>)\<rparr>)
          else None)"

definition file_text :: "world \<Rightarrow> string \<Rightarrow> string" where
  "file_text w f = (case files w f of None \<Rightarrow> [] | Some fl \<Rightarrow> fl_data fl)"

text \<open>\<open>k\<close> is the number of bytes that \<^verbatim>\<open>write\<close> takes, or \<open>-1\<close>.\<close>

definition osFileNew ::
  "bool \<times> bool \<Rightarrow> int \<Rightarrow> world \<Rightarrow> string option \<Rightarrow> string option \<Rightarrow> int \<Rightarrow> (int \<times> world) cres" where
  "osFileNew perm k w filename data len =
     (case (filename, data) of
        (Some f, Some d) \<Rightarrow>
          (case open_create perm w f of
             None \<Rightarrow> Inr (- 3, w)
           | Some w1 \<Rightarrow>
               if len < 0 \<or> int (length d) < len then Inl Out_Of_Bounds
               else Inr (if len \<noteq> k then - 4 else k, set_data w1 f (take (nat k) (take (nat len) d))))
      | _ \<Rightarrow> Inr (- 1, w))"

text \<open>Bytes written at a position over what is there.\<close>

definition overwrite :: "string \<Rightarrow> nat \<Rightarrow> string \<Rightarrow> string" where
  "overwrite old p s = take p old @ s @ drop (p + length s) old"

text \<open>
  The loop of \<^verbatim>\<open>osFileCopy\<close>: what is left to read, the bytes at the destination, the position, the
  answers of \<^verbatim>\<open>read\<close> and \<^verbatim>\<open>write\<close> in pairs. The result is the count of the bytes copied, \<open>None\<close> while the
  kernel has not answered.
\<close>

fun copy_loop :: "(int \<times> int) list \<Rightarrow> string \<Rightarrow> string \<Rightarrow> nat \<Rightarrow> (nat \<times> string) option" where
  "copy_loop [] rest out p = None"
| "copy_loop ((r, k) # ks) rest out p =
     (if r \<le> 0 then Some (p, out)
      else
        let out' = overwrite out p (take (nat k) (take (nat r) rest))
        in if r \<noteq> k then Some (p, out')
           else copy_loop ks (drop (nat r) rest) out' (p + nat r))"

definition osFileCopy ::
  "bool \<times> bool \<Rightarrow> bool \<Rightarrow> (int \<times> int) list \<Rightarrow> world \<Rightarrow> string option \<Rightarrow> string option \<Rightarrow> (int \<times> world) option" where
  "osFileCopy perm stat_ok ks w infile outfile =
     (case (infile, outfile) of
        (Some i, Some f) \<Rightarrow>
          if \<not> can_read w i then Some (- 2, w)
          else (case open_create perm w f of
                  None \<Rightarrow> Some (- 3, w)
                | Some w1 \<Rightarrow>
                    if \<not> stat_ok then Some (- 4, w1)
                    else (case copy_loop ks (file_text w1 i) (file_text w1 f) 0 of
                            None \<Rightarrow> None
                          | Some (sz, out) \<Rightarrow>
                              Some (if int (length (file_text w1 i)) \<noteq> to_int32 (int sz) then - 5 else 0,
                                    set_data w1 f out)))
      | _ \<Rightarrow> Some (- 1, w))"

section \<open>The update of the firmware\<close>

text \<open>The last \<^verbatim>\<open>/\<close> of a string, and what stands behind it.\<close>

definition behind_slash :: "string \<Rightarrow> string option" where
  "behind_slash s = (if CHR ''/'' \<in> set s then Some (rev (takeWhile (\<lambda>c. c \<noteq> CHR ''/'') (rev s))) else None)"

text \<open>
  Without a slash the file name is the address 1, which is not null. The name up to its first dot goes
  into 32 bytes. \<open>killed\<close> is what \<^verbatim>\<open>utl_KillForced\<close> returns. The results are the code and the commands run,
  \<open>None\<close> while the process to be killed lives on.
\<close>

definition osFwNetUpdate ::
  "bool \<Rightarrow> bool \<Rightarrow> string \<Rightarrow> int \<Rightarrow> int option \<Rightarrow> string \<Rightarrow> (int \<times> string list) option cres" where
  "osFwNetUpdate tmpfs fetched swUpdateUrl pid killed wget =
     (let T = (if tmpfs then ''/mnt/mtd/ipc/tmpfs'' else ''/tmp'') in
      cbind (sprintf_buf 256 (''mkdir '' @ T @ ''/fw;cd '' @ T @ ''/fw;rm '' @ T @ ''/fw/* -rf;'' @ wget @ '' -c '' @ swUpdateUrl)) (\<lambda>c1.
      case behind_slash swUpdateUrl of
        None \<Rightarrow> Inl Out_Of_Bounds
      | Some filename \<Rightarrow>
          cbind (sprintf_buf 256 (T @ ''/fw/'' @ filename)) (\<lambda>_.
          if \<not> fetched then Inr (Some (- 2, [c1]))
          else case c_strchr filename (CHR ''.'') of
            None \<Rightarrow> Inl Out_Of_Bounds
          | Some k \<Rightarrow>
              cbind (sprintf_buf 32 (take k filename)) (\<lambda>name.
              if 0 < pid \<and> killed = None then Inr None
              else
                  cbind (sprintf_buf 256 (''cd '' @ T @ ''/fw;tar xf '' @ filename)) (\<lambda>c2.
                  cbind (sprintf_buf 256 (''cd '' @ T @ ''/fw/'' @ name @ ''/;sh appins.sh'')) (\<lambda>c3.
                  cbind (sprintf_buf 256 (''rm '' @ T @ ''/fw -rf'')) (\<lambda>c4.
                    Inr (Some (1, [c1, c2, c3, c4])))))))))"

end
