(* ===== verification/Os_Props.thy ===== *)
theory Os_Props
  imports Os_Files
begin

unbundle bit_operations_syntax

text \<open>What the wrappers of \<^verbatim>\<open>vos.c\<close> promise: sizes, exit codes, counts of semaphores and copies of files.\<close>

section \<open>Sizes\<close>

lemma and_4095: "(sz :: 32 word) AND 0xFFF = of_nat (unat sz mod 4096)"
proof -
  have "sz AND 0xFFF = take_bit 12 sz" by (simp add: take_bit_eq_mask mask_eq_exp_minus_1)
  then show ?thesis by (simp add: take_bit_eq_mod word_arith_nat_mod)
qed

lemma round_up_4096:
  fixes n :: nat
  assumes "n mod 4096 \<noteq> 0"
  shows "n + (4096 - n mod 4096) = 4096 * ((n + 4095) div 4096)"
proof -
  define q r where "q = n div 4096" and "r = n mod 4096"
  have n: "n = q * 4096 + r" "r < 4096" "0 < r" using assms by (simp_all add: q_def r_def)
  have "(n + 4095) div 4096 = q + 1" using n by (intro div_nat_eqI) simp_all
  then show ?thesis using n unfolding r_def [symmetric] by simp
qed

text \<open>
  For every size up to \<open>2 ^ 31 - 4096\<close> \<^verbatim>\<open>osMalloc\<close> asks for the least multiple of 4096 that holds it; for the
  sizes above that are no multiples the sum leaves the \<^verbatim>\<open>int\<close>.
\<close>

lemma osMalloc_pages:
  assumes "unat sz \<le> 2 ^ 31 - 4096"
  shows "unat (osMalloc sz) = 4096 * ((unat sz + 4095) div 4096)"
proof -
  let ?n = "unat sz" and ?m = "unat sz mod 4096"
  define sz' where "sz' = (if sz AND 0xFFF \<noteq> 0 then sz + (4096 - (sz AND 0xFFF)) else sz)"
  have z: "sz AND 0xFFF = 0 \<longleftrightarrow> ?m = 0"
  proof -
    have u: "unat (of_nat ?m :: 32 word) = ?m" by (simp add: unat_of_nat)
    show ?thesis
    proof
      assume "sz AND 0xFFF = 0"
      then have "unat (of_nat ?m :: 32 word) = 0" unfolding and_4095 by (simp only: unat_0)
      then show "?m = 0" using u by (simp only:)
    next
      assume "?m = 0"
      then show "sz AND 0xFFF = 0" using and_4095 [of sz] by (simp only: semiring_1_class.of_nat_0)
    qed
  qed
  have v: "unat sz' = 4096 * ((?n + 4095) div 4096)"
  proof (cases "?m = 0")
    case True
    then obtain q where "?n = 4096 * q" by auto
    then show ?thesis using z True by (simp add: sz'_def)
  next
    case False
    have e: "sz' = of_nat (?n + (4096 - ?m))"
      using False z unfolding sz'_def and_4095 by (simp add: of_nat_diff)
    have "?n + (4096 - ?m) < 2 ^ LENGTH(32)" using assms by simp
    then have "unat sz' = ?n + (4096 - ?m)" unfolding e by (simp only: unat_of_nat mod_less)
    then show ?thesis using round_up_4096 [OF False] by (simp only:)
  qed
  have "(?n + 4095) div 4096 \<le> (2 ^ 31 - 1) div 4096" using assms by (intro div_le_mono) simp
  then have le: "unat sz' \<le> 2147479552" unfolding v by simp
  then have "int (unat sz') \<le> int 2147479552" by (simp only: of_nat_le_iff)
  then have "uint sz' < 2 ^ 31" by simp
  then have "sint sz' = int (unat sz')"
    unfolding sint_uint by (subst signed_take_bit_int_eq_self) (simp_all add: order_trans [OF _ uint_ge_0])
  then have m: "osMalloc sz = of_nat (unat sz')"
    unfolding osMalloc_def Let_def sz'_def [symmetric] scast_eq by simp
  have "unat sz' < 2 ^ LENGTH(64)" using le by simp
  then have "unat (osMalloc sz) = unat sz'" unfolding m by (simp only: unat_of_nat mod_less)
  then show ?thesis unfolding v .
qed

lemma kscale_rounds:
  assumes "unat b * unat bs < 2 ^ 64 - 512"
  shows "unat (kscale b bs) = (unat b * unat bs + 512) div 1024"
proof -
  have "unat (b * bs) = unat b * unat bs" using assms by (intro unat_mult_lem [THEN iffD1]) simp
  then have "unat (b * bs + 512) = unat b * unat bs + 512"
    using assms by (subst unat_plus_if_size) (simp add: word_size)
  then show ?thesis by (simp add: kscale_def unat_div)
qed

section \<open>Exit codes\<close>

lemma osSystem_range: "osSystem status \<in> {- 3, - 1} \<union> {0..255}"
proof -
  have "uint (status AND 0xFF00) \<le> 0xFF00" by (simp add: unsigned_and_eq AND_upper2)
  then have "WEXITSTATUS status \<le> 255" by (simp add: WEXITSTATUS_def unsigned_drop_bit_eq drop_bit_eq_div uint_div)
  moreover have "0 \<le> WEXITSTATUS status" by (simp add: WEXITSTATUS_def)
  ultimately show ?thesis by (simp add: osSystem_def)
qed

section \<open>Semaphores\<close>

text \<open>
  The operations that one semaphore sees, each by its result: a wait that returned, a failed attempt, a
  post. The value is what it was made with plus the posts minus the waits, so never more threads are
  past their waits than posts and the first value allow.
\<close>

datatype sem_op = Try | Post

fun sem_run :: "nat \<Rightarrow> sem_op list \<Rightarrow> sems \<Rightarrow> (int list \<times> sems) cres" where
  "sem_run s [] ss = Inr ([], ss)"
| "sem_run s (x # xs) ss =
     cbind (case x of Try \<Rightarrow> osTryWaitSemaphore (Some s) ss | Post \<Rightarrow> osPostSemaphore (Some s) ss) (\<lambda>(r, ss1).
     cbind (sem_run s xs ss1) (\<lambda>(rs, ss2). Inr (r # rs, ss2)))"

fun passed :: "sem_op \<Rightarrow> sem_op list \<Rightarrow> int list \<Rightarrow> nat" where
  "passed y (x # xs) (r # rs) = (if x = y \<and> r = 0 then 1 else 0) + passed y xs rs"
| "passed y _ _ = 0"

lemma sem_count:
  "ss s = Some v \<Longrightarrow> \<exists>rs ss' v'. sem_run s xs ss = Inr (rs, ss') \<and> ss' s = Some v' \<and>
     length rs = length xs \<and> v + passed Post xs rs = v' + passed Try xs rs"
proof (induction xs arbitrary: ss v)
  case (Cons x xs)
  obtain r v1 where step: "(case x of Try \<Rightarrow> osTryWaitSemaphore (Some s) ss | Post \<Rightarrow> osPostSemaphore (Some s) ss) =
      Inr (r, ss(s \<mapsto> v1))"
    "v + (if x = Post \<and> r = 0 then 1 else 0) = v1 + (if x = Try \<and> r = 0 then 1 else 0)"
    using Cons.prems that [of "- 1" v] that [of 0 "v - 1"] that [of 0 "v + 1"]
    by (cases x; cases "v = 0"; cases "v = SEM_VALUE_MAX")
      (auto simp: osTryWaitSemaphore_def osPostSemaphore_def fun_upd_idem)
  obtain rs ss' v' where ih: "sem_run s xs (ss(s \<mapsto> v1)) = Inr (rs, ss')" "ss' s = Some v'" "length rs = length xs"
    "v1 + passed Post xs rs = v' + passed Try xs rs"
    using Cons.IH [of "ss(s \<mapsto> v1)" v1, OF fun_upd_same] by blast
  then show ?case using step by (intro exI [of _ "r # rs"] exI [of _ ss'] exI [of _ v']) simp
qed simp

lemma sem_null: "osTryWaitSemaphore None ss = Inr (0, ss) \<and> osWaitSemaphore None ss = Inr (Some (0, ss))"
  by (simp add: osTryWaitSemaphore_def osWaitSemaphore_def)

section \<open>Copies of files\<close>

text \<open>The kernel never gives or takes more than it was asked for, and it was asked for at most 4096 bytes.\<close>

fun answers_ok :: "(int \<times> int) list \<Rightarrow> string \<Rightarrow> bool" where
  "answers_ok [] rest \<longleftrightarrow> True"
| "answers_ok ((r, k) # ks) rest \<longleftrightarrow>
     r \<le> 4096 \<and> r \<le> int (length rest) \<and> k \<le> r \<and> answers_ok ks (drop (nat r) rest)"

lemma copy_loop_prefix:
  assumes "copy_loop ks rest out p = Some (n, out')" "answers_ok ks rest" "p \<le> length out"
  shows "p \<le> n \<and> n - p \<le> length rest \<and> take n out' = take p out @ take (n - p) rest \<and>
    (n - p = length rest \<longrightarrow> out' = take p out @ rest @ drop n out)"
  using assms
proof (induction ks rest out p rule: copy_loop.induct)
  case (2 r k ks rest out p)
  show ?case
  proof (cases "r \<le> 0")
    case True
    then show ?thesis using 2 by auto
  next
    case r: False
    let ?out = "overwrite out p (take (nat k) (take (nat r) rest))"
    have o: "take p ?out = take p out" using 2(4) by (simp add: overwrite_def)
    show ?thesis
    proof (cases "r = k")
      case False
      then have "n = p" "out' = ?out" using 2(2) r by (auto simp: Let_def)
      moreover have "rest \<noteq> []" using 2(3) r by auto
      ultimately show ?thesis using o by simp
    next
      case True
      let ?r = "nat r"
      have l: "?r \<le> length rest" "0 < ?r" using 2(3) r by auto
      have w: "?out = take p out @ take ?r rest @ drop (p + ?r) out"
        using True l by (simp add: overwrite_def)
      have "copy_loop ks (drop ?r rest) ?out (p + ?r) = Some (n, out')" using 2(2) r True by (simp add: Let_def)
      moreover have "answers_ok ks (drop ?r rest)" using 2(3) by simp
      moreover have "p + ?r \<le> length ?out" unfolding w using l 2(4) by simp
      ultimately have ih: "p + ?r \<le> n" "n - (p + ?r) \<le> length (drop ?r rest)"
        "take n out' = take (p + ?r) ?out @ take (n - (p + ?r)) (drop ?r rest)"
        "n - (p + ?r) = length (drop ?r rest) \<Longrightarrow> out' = take (p + ?r) ?out @ drop ?r rest @ drop n ?out"
        using 2(1) [of ?out] r True by (auto simp: Let_def)
      have t: "take (p + ?r) ?out = take p out @ take ?r rest" unfolding w using 2(4) l by simp
      have "take ?r rest @ take (n - (p + ?r)) (drop ?r rest) = take (n - p) rest"
        using ih(1) by (metis add_diff_inverse_nat diff_diff_left le_add_diff_inverse2 not_less take_add add.commute
            diff_le_mono2 le_add1 le_trans diff_add_inverse le_diff_conv2)
      moreover have d: "drop n ?out = drop n out"
        using ih(1) 2(4) l unfolding w by simp
      moreover have "out' = take p out @ rest @ drop n out" if "n - p = length rest"
      proof -
        have "n - (p + ?r) = length (drop ?r rest)" using that l by simp
        from ih(4) [OF this] show ?thesis unfolding t d by (metis append.assoc append_take_drop_id)
      qed
      ultimately show ?thesis
        using ih(1-3) t l by auto
    qed
  qed
qed simp

text \<open>
  The bytes that the kernel both gave and took: the pieces up to the end, an error or the first piece that
  was not taken in full.
\<close>

fun bytes_through :: "(int \<times> int) list \<Rightarrow> nat" where
  "bytes_through [] = 0"
| "bytes_through ((r, k) # ks) = (if r \<le> 0 \<or> r \<noteq> k then 0 else nat r + bytes_through ks)"

lemma copy_loop_count: "copy_loop ks rest out p = Some (n, out') \<Longrightarrow> n = p + bytes_through ks"
  by (induction ks rest out p rule: copy_loop.induct) (auto simp: Let_def split: if_splits)

text \<open>
  C14: A copy that reports success is one: whatever pieces the kernel reads and writes, \<^verbatim>\<open>osFileCopy\<close> of a
  file below 2 GB returns 0 exactly when the bytes that went through are all of it, and -5 otherwise. That many
  bytes at the beginning of the destination are those of the source; after a complete copy the destination
  holds the source followed by what it held behind that length, since it is not truncated.
\<close>

theorem file_copy_complete:
  assumes "osFileCopy perm True ks w (Some i) (Some f) = Some (ret, w')" "can_read w i" "open_create perm w f = Some w1"
    "answers_ok ks (file_text w1 i)" "length (file_text w1 i) < 2 ^ 31"
  shows "ret = (if bytes_through ks = length (file_text w1 i) then 0 else - 5) \<and>
    take (bytes_through ks) (file_text w' f) = take (bytes_through ks) (file_text w1 i) \<and>
    (ret = 0 \<longrightarrow> file_text w' f = file_text w1 i @ drop (length (file_text w1 i)) (file_text w1 f))"
proof -
  let ?src = "file_text w1 i" and ?old = "file_text w1 f"
  obtain n out where c: "copy_loop ks ?src ?old 0 = Some (n, out)"
    and r: "ret = (if int (length ?src) \<noteq> to_int32 (int n) then - 5 else 0)" "w' = set_data w1 f out"
    using assms(1-3) by (auto simp: osFileCopy_def split: option.splits)
  have n: "n = bytes_through ks" using copy_loop_count [OF c] by simp
  have p: "n \<le> length ?src" "take n out = take n ?src" "n = length ?src \<Longrightarrow> out = ?src @ drop n ?old"
    using copy_loop_prefix [OF c assms(4)] by auto
  have i: "to_int32 (int n) = int n" using p(1) assms(5) by (simp add: to_int32_def)
  have "files w1 f \<noteq> None" using assms(3) by (auto simp: open_create_def split: option.splits if_splits)
  then have "file_text w' f = out" by (auto simp: r(2) file_text_def set_data_def)
  then show ?thesis using r(1) i p n by auto
qed

definition copy_world :: world where
  "copy_world = \<lparr>files = Map.empty(''a'' \<mapsto> \<lparr>fl_data = ''new'', fl_mtime = 0, fl_read = True, fl_write = True\<rparr>,
       ''b'' \<mapsto> \<lparr>fl_data = ''older'', fl_mtime = 0, fl_read = True, fl_write = True\<rparr>),
     may_create = (\<lambda>_. True), lock_ok = True, now = 1\<rparr>"

theorem file_copy_complete_witness:
  "\<exists>w'. osFileCopy (True, True) True [(2, 2), (1, 1), (0, 0)] copy_world (Some ''a'') (Some ''b'') = Some (0, w') \<and>
    file_text w' ''b'' = ''newer''"
proof -
  have o: "open_create (True, True) copy_world ''b'' = Some copy_world" by (simp add: open_create_def copy_world_def)
  have t: "file_text copy_world ''a'' = ''new''" "file_text copy_world ''b'' = ''older''"
    by (simp_all add: file_text_def copy_world_def)
  have c: "can_read copy_world ''a''" by (simp add: can_read_def copy_world_def)
  have "copy_loop [(2, 2), (1, 1), (0, 0)] ''new'' ''older'' 0 = Some (3, ''newer'')"
    by (simp add: overwrite_def numeral_eq_Suc)
  then have r: "osFileCopy (True, True) True [(2, 2), (1, 1), (0, 0)] copy_world (Some ''a'') (Some ''b'') =
      Some (0, set_data copy_world ''b'' ''newer'')"
    using o t c by (simp add: osFileCopy_def to_int32_def)
  have a: "answers_ok [(2, 2), (1, 1), (0, 0)] (file_text copy_world ''a'')" by (simp add: t numeral_eq_Suc)
  have "drop 3 ''older'' = ''er''" by (simp add: numeral_eq_Suc)
  with file_copy_complete [OF r c o a] r show ?thesis by (simp add: t)
qed

end
