(* ===== verification/Http.thy ===== *)
theory Http
  imports Time_Text
begin

text \<open>
  The HTTP client of \<^verbatim>\<open>http.c\<close>. The requests are made by the library ghttp, whose answers are the
  arguments of the model; what the code does with them, the calls it makes and the buffers it fills are
  modelled.
\<close>

section \<open>The answers of the library\<close>

text \<open>
  \<open>gh_request\<close> tells whether a request could be made, the numbers are those the calls return;
  \<open>gh_body\<close> is the string at the body pointer, \<open>gh_body_len\<close> the length the library gives for it.
\<close>

record ghttp =
  gh_request :: bool
  gh_set_uri :: int
  gh_set_type :: int
  gh_set_body :: int
  gh_error :: bool
  gh_status :: int
  gh_body :: "string option"
  gh_body_len :: int

datatype gh_call = Gh_New | Gh_Uri string | Gh_Type string | Gh_Header string | Gh_Body string | Gh_Process | Gh_Destroy

definition HTTP_MAX_PKT_LEN :: nat where "HTTP_MAX_PKT_LEN = 2000"

section \<open>The code\<close>

text \<open>\<^verbatim>\<open>strcpy (outJson, buf)\<close>, if both are there: \<open>outJson\<close> is the capacity of the caller's buffer.\<close>

definition http_copy :: "nat option \<Rightarrow> string option \<Rightarrow> string option cres" where
  "http_copy outJson buf =
     (case (outJson, buf) of
        (Some cap, Some b) \<Rightarrow> cbind (sprintf_buf cap b) (\<lambda>s. Inr (Some s))
      | _ \<Rightarrow> Inr None)"

text \<open>
  The end of the calls: a request that was made is destroyed, and an error is printed into
  \<open>HTTP_MAX_PKT_LEN + 100\<close> bytes before it is logged. The results are the code, the text stored and the calls
  of the library.
\<close>

definition http_end ::
  "ghttp \<Rightarrow> (int \<Rightarrow> string) \<Rightarrow> gh_call list \<Rightarrow> int \<Rightarrow> string option \<Rightarrow> (int \<times> string option \<times> gh_call list) cres" where
  "http_end g msg calls ret out =
     (let calls' = calls @ (if gh_request g then [Gh_Destroy] else [])
      in if ret < 0 then cbind (sprintf_buf (HTTP_MAX_PKT_LEN + 100) ('':'' @ msg ret)) (\<lambda>_. Inr (ret, out, calls'))
         else Inr (ret, out, calls'))"

definition Http_Get :: "ghttp \<Rightarrow> string option \<Rightarrow> nat option \<Rightarrow> (int \<times> string option \<times> gh_call list) cres" where
  "Http_Get g uri outJson =
     (case uri of
        None \<Rightarrow> Inr (- 1, None, [])
      | Some u \<Rightarrow>
          let stop = http_end g (\<lambda>ret. ''Http_Get(uri='' @ u @ ''),ret='' @ dec ret @ [LF]);
              c1 = [Gh_New, Gh_Uri u]; c2 = c1 @ [Gh_Type ''get'']; c3 = c2 @ [Gh_Process]
          in if gh_set_uri g = - 1 then stop c1 (- 2) None
             else if gh_set_type g = - 1 then stop c2 (- 3) None
             else if gh_error g then stop c3 (- 4) None
             else if gh_status g \<noteq> 200 then stop c3 (- gh_status g) None
             else if int HTTP_MAX_PKT_LEN < gh_body_len g then stop c3 (- 5) None
             else cbind (http_copy outJson (gh_body g)) (\<lambda>out. stop c3 (gh_body_len g) out))"

text \<open>\<^verbatim>\<open>Http_Post\<close> and \<^verbatim>\<open>Http_Post2\<close> differ in the content type and in the look at the status.\<close>

definition http_post ::
  "bool \<Rightarrow> string \<Rightarrow> ghttp \<Rightarrow> string option \<Rightarrow> string option \<Rightarrow> nat option \<Rightarrow> string \<Rightarrow>
    (int \<times> string option \<times> gh_call list) cres" where
  "http_post look name g uri body outJson content_type =
     (case (uri, body) of
        (Some u, Some b) \<Rightarrow>
          let stop = http_end g (\<lambda>ret. name @ ''(uri='' @ u @ '' ,body[]='' @ b @ ''),ret='' @ dec ret @ [LF]);
              c1 = [Gh_New, Gh_Uri u]; c2 = c1 @ [Gh_Type ''post'']; c3 = c2 @ [Gh_Header content_type, Gh_Body b];
              c4 = c3 @ [Gh_Process]
          in if gh_set_uri g = - 1 then stop c1 (- 2) None
             else if gh_set_type g = - 1 then stop c2 (- 3) None
             else if gh_set_body g = - 1 then stop c3 (- 4) None
             else if gh_error g then stop c4 (- 5) None
             else if look \<and> gh_status g \<noteq> 200 then stop c4 (- gh_status g) None
             else if int HTTP_MAX_PKT_LEN < gh_body_len g then stop c4 (- 6) None
             else cbind (http_copy outJson (gh_body g)) (\<lambda>out. stop c4 (gh_body_len g) out)
      | _ \<Rightarrow> Inr (- 1, None, []))"

definition Http_Post :: "ghttp \<Rightarrow> string option \<Rightarrow> string option \<Rightarrow> nat option \<Rightarrow> (int \<times> string option \<times> gh_call list) cres" where
  "Http_Post g uri body outJson = http_post False ''Http_Post'' g uri body outJson ''application/x-www-form-urlencoded''"

definition Http_Post2 ::
  "ghttp \<Rightarrow> string option \<Rightarrow> string option \<Rightarrow> nat option \<Rightarrow> string \<Rightarrow> (int \<times> string option \<times> gh_call list) cres" where
  "Http_Post2 g uri body outJson content_type = http_post True ''Http_Post2'' g uri body outJson content_type"

section \<open>What the calls promise\<close>

text \<open>
  What the library documents: the body is terminated within the length it gives, no length is
  negative, and a status is a number of three digits at most.
\<close>

definition gh_documented :: "ghttp \<Rightarrow> bool" where
  "gh_documented g \<longleftrightarrow> (\<forall>b. gh_body g = Some b \<longrightarrow> int (length b) \<le> gh_body_len g) \<and> 0 \<le> gh_body_len g \<and>
     0 < gh_status g \<and> gh_status g < 1000"

text \<open>Every request is made and destroyed in one call, destroyed last and once.\<close>

definition balanced :: "ghttp \<Rightarrow> gh_call list \<Rightarrow> bool" where
  "balanced g cs \<longleftrightarrow> cs = [] \<or> (\<exists>ms. cs = Gh_New # ms @ (if gh_request g then [Gh_Destroy] else []) \<and>
     Gh_New \<notin> set ms \<and> Gh_Destroy \<notin> set ms)"

definition http_good :: "ghttp \<Rightarrow> nat option \<Rightarrow> (int \<times> string option \<times> gh_call list) cres \<Rightarrow> bool" where
  "http_good g outJson r \<longleftrightarrow> (\<exists>ret out cs. r = Inr (ret, out, cs) \<and> balanced g cs \<and>
     (out \<noteq> None \<longrightarrow> ret = gh_body_len g \<and> out = gh_body g) \<and> (0 \<le> ret \<longrightarrow> ret = gh_body_len g \<and> ret \<le> 2000))"

lemma dec_status_short: "\<bar>i\<bar> < 1000 \<Longrightarrow> length (dec i) \<le> 4"
  using nat_digits_length [of "nat \<bar>i\<bar>" 2] by (auto simp: dec_def eval_nat_numeral)

definition opened :: "gh_call list \<Rightarrow> bool" where
  "opened calls \<longleftrightarrow> calls \<noteq> [] \<and> hd calls = Gh_New \<and> Gh_New \<notin> set (tl calls) \<and> Gh_Destroy \<notin> set (tl calls)"

lemma opened_balanced: "opened calls \<Longrightarrow> balanced g (calls @ (if gh_request g then [Gh_Destroy] else []))"
  by (cases calls) (auto simp: opened_def balanced_def)

lemma http_stop_good:
  assumes "opened calls" "ret < 0" "length (msg ret) \<le> 2098"
  shows "http_good g outJson (http_end g msg calls ret None)"
  using assms opened_balanced [OF assms(1)]
  by (simp add: http_good_def http_end_def sprintf_buf_def HTTP_MAX_PKT_LEN_def Let_def)

lemma http_done_good:
  assumes "gh_documented g" "\<And>cap. outJson = Some cap \<Longrightarrow> 2000 < cap" "opened calls" "\<not> int HTTP_MAX_PKT_LEN < gh_body_len g"
  shows "http_good g outJson (cbind (http_copy outJson (gh_body g)) (\<lambda>out. http_end g msg calls (gh_body_len g) out))"
proof -
  have len: "gh_body_len g \<le> 2000" "0 \<le> gh_body_len g"
    using assms(1,4) by (simp_all add: gh_documented_def HTTP_MAX_PKT_LEN_def)
  have "\<exists>out. http_copy outJson (gh_body g) = Inr out \<and> (out \<noteq> None \<longrightarrow> out = gh_body g)"
    using assms(1,2) len by (force simp: http_copy_def gh_documented_def sprintf_buf_def split: option.splits)
  then show ?thesis
    using len opened_balanced [OF assms(3), of g] by (auto simp: http_good_def http_end_def Let_def simp del: if_split)
qed

lemma http_if:
  "(c \<Longrightarrow> http_good g j a) \<Longrightarrow> (\<not> c \<Longrightarrow> http_good g j b) \<Longrightarrow> http_good g j (if c then a else b)"
  by simp

lemma http_post_good:
  assumes "gh_documented g" "\<And>cap. outJson = Some cap \<Longrightarrow> 2000 < cap" "length name \<le> 10"
    "\<And>u b. uri = Some u \<Longrightarrow> body = Some b \<Longrightarrow> length u + length b \<le> 2000"
  shows "http_good g outJson (http_post look name g uri body outJson ct)"
proof (cases "\<exists>u b. uri = Some u \<and> body = Some b")
  case True
  then obtain u b where u: "uri = Some u" "body = Some b" by blast
  let ?msg = "\<lambda>ret. name @ ''(uri='' @ u @ '' ,body[]='' @ b @ ''),ret='' @ dec ret @ [LF]"
  have l: "length (?msg ret) \<le> 2098" if "\<bar>ret\<bar> < 1000" for ret
    using dec_status_short [OF that] assms(3) assms(4) [OF u] by simp
  have st: "\<bar>- gh_status g\<bar> < 1000" "- gh_status g < 0" using assms(1) by (auto simp: gh_documented_def)
  have stop: "http_good g outJson (http_end g ?msg calls ret None)" if "opened calls" "ret < 0" "\<bar>ret\<bar> < 1000" for calls ret
    using http_stop_good [where msg = ?msg] that l [OF that(3)] by blast
  show ?thesis unfolding http_post_def u prod.case option.case Let_def
    by (intro http_if stop http_done_good [OF assms(1,2)] st) (simp_all add: opened_def)
next
  case False
  then show ?thesis by (auto simp: http_post_def http_good_def balanced_def split: option.splits)
qed

lemma http_get_good:
  assumes "gh_documented g" "\<And>cap. outJson = Some cap \<Longrightarrow> 2000 < cap" "\<And>u. uri = Some u \<Longrightarrow> length u \<le> 2000"
  shows "http_good g outJson (Http_Get g uri outJson)"
proof (cases uri)
  case (Some u)
  let ?msg = "\<lambda>ret. ''Http_Get(uri='' @ u @ ''),ret='' @ dec ret @ [LF]"
  have l: "length (?msg ret) \<le> 2098" if "\<bar>ret\<bar> < 1000" for ret
    using dec_status_short [OF that] assms(3) [OF Some] by simp
  have st: "\<bar>- gh_status g\<bar> < 1000" "- gh_status g < 0" using assms(1) by (auto simp: gh_documented_def)
  have stop: "http_good g outJson (http_end g ?msg calls ret None)" if "opened calls" "ret < 0" "\<bar>ret\<bar> < 1000" for calls ret
    using http_stop_good [where msg = ?msg] that l [OF that(3)] by blast
  show ?thesis unfolding Http_Get_def Some option.case Let_def
    by (intro http_if stop http_done_good [OF assms(1,2)] st) (simp_all add: opened_def)
qed (simp add: Http_Get_def http_good_def balanced_def)

text \<open>
  C29: With a library that answers as documented, a receive buffer of more than 2000 bytes and an address
  and body of at most 2000 characters together, the three HTTP calls stay inside their buffers on every
  path, errors included; a request that was made is destroyed at the end and once; an answer that is
  stored is the body, and a result that is not an error is its length, at most 2000.
\<close>

theorem http_calls_safe:
  assumes "gh_documented g" "\<forall>cap. outJson = Some cap \<longrightarrow> 2000 < cap"
    "\<forall>u b. uri = Some u \<and> body = Some b \<longrightarrow> length u + length b \<le> 2000" "\<forall>u. uri = Some u \<longrightarrow> length u \<le> 2000"
  shows "http_good g outJson (Http_Get g uri outJson) \<and> http_good g outJson (Http_Post g uri body outJson) \<and>
    http_good g outJson (Http_Post2 g uri body outJson content_type)"
  using assms http_get_good [OF assms(1)] http_post_good [OF assms(1)]
  by (simp add: Http_Post_def Http_Post2_def)

definition sample_ghttp :: ghttp where
  "sample_ghttp = \<lparr>gh_request = True, gh_set_uri = 0, gh_set_type = 0, gh_set_body = 0, gh_error = False,
     gh_status = 200, gh_body = Some ''ok'', gh_body_len = 2\<rparr>"

theorem http_calls_safe_witness:
  "http_good sample_ghttp (Some 2001) (Http_Get sample_ghttp (Some ''u'') (Some 2001)) \<and>
   Http_Get sample_ghttp (Some ''u'') (Some 2001) =
     Inr (2, Some ''ok'', [Gh_New, Gh_Uri ''u'', Gh_Type ''get'', Gh_Process, Gh_Destroy])"
proof -
  have "gh_documented sample_ghttp" by (simp add: gh_documented_def sample_ghttp_def)
  from http_calls_safe [OF this, of "Some 2001" "Some ''u''" "Some ''b''" "[]"]
  show ?thesis
    by (simp add: Http_Get_def sample_ghttp_def http_copy_def http_end_def sprintf_buf_def HTTP_MAX_PKT_LEN_def Let_def)
qed

text \<open>
  A body that is longer than the buffer of the log line overruns it as soon as the request fails, here
  when the address is refused.
\<close>

lemma http_post_log_overrun:
  assumes "gh_set_uri g = - 1" "2100 \<le> length b"
  shows "Http_Post g (Some u) (Some b) outJson = Inl Out_Of_Bounds"
  using assms by (simp add: Http_Post_def http_post_def http_end_def sprintf_buf_def HTTP_MAX_PKT_LEN_def Let_def)

end
