(* ===== verification/Auth.thy ===== *)
theory Auth
  imports Os_Files
begin

text \<open>
  The licence check of \<^verbatim>\<open>auth.c\<close>. It calls \<^verbatim>\<open>Cfg_ReadInt\<close> with four arguments, which the \<^verbatim>\<open>Cfg_ReadInt\<close> of
  \<^verbatim>\<open>cfgfile.c\<close> with five does not fit, and \<^verbatim>\<open>vos.c\<close> no longer includes the file: what that reader stores is
  an argument here; \<^verbatim>\<open>Cfg_WriteInt\<close> is the one of \<open>Cfg_Api\<close>.
\<close>

section \<open>The code\<close>

record auth_state =
  gBaseDays :: int
  gLostDays :: int

definition auth_state0 :: auth_state where
  "auth_state0 = \<lparr>gBaseDays = 0, gLostDays = 0\<rparr>"

text \<open>
  \<open>stored\<close> is what the reader leaves in \<^verbatim>\<open>goingDays\<close>, which starts as 0 in every call; \<open>nowDays\<close> is the day of
  the call.
\<close>

definition Auth_VerifyDateAuth ::
  "int \<Rightarrow> int \<Rightarrow> string option \<Rightarrow> int \<Rightarrow> auth_state \<Rightarrow> world \<Rightarrow> (int \<times> auth_state \<times> world) cres" where
  "Auth_VerifyDateAuth stored nowDays statFile expireDays g w =
     (let g1 = (if gBaseDays g \<le> 0 then g\<lparr>gBaseDays := nowDays\<rparr> else g);
          goingDays = (if gBaseDays g \<le> 0 then stored else 0);
          diff = nowDays - gBaseDays g1;
          g2 = (if diff < 0 then g1\<lparr>gBaseDays := nowDays\<rparr> else g1)
      in if gLostDays g2 < diff then
           (let g3 = g2\<lparr>gLostDays := diff\<rparr>
            in cbind (Cfg_WriteInt w statFile (Some ''stat'') (Some ''days'') (word_of_int (gLostDays g3 + goingDays)))
                 (\<lambda>(r, w'). Inr (if expireDays < gLostDays g3 + goingDays then - 1 else 0, g3, w')))
         else Inr (0, g2, w))"

definition Auth_VerifyMacAuth :: "string \<Rightarrow> string \<Rightarrow> int \<Rightarrow> u8 list option \<Rightarrow> int cres" where
  "Auth_VerifyMacAuth ethName ethAddr sock hw =
     cbind (utl_NetGetMacAddr (Some ethName) (length ethName) (Some 32) sock hw) (\<lambda>(ret, sMac).
       Inr (if ret = 0 then (if sMac = Some ethAddr then 1 else - 1) else ret))"

text \<open>
  The two tasks: \<open>pid\<close> is the answer of \<^verbatim>\<open>fork\<close>, and each element one round of the child's loop, with what the socket and
  the device answer, what the reader stores and the day. The first task sends a message, its type and first
  byte, the second kills the process it was given; the answers of these calls are not looked at.
\<close>

definition USER_SERVER_ETHNAME :: string where "USER_SERVER_ETHNAME = ''eth0''"
definition USER_SERVER_ETHMAC :: string where "USER_SERVER_ETHMAC = ''00:16:3e:04:71:22''"
definition EXPIRE_DAYS_COUNT_FILE :: string where "EXPIRE_DAYS_COUNT_FILE = ''/usr/local/.livevod''"
definition MAX_EXPIRE_DAYS :: int where "MAX_EXPIRE_DAYS = 365 * 10"

datatype auth_act = Alert int int | Kill_Forced int

type_synonym auth_round = "(int \<times> u8 list option) \<times> (int \<times> int)"

fun auth_rounds ::
  "auth_act \<Rightarrow> auth_act \<Rightarrow> auth_round list \<Rightarrow> auth_state \<Rightarrow> world \<Rightarrow> (auth_act list \<times> auth_state \<times> world) cres" where
  "auth_rounds on_mac on_date [] g w = Inr ([], g, w)"
| "auth_rounds on_mac on_date (((sock, hw), (stored, day)) # qs) g w =
     cbind (Auth_VerifyMacAuth USER_SERVER_ETHNAME USER_SERVER_ETHMAC sock hw) (\<lambda>m.
     cbind (Auth_VerifyDateAuth stored day (Some EXPIRE_DAYS_COUNT_FILE) MAX_EXPIRE_DAYS g w) (\<lambda>(d, g1, w1).
     cbind (auth_rounds on_mac on_date qs g1 w1) (\<lambda>(acts, g2, w2).
       Inr ((if m \<noteq> 1 then [on_mac] else []) @ (if d = - 1 then [on_date] else []) @ acts, g2, w2))))"

definition Auth_ForkAuthTask ::
  "int \<Rightarrow> auth_round list \<Rightarrow> auth_state \<Rightarrow> world \<Rightarrow> (int \<times> auth_act list \<times> auth_state \<times> world) cres" where
  "Auth_ForkAuthTask pid qs g w =
     (if pid = 0 then cbind (auth_rounds (Alert 0x50 (- 33)) (Alert 0x51 (- 34)) qs g w) (\<lambda>r. Inr (pid, r))
      else Inr (pid, [], g, w))"

definition Auth_RunIndependentTask ::
  "int \<Rightarrow> int \<Rightarrow> auth_round list \<Rightarrow> auth_state \<Rightarrow> world \<Rightarrow> (int \<times> auth_act list \<times> auth_state \<times> world) cres" where
  "Auth_RunIndependentTask ParentPid pid qs g w =
     (if pid = 0 then cbind (auth_rounds (Kill_Forced ParentPid) (Kill_Forced ParentPid) qs g w) (\<lambda>r. Inr (pid, r))
      else Inr (pid, [], g, w))"

section \<open>What the check looks at\<close>

text \<open>The calls of one run of the program, on the given days, with what the file held each time.\<close>

fun auth_run ::
  "string option \<Rightarrow> int \<Rightarrow> (int \<times> int) list \<Rightarrow> auth_state \<Rightarrow> world \<Rightarrow> (int list \<times> auth_state \<times> world) cres" where
  "auth_run f e [] g w = Inr ([], g, w)"
| "auth_run f e ((stored, day) # xs) g w =
     cbind (Auth_VerifyDateAuth stored day f e g w) (\<lambda>(r, g1, w1).
     cbind (auth_run f e xs g1 w1) (\<lambda>(rs, g2, w2). Inr (r # rs, g2, w2)))"

text \<open>The results from the days alone: the base day, the largest distance to it so far.\<close>

fun auth_days :: "int \<Rightarrow> int \<Rightarrow> int list \<Rightarrow> int \<Rightarrow> int list" where
  "auth_days base lost [] e = []"
| "auth_days base lost (d # ds) e =
     (let b = (if base \<le> 0 \<or> d < base then d else base); n = (if base \<le> 0 then 0 else d - base)
      in if lost < n then (if e < n then - 1 else 0) # auth_days b n ds e
         else 0 # auth_days b lost ds e)"

lemma auth_run_days:
  assumes "auth_run f e xs g w = Inr (rs, g', w')" "0 \<le> gLostDays g"
  shows "rs = auth_days (gBaseDays g) (gLostDays g) (map snd xs) e"
  using assms
proof (induction xs arbitrary: g w rs)
  case (Cons x xs)
  obtain stored day where x: "x = (stored, day)" by (cases x)
  obtain r g1 w1 rs' where run: "Auth_VerifyDateAuth stored day f e g w = Inr (r, g1, w1)"
    "auth_run f e xs g1 w1 = Inr (rs', g', w')" "rs = r # rs'"
    using Cons.prems(1) by (auto simp: x cbind_Inr_iff)
  have base: "gBaseDays g1 = (if gBaseDays g \<le> 0 \<or> day < gBaseDays g then day else gBaseDays g)"
    using run(1) by (auto simp: Auth_VerifyDateAuth_def Let_def cbind_Inr_iff split: if_splits)
  let ?n = "if gBaseDays g \<le> 0 then 0 else day - gBaseDays g"
  have step: "gLostDays g1 = (if gLostDays g < ?n then ?n else gLostDays g)"
    "r = (if gLostDays g < ?n \<and> e < ?n then - 1 else 0)"
    using run(1) Cons.prems(2) by (auto simp: Auth_VerifyDateAuth_def Let_def cbind_Inr_iff split: if_splits)
  have "rs' = auth_days (gBaseDays g1) (gLostDays g1) (map snd xs) e"
    using Cons.IH [OF run(2)] step(1) Cons.prems(2) by (auto split: if_splits)
  then show ?case by (simp add: x run(3) base step Let_def)
qed simp

text \<open>
  C33: The count of days in the file has no part in the check: the results of a run are those that follow
  from the days of its own calls, whatever the file holds, so each start of the program begins the trial
  again; and an expired licence is reported only by the first call of a day that is further away than
  every day before, every other call saying that it is valid.
\<close>

theorem auth_ignores_file:
  assumes "auth_run f e xs g w = Inr (rs, g', w')" "0 \<le> gLostDays g"
  shows "rs = auth_days (gBaseDays g) (gLostDays g) (map snd xs) e"
  using assms by (rule auth_run_days)

definition empty_world :: world where
  "empty_world = \<lparr>files = Map.empty, may_create = (\<lambda>_. True), lock_ok = True, now = 0\<rparr>"

theorem auth_ignores_file_witness:
  "auth_run None 10 [(500, 17000), (500, 17000)] auth_state0 empty_world =
     Inr ([0, 0], \<lparr>gBaseDays = 17000, gLostDays = 0\<rparr>, empty_world) \<and>
   [0, 0] = auth_days 0 0 [17000, 17000] 10"
proof -
  have r: "auth_run None 10 [(500, 17000), (500, 17000)] auth_state0 empty_world =
      Inr ([0, 0], \<lparr>gBaseDays = 17000, gLostDays = 0\<rparr>, empty_world)"
    by (simp add: Auth_VerifyDateAuth_def auth_state0_def)
  from auth_ignores_file [OF r] r show ?thesis by (simp add: auth_state0_def)
qed

section \<open>The tasks\<close>

lemma auth_rounds_run:
  assumes "auth_rounds m d qs g w = Inr (acts, g', w')" "m \<noteq> d"
  shows "\<exists>rs. auth_run (Some EXPIRE_DAYS_COUNT_FILE) MAX_EXPIRE_DAYS (map snd qs) g w = Inr (rs, g', w') \<and>
    length (filter (\<lambda>a. a = d) acts) = length (filter (\<lambda>r. r = - 1) rs)"
  using assms
proof (induction m d qs g w arbitrary: acts rule: auth_rounds.induct)
  case (2 m d sock hw stored day qs g w)
  then show ?case by (fastforce simp: cbind_Inr_iff split: if_splits)
qed simp

text \<open>However often the task looks, it reports the expiry only on days further away than all before them.\<close>

lemma task_alerts:
  assumes "Auth_ForkAuthTask 0 qs auth_state0 w = Inr (r, acts, g', w')"
  shows "length (filter (\<lambda>a. a = Alert 0x51 (- 34)) acts) =
    length (filter (\<lambda>x. x = - 1) (auth_days 0 0 (map (snd \<circ> snd) qs) MAX_EXPIRE_DAYS))"
proof -
  have "auth_rounds (Alert 0x50 (- 33)) (Alert 0x51 (- 34)) qs auth_state0 w = Inr (acts, g', w')"
    using assms by (auto simp: Auth_ForkAuthTask_def cbind_Inr_iff)
  from auth_rounds_run [OF this] obtain rs where
    "auth_run (Some EXPIRE_DAYS_COUNT_FILE) MAX_EXPIRE_DAYS (map snd qs) auth_state0 w = Inr (rs, g', w')"
    "length (filter (\<lambda>a. a = Alert 0x51 (- 34)) acts) = length (filter (\<lambda>r. r = - 1) rs)"
    by auto
  then show ?thesis using auth_run_days [of _ _ "map snd qs" auth_state0] by (auto simp: auth_state0_def)
qed

end
