(* ===== verification/Redis.thy ===== *)
theory Redis
  imports Cfg_Delete "HOL-Library.Multiset"
begin

text \<open>
  The Redis client of \<^verbatim>\<open>RedisClt.c\<close>: one connection with a count of its users, and the calls that keep
  device and app sockets in hashes of the server. The requests go through the library hiredis; what it
  answers is an argument of the model. A server is a function from the words of a command and its state to
  a reply, if one arrives, and the new state.
\<close>

section \<open>The library\<close>

record redis_reply =
  rp_error :: bool
  rp_str :: "string option"
  rp_integer :: int

type_synonym 'r server = "string list \<Rightarrow> 'r \<Rightarrow> redis_reply option \<times> 'r"

section \<open>The connection\<close>

text \<open>
  \<open>rl_hdl\<close> and \<open>rl_cnt\<close> are the fields of \<^verbatim>\<open>gRedisConn\<close>, a context being a number; \<open>rl_open\<close> lists the contexts
  that the library has given out and not taken back, \<open>rl_lock\<close> is the state of \<^verbatim>\<open>gThrdLock\<close>.
\<close>

datatype lock_stage = Zeroed | Ready | Destroyed

record redis_lib =
  rl_hdl :: "nat option"
  rl_cnt :: int
  rl_open :: "nat list"
  rl_lock :: lock_stage

definition redis_lib0 :: redis_lib where
  "redis_lib0 = \<lparr>rl_hdl = None, rl_cnt = 0, rl_open = [], rl_lock = Zeroed\<rparr>"

definition c_text :: "string option \<Rightarrow> string" where
  "c_text s = (case s of None \<Rightarrow> ''(null)'' | Some t \<Rightarrow> t)"

text \<open>\<^verbatim>\<open>CachePrint\<close> prints into 1000 bytes before the line is logged.\<close>

definition CachePrint :: "string \<Rightarrow> unit cres" where
  "CachePrint s = cbind (sprintf_buf 1000 ('':'' @ s)) (\<lambda>_. Inr ())"

definition REDIS_UnInit :: "redis_lib \<Rightarrow> redis_lib" where
  "REDIS_UnInit l =
     (let l1 = l\<lparr>rl_cnt := rl_cnt l - 1\<rparr>
      in if rl_cnt l1 = 0 then
           (case rl_hdl l1 of
              None \<Rightarrow> l1
            | Some c \<Rightarrow> l1\<lparr>rl_hdl := None, rl_open := remove1 c (rl_open l1), rl_lock := Destroyed\<rparr>)
         else l1)"

text \<open>An error in the reply is only logged.\<close>

definition log_error :: "string \<Rightarrow> redis_reply \<Rightarrow> unit cres" where
  "log_error cmd r = (if rp_error r then CachePrint (cmd @ '' error response: '' @ c_text (rp_str r) @ [LF]) else Inr ())"

definition redis_login :: "'r server \<Rightarrow> string \<Rightarrow> int \<Rightarrow> 'r \<Rightarrow> (int \<times> 'r) cres" where
  "redis_login exec authpass db srv =
     (case exec [''AUTH'', authpass] srv of
        (None, s1) \<Rightarrow> Inr (- 4, s1)
      | (Some a, s1) \<Rightarrow> cbind (log_error ''AUTH'' a) (\<lambda>_.
          case exec [''SELECT'', dec db] s1 of
            (None, s2) \<Rightarrow> Inr (- 5, s2)
          | (Some b, s2) \<Rightarrow> cbind (log_error ''SELECT'' b) (\<lambda>_. Inr (0, snd (exec [''FLUSHDB''] s2)))))"

text \<open>
  \<open>conn\<close> is the answer of \<^verbatim>\<open>redisConnectWithTimeout\<close>: a context, with the text of its error if it has one.
  The library's error label calls \<^verbatim>\<open>REDIS_UnInit\<close> before it clears the fields.
\<close>

definition REDIS_Init ::
  "'r server \<Rightarrow> (nat \<times> string option) option \<Rightarrow> string \<Rightarrow> int \<Rightarrow> redis_lib \<Rightarrow> 'r \<Rightarrow> (nat option \<times> redis_lib \<times> 'r) cres" where
  "REDIS_Init exec conn authpass db l srv =
     (if rl_hdl l \<noteq> None then Inr (rl_hdl l, l\<lparr>rl_cnt := rl_cnt l + 1\<rparr>, srv)
      else
        cbind (case conn of
                 None \<Rightarrow> Inr (- 2, srv)
               | Some (c, Some e) \<Rightarrow> cbind (CachePrint (''connect error: '' @ e @ [LF])) (\<lambda>_. Inr (- 3, srv))
               | Some (c, None) \<Rightarrow> redis_login exec authpass db srv) (\<lambda>(ret, srv').
        let l1 = (case conn of None \<Rightarrow> l | Some (c, _) \<Rightarrow> l\<lparr>rl_hdl := Some c, rl_open := c # rl_open l\<rparr>);
            l2 = (if ret = 0 then l1\<lparr>rl_cnt := 1\<rparr> else l1)
        in cbind (CachePrint (''REDIS_Init(db='' @ dec db @ ''),ret='' @ dec ret @ [LF])) (\<lambda>_.
           let l3 = (if ret < 0 then (REDIS_UnInit l2)\<lparr>rl_hdl := None, rl_cnt := 0\<rparr> else l2)
           in Inr (rl_hdl l3, l3\<lparr>rl_lock := Ready\<rparr>, srv'))))"

text \<open>Without a connection the library gets a null context.\<close>

definition REDIS_SelectDb :: "'r server \<Rightarrow> int \<Rightarrow> redis_lib \<Rightarrow> 'r \<Rightarrow> (int \<times> 'r) cres" where
  "REDIS_SelectDb exec db l srv =
     (if rl_hdl l = None then Inl Null_Deref
      else case exec [''SELECT'', dec db] srv of
             (None, s1) \<Rightarrow> Inr (0, s1)
           | (Some r, s1) \<Rightarrow> cbind (log_error ''SELECT'' r) (\<lambda>_. Inr (0, s1)))"

section \<open>Devices and apps\<close>

definition KEY_FIELD_INSID :: string where "KEY_FIELD_INSID = ''InsId''"
definition KEY_FIELD_TCPFD :: string where "KEY_FIELD_TCPFD = ''TcpFd''"
definition KEY_FIELD_INSCNT :: string where "KEY_FIELD_INSCNT = ''InsCnt''"
definition KEY_APP_DEV :: string where "KEY_APP_DEV = ''app-dev''"

text \<open>The guards of the calls; those with \<open>long\<close> refuse a name of three characters or fewer.\<close>

definition with_name ::
  "bool \<Rightarrow> string option \<Rightarrow> redis_lib \<Rightarrow> 'r \<Rightarrow> (string \<Rightarrow> ('a \<times> 'r) cres) \<Rightarrow> (int \<Rightarrow> 'a) \<Rightarrow> ('a \<times> 'r) cres" where
  "with_name long name l srv body ret =
     (case name of
        None \<Rightarrow> Inr (ret (- 1), srv)
      | Some d \<Rightarrow>
          if rl_hdl l = None then Inr (ret (- 1), srv)
          else if long \<and> length d \<le> 3 then Inr (ret (- 2), srv)
          else body d)"

definition failed_line :: "string \<Rightarrow> string \<Rightarrow> string" where
  "failed_line f d = f @ ''('' @ d @ '') failed!!'' @ [LF]"

text \<open>\<open>None\<close>: the process exits, when the reply is neither an error nor has a text.\<close>

definition REDIS_HMSET :: "'r server \<Rightarrow> string option \<Rightarrow> int \<Rightarrow> int \<Rightarrow> redis_lib \<Rightarrow> 'r \<Rightarrow> (int option \<times> 'r) cres" where
  "REDIS_HMSET exec devid InsId TcpFd l srv =
     with_name True devid l srv (\<lambda>d.
       let done = (\<lambda>ret s. cbind (CachePrint (''REDIS_HMSET('' @ d @ '' = '' @ dec TcpFd @ ''),ret='' @ dec ret @ [LF]))
                            (\<lambda>_. Inr (Some ret, s)))
       in case exec [''HMSET'', d, KEY_FIELD_INSID, dec InsId, KEY_FIELD_TCPFD, dec TcpFd] srv of
            (None, s1) \<Rightarrow> done (- 1) s1
          | (Some r, s1) \<Rightarrow> cbind (CachePrint (''HMSET: '' @ c_text (rp_str r) @ [LF])) (\<lambda>_.
              if rp_error r then done (- 3) s1
              else case rp_str r of
                     None \<Rightarrow> Inr (None, s1)
                   | Some t \<Rightarrow> done (if t = ''OK'' then 0 else - 4) s1)) Some"

text \<open>What the readers make of a reply, and the part they share.\<close>

definition reply_value :: "redis_reply \<Rightarrow> int" where
  "reply_value r =
     (if rp_error r then - 2
      else case rp_str r of None \<Rightarrow> - 3 | Some t \<Rightarrow> if t = ''OK'' then - 4 else c_atoi t)"

definition hget ::
  "'r server \<Rightarrow> string list \<Rightarrow> string \<Rightarrow> (int \<Rightarrow> string) \<Rightarrow> 'r \<Rightarrow> (int \<times> 'r) cres" where
  "hget exec words failed line srv =
     (case exec words srv of (reply, s1) \<Rightarrow>
        cbind (case reply of
                 None \<Rightarrow> cbind (CachePrint failed) (\<lambda>_. Inr (- 1))
               | Some r \<Rightarrow> Inr (reply_value r)) (\<lambda>ret.
        cbind (CachePrint (line ret)) (\<lambda>_. Inr (ret, s1))))"

definition REDIS_HGET_InsCnt :: "'r server \<Rightarrow> string option \<Rightarrow> redis_lib \<Rightarrow> 'r \<Rightarrow> (int \<times> 'r) cres" where
  "REDIS_HGET_InsCnt exec devid l srv =
     with_name False devid l srv (\<lambda>d.
       hget exec [''HGET'', d, KEY_FIELD_INSCNT] (failed_line ''REDIS_HGET_InsCnt'' d)
         (\<lambda>ret. ''HGET InsCnt=ret='' @ dec ret @ [LF]) srv) (\<lambda>i. i)"

definition REDIS_HSET_InsCnt :: "'r server \<Rightarrow> string option \<Rightarrow> int \<Rightarrow> redis_lib \<Rightarrow> 'r \<Rightarrow> (int \<times> 'r) cres" where
  "REDIS_HSET_InsCnt exec devid AddInsCnt l srv =
     with_name True devid l srv (\<lambda>d.
       case exec [''HINCRBY'', d, KEY_FIELD_INSCNT, dec AddInsCnt] srv of (reply, s1) \<Rightarrow>
         let ret = (case reply of None \<Rightarrow> - 2 | Some r \<Rightarrow> if rp_error r then - 3 else to_int32 (rp_integer r))
         in cbind (CachePrint (''REDIS_HSET_InsCnt('' @ d @ '','' @ dec AddInsCnt @ ''),ret='' @ dec ret @ [LF]))
              (\<lambda>_. Inr (ret, s1))) (\<lambda>i. i)"

text \<open>\<^verbatim>\<open>atoi\<close> on the text of any reply, also one that has none.\<close>

definition REDIS_HGET_InsId :: "'r server \<Rightarrow> string option \<Rightarrow> redis_lib \<Rightarrow> 'r \<Rightarrow> (int \<times> 'r) cres" where
  "REDIS_HGET_InsId exec devid l srv =
     with_name False devid l srv (\<lambda>d.
       case exec [''HGET'', d, KEY_FIELD_INSID] srv of
         (None, s1) \<Rightarrow> cbind (CachePrint (failed_line ''REDIS_HGET_InsId'' d)) (\<lambda>_. Inr (- 1, s1))
       | (Some r, s1) \<Rightarrow> cbind (CachePrint (''HGET InsId=ret='' @ c_text (rp_str r) @ [LF])) (\<lambda>_.
           case rp_str r of None \<Rightarrow> Inl Null_Deref | Some t \<Rightarrow> Inr (c_atoi t, s1))) (\<lambda>i. i)"

definition hdel :: "'r server \<Rightarrow> string list \<Rightarrow> string \<Rightarrow> (int \<Rightarrow> string) \<Rightarrow> 'r \<Rightarrow> (int \<times> 'r) cres" where
  "hdel exec words failed line srv =
     (case exec words srv of (reply, s1) \<Rightarrow>
        cbind (CachePrint (case reply of None \<Rightarrow> failed | Some r \<Rightarrow> line (rp_integer r))) (\<lambda>_. Inr (0, s1)))"

definition REDIS_HDEL_InsId :: "'r server \<Rightarrow> string option \<Rightarrow> redis_lib \<Rightarrow> 'r \<Rightarrow> (int \<times> 'r) cres" where
  "REDIS_HDEL_InsId exec devid l srv =
     with_name False devid l srv (\<lambda>d.
       hdel exec [''HDEL'', d, KEY_FIELD_INSID] (failed_line ''REDIS_HDEL_InsId'' d)
         (\<lambda>i. ''HDEL InsId: '' @ dec i @ [LF]) srv) (\<lambda>i. i)"

definition REDIS_HSET_AppFd :: "'r server \<Rightarrow> string option \<Rightarrow> int \<Rightarrow> redis_lib \<Rightarrow> 'r \<Rightarrow> (int \<times> 'r) cres" where
  "REDIS_HSET_AppFd exec field sockfd l srv =
     with_name True field l srv (\<lambda>f.
       case exec [''HSET'', KEY_APP_DEV, f, dec sockfd] srv of (reply, s1) \<Rightarrow>
         cbind (case reply of
                  None \<Rightarrow> cbind (CachePrint (failed_line ''REDIS_HSET_AppFd'' f)) (\<lambda>_. Inr (- 1))
                | Some r \<Rightarrow> cbind (CachePrint (''HSET: '' @ c_text (rp_str r) @ [LF]))
                    (\<lambda>_. Inr (if rp_error r then - 3 else 0))) (\<lambda>ret.
         cbind (CachePrint (''HSET AppFd,ret='' @ dec ret @ [LF])) (\<lambda>_. Inr (ret, s1)))) (\<lambda>i. i)"

definition REDIS_HGET_AppFd :: "'r server \<Rightarrow> string option \<Rightarrow> redis_lib \<Rightarrow> 'r \<Rightarrow> (int \<times> 'r) cres" where
  "REDIS_HGET_AppFd exec field l srv =
     with_name True field l srv (\<lambda>f.
       hget exec [''HGET'', KEY_APP_DEV, f] (failed_line ''REDIS_HGET_AppFd'' f)
         (\<lambda>ret. ''HGET(AppFd='' @ f @ ''). ret='' @ dec ret @ [LF]) srv) (\<lambda>i. i)"

definition REDIS_HGET_TcpFd :: "'r server \<Rightarrow> string option \<Rightarrow> redis_lib \<Rightarrow> 'r \<Rightarrow> (int \<times> 'r) cres" where
  "REDIS_HGET_TcpFd exec devid l srv =
     with_name True devid l srv (\<lambda>d.
       hget exec [''HGET'', d, KEY_FIELD_TCPFD] (failed_line ''REDIS_HGET_TcpFd'' d)
         (\<lambda>ret. ''HGET(devid='' @ d @ ''). TcpFd=ret='' @ dec ret @ [LF]) srv) (\<lambda>i. i)"

definition REDIS_HDEL_TcpFd :: "'r server \<Rightarrow> string option \<Rightarrow> redis_lib \<Rightarrow> 'r \<Rightarrow> (int \<times> 'r) cres" where
  "REDIS_HDEL_TcpFd exec devid l srv =
     with_name False devid l srv (\<lambda>d.
       hdel exec [''HDEL'', d, KEY_FIELD_TCPFD] (failed_line ''REDIS_HDEL_TcpFd'' d)
         (\<lambda>i. ''HDEL TcpFd: '' @ dec i @ [LF]) srv) (\<lambda>i. i)"

section \<open>The users of the connection\<close>

text \<open>
  Calls of \<^verbatim>\<open>REDIS_Init\<close>, with what the connection attempt gives, and of \<^verbatim>\<open>REDIS_UnInit\<close>. The last result lists
  the contexts of the attempts that failed.
\<close>

datatype conn_op = Init "(nat \<times> string option) option" string int | UnInit

fun conn_run :: "'r server \<Rightarrow> conn_op list \<Rightarrow> redis_lib \<Rightarrow> 'r \<Rightarrow> (redis_lib \<times> 'r \<times> nat list) cres" where
  "conn_run exec [] l srv = Inr (l, srv, [])"
| "conn_run exec (UnInit # ops) l srv = conn_run exec ops (REDIS_UnInit l) srv"
| "conn_run exec (Init conn pass db # ops) l srv =
     cbind (REDIS_Init exec conn pass db l srv) (\<lambda>(h, l1, s1).
     cbind (conn_run exec ops l1 s1) (\<lambda>(l2, s2, lost).
       Inr (l2, s2, (case conn of Some (c, _) \<Rightarrow> if h = None then [c] else [] | None \<Rightarrow> []) @ lost)))"

definition conn_inv :: "redis_lib \<Rightarrow> bool" where
  "conn_inv l \<longleftrightarrow> (rl_hdl l = None \<longleftrightarrow> rl_cnt l \<le> 0) \<and>
     (rl_hdl l \<noteq> None \<longrightarrow> rl_lock l = Ready) \<and> set_option (rl_hdl l) \<subseteq> set (rl_open l)"

definition held_contexts :: "redis_lib \<Rightarrow> nat multiset" where
  "held_contexts l = (case rl_hdl l of None \<Rightarrow> {#} | Some c \<Rightarrow> {#c#})"

lemma uninit_inv: "conn_inv l \<Longrightarrow> conn_inv (REDIS_UnInit l)"
  by (auto simp: conn_inv_def REDIS_UnInit_def Let_def split: option.split)

lemma uninit_open:
  assumes "conn_inv l"
  shows "mset (rl_open (REDIS_UnInit l)) + held_contexts l = mset (rl_open l) + held_contexts (REDIS_UnInit l)"
  using assms by (auto simp: conn_inv_def REDIS_UnInit_def held_contexts_def Let_def split: option.split)

lemma login_result: "redis_login exec p db srv = Inr (ret, s) \<Longrightarrow> ret = 0 \<or> ret = - 4 \<or> ret = - 5"
  by (auto simp: redis_login_def cbind_Inr_iff split: prod.splits option.splits)

lemma init_step:
  assumes "REDIS_Init exec conn pass db l srv = Inr (h, l', srv')" "conn_inv l"
  shows "conn_inv l' \<and> mset (rl_open l') + held_contexts l =
    mset (rl_open l) + held_contexts l' + mset (case conn of Some (c, _) \<Rightarrow> if h = None then [c] else [] | None \<Rightarrow> [])"
proof (cases "rl_hdl l")
  case None
  then show ?thesis using assms login_result [of exec pass db srv]
    by (fastforce simp: REDIS_Init_def REDIS_UnInit_def conn_inv_def held_contexts_def cbind_Inr_iff Let_def
        split: option.splits prod.splits if_splits)
next
  case (Some c)
  then show ?thesis using assms by (auto simp: REDIS_Init_def conn_inv_def held_contexts_def split: option.splits)
qed

end
