(* ===== verification/Redis_Props.thy ===== *)
theory Redis_Props
  imports Redis
begin

text \<open>
  What the Redis client promises: the contexts of the connection, and, over a server that does what the
  commands are documented to do, that its calls keep a table of numbers.
\<close>

section \<open>Contexts\<close>

lemma balance_trans:
  assumes "o1 + h = o0 + h1 + k" "o2 + h1 = o1 + h2 + m"
  shows "o2 + h = o0 + h2 + (k + (m :: 'a multiset))"
proof -
  have "(o1 + h1) + (o2 + h) = (o2 + h1) + (o1 + h)" by (simp add: ac_simps)
  also have "\<dots> = (o1 + h1) + (o0 + h2 + (k + m))" unfolding assms by (simp add: ac_simps)
  finally show ?thesis by (rule add_left_imp_eq)
qed

lemma conn_run_inv:
  assumes "conn_run exec ops l srv = Inr (l', srv', lost)" "conn_inv l"
  shows "conn_inv l' \<and> mset (rl_open l') + held_contexts l = mset (rl_open l) + held_contexts l' + mset lost"
  using assms
proof (induction exec ops l srv arbitrary: l' srv' lost rule: conn_run.induct)
  case (2 exec ops l srv)
  then show ?case
    using uninit_inv [of l] balance_trans [of _ _ _ _ "{#}", OF _ conjunct2 [OF "2.IH"]] uninit_open [of l] by simp
next
  case (3 exec conn pass db ops l srv)
  obtain h l1 s1 lost1 where i: "REDIS_Init exec conn pass db l srv = Inr (h, l1, s1)"
    and r: "conn_run exec ops l1 s1 = Inr (l', srv', lost1)"
    and l: "lost = (case conn of Some (c, _) \<Rightarrow> if h = None then [c] else [] | None \<Rightarrow> []) @ lost1"
    using "3.prems"(1) by (auto simp: cbind_Inr_iff)
  note step = init_step [OF i "3.prems"(2)]
  from "3.IH" r step have "conn_inv l' \<and>
      mset (rl_open l') + held_contexts l1 = mset (rl_open l1) + held_contexts l' + mset lost1"
    by blast
  with step show ?case unfolding l mset_append using balance_trans by blast
qed simp

text \<open>
  C28: After any calls of \<^verbatim>\<open>REDIS_Init\<close> and \<^verbatim>\<open>REDIS_UnInit\<close>, also when connecting, logging in or selecting fails and
  when there are more releases than uses, there is a connection just as long as the count of users is
  positive, its lock can be taken, and the library contexts that are open are the current one and, never
  given back, those of the attempts that failed.
\<close>

theorem redis_contexts:
  assumes "conn_run exec ops redis_lib0 srv = Inr (l, srv', lost)"
  shows "(rl_hdl l = None \<longleftrightarrow> rl_cnt l \<le> 0) \<and> (rl_hdl l \<noteq> None \<longrightarrow> rl_lock l = Ready) \<and>
    mset (rl_open l) = mset lost + (case rl_hdl l of None \<Rightarrow> {#} | Some c \<Rightarrow> {#c#})"
  using conn_run_inv [OF assms] by (auto simp: conn_inv_def redis_lib0_def held_contexts_def add.commute)

definition silent :: "unit server" where
  "silent words s = (None, s)"

definition sample_conn_ops :: "conn_op list" where
  "sample_conn_ops = [Init (Some (7, None)) ''pw'' 1, Init None ''pw'' 1, UnInit, Init (Some (8, Some ''refused'')) ''pw'' 1]"

theorem redis_contexts_witness:
  "\<exists>l. conn_run silent sample_conn_ops redis_lib0 () = Inr (l, (), [7, 8]) \<and> rl_hdl l = None \<and> rl_open l = [8, 7]"
proof -
  obtain l where l: "conn_run silent sample_conn_ops redis_lib0 () = Inr (l, (), [7, 8])" "rl_cnt l \<le> 0" "rl_open l = [8, 7]"
    by (simp add: sample_conn_ops_def silent_def REDIS_Init_def REDIS_UnInit_def redis_login_def redis_lib0_def CachePrint_def
        sprintf_buf_def dec_def nat_digits.simps)
  then show ?thesis using redis_contexts [OF l(1)] by blast
qed

section \<open>The server\<close>

text \<open>
  What the commands are documented to do on a connection that is logged in, over the fields of the hashes
  that \<open>view\<close> sees: \<^verbatim>\<open>HINCRBY\<close> takes a missing field as 0.
\<close>

type_synonym fields = "string \<Rightarrow> string \<Rightarrow> string option"

definition set_field :: "('k \<Rightarrow> 'f \<Rightarrow> 'v) \<Rightarrow> 'k \<Rightarrow> 'f \<Rightarrow> 'v \<Rightarrow> 'k \<Rightarrow> 'f \<Rightarrow> 'v" where
  "set_field t k f v = t(k := (t k)(f := v))"

text \<open>A reply that is no error arrives, with its text and the fields after it.\<close>

definition replies :: "'r server \<Rightarrow> ('r \<Rightarrow> fields) \<Rightarrow> string list \<Rightarrow> 'r \<Rightarrow> string option \<Rightarrow> fields \<Rightarrow> bool" where
  "replies exec view words srv t flds \<longleftrightarrow>
     (\<exists>i s'. exec words srv = (Some \<lparr>rp_error = False, rp_str = t, rp_integer = i\<rparr>, s') \<and> view s' = flds)"

definition int_range :: "int \<Rightarrow> bool" where
  "int_range i \<longleftrightarrow> - (2 ^ 31) \<le> i \<and> i < 2 ^ 31"

definition redis_documented :: "'r server \<Rightarrow> ('r \<Rightarrow> fields) \<Rightarrow> bool" where
  "redis_documented exec view \<longleftrightarrow>
     (\<forall>srv k f v. replies exec view [''HSET'', k, f, v] srv None (set_field (view srv) k f (Some v))) \<and>
     (\<forall>srv k f. replies exec view [''HGET'', k, f] srv (view srv k f) (view srv)) \<and>
     (\<forall>srv k f. \<exists>i s'. exec [''HDEL'', k, f] srv = (Some \<lparr>rp_error = False, rp_str = None, rp_integer = i\<rparr>, s') \<and>
        0 \<le> i \<and> i \<le> 1 \<and> view s' = set_field (view srv) k f None) \<and>
     (\<forall>srv k f v g w. replies exec view [''HMSET'', k, f, v, g, w] srv (Some ''OK'')
        (set_field (set_field (view srv) k f (Some v)) k g (Some w))) \<and>
     (\<forall>srv k f n i. view srv k f = Some (dec n) \<or> view srv k f = None \<and> n = 0 \<longrightarrow> int_range n \<longrightarrow> int_range (n + i) \<longrightarrow>
        (\<exists>s'. exec [''HINCRBY'', k, f, dec i] srv = (Some \<lparr>rp_error = False, rp_str = None, rp_integer = n + i\<rparr>, s') \<and>
          view s' = set_field (view srv) k f (Some (dec (n + i)))))"

section \<open>The table the calls keep\<close>

datatype redis_op = Set_Dev string int int | Get_Tcp string | Get_Id string | Del_Tcp string | Del_Id string
  | Add_Cnt string int | Get_Cnt string | Set_App string int | Get_App string

type_synonym table = "string \<Rightarrow> string \<Rightarrow> int option"

text \<open>An exit of the process counts as the result it exits with.\<close>

fun redis_op_run :: "'r server \<Rightarrow> redis_lib \<Rightarrow> redis_op \<Rightarrow> 'r \<Rightarrow> (int \<times> 'r) cres" where
  "redis_op_run exec l (Set_Dev d i t) srv =
     cbind (REDIS_HMSET exec (Some d) i t l srv) (\<lambda>(r, s1). Inr (case r of None \<Rightarrow> - 5 | Some x \<Rightarrow> x, s1))"
| "redis_op_run exec l (Get_Tcp d) srv = REDIS_HGET_TcpFd exec (Some d) l srv"
| "redis_op_run exec l (Get_Id d) srv = REDIS_HGET_InsId exec (Some d) l srv"
| "redis_op_run exec l (Del_Tcp d) srv = REDIS_HDEL_TcpFd exec (Some d) l srv"
| "redis_op_run exec l (Del_Id d) srv = REDIS_HDEL_InsId exec (Some d) l srv"
| "redis_op_run exec l (Add_Cnt d i) srv = REDIS_HSET_InsCnt exec (Some d) i l srv"
| "redis_op_run exec l (Get_Cnt d) srv = REDIS_HGET_InsCnt exec (Some d) l srv"
| "redis_op_run exec l (Set_App f fd) srv = REDIS_HSET_AppFd exec (Some f) fd l srv"
| "redis_op_run exec l (Get_App f) srv = REDIS_HGET_AppFd exec (Some f) l srv"

definition found :: "int option \<Rightarrow> int" where
  "found v = (case v of None \<Rightarrow> - 3 | Some n \<Rightarrow> n)"

definition count_of :: "int option \<Rightarrow> int" where
  "count_of v = (case v of None \<Rightarrow> 0 | Some n \<Rightarrow> n)"

fun table_op :: "redis_op \<Rightarrow> table \<Rightarrow> int \<times> table" where
  "table_op (Set_Dev d i t) tab = (0, set_field (set_field tab d ''InsId'' (Some i)) d ''TcpFd'' (Some t))"
| "table_op (Get_Tcp d) tab = (found (tab d ''TcpFd''), tab)"
| "table_op (Get_Id d) tab = (found (tab d ''InsId''), tab)"
| "table_op (Del_Tcp d) tab = (0, set_field tab d ''TcpFd'' None)"
| "table_op (Del_Id d) tab = (0, set_field tab d ''InsId'' None)"
| "table_op (Add_Cnt d i) tab =
     (count_of (tab d ''InsCnt'') + i, set_field tab d ''InsCnt'' (Some (count_of (tab d ''InsCnt'') + i)))"
| "table_op (Get_Cnt d) tab = (found (tab d ''InsCnt''), tab)"
| "table_op (Set_App f fd) tab = (0, set_field tab ''app-dev'' f (Some fd))"
| "table_op (Get_App f) tab = (found (tab ''app-dev'' f), tab)"

text \<open>
  Names that pass the guards and fit the log line, numbers that fit an \<^verbatim>\<open>int\<close>, and an instance number that is there
  when it is asked for.
\<close>

definition name_ok :: "string \<Rightarrow> bool" where
  "name_ok d \<longleftrightarrow> 3 < length d \<and> length d \<le> 900"

fun op_ok :: "redis_op \<Rightarrow> table \<Rightarrow> bool" where
  "op_ok (Set_Dev d i t) tab \<longleftrightarrow> name_ok d \<and> int_range i \<and> int_range t"
| "op_ok (Get_Id d) tab \<longleftrightarrow> name_ok d \<and> tab d ''InsId'' \<noteq> None"
| "op_ok (Add_Cnt d i) tab \<longleftrightarrow> name_ok d \<and> int_range i \<and> int_range (count_of (tab d ''InsCnt'') + i)"
| "op_ok (Set_App f fd) tab \<longleftrightarrow> name_ok f \<and> int_range fd"
| "op_ok (Get_Tcp d) tab \<longleftrightarrow> name_ok d"
| "op_ok (Del_Tcp d) tab \<longleftrightarrow> name_ok d"
| "op_ok (Del_Id d) tab \<longleftrightarrow> name_ok d"
| "op_ok (Get_Cnt d) tab \<longleftrightarrow> name_ok d"
| "op_ok (Get_App f) tab \<longleftrightarrow> name_ok f"

fun redis_run :: "'r server \<Rightarrow> redis_lib \<Rightarrow> redis_op list \<Rightarrow> 'r \<Rightarrow> int list cres" where
  "redis_run exec l [] srv = Inr []"
| "redis_run exec l (x # xs) srv =
     cbind (redis_op_run exec l x srv) (\<lambda>(r, s1). cbind (redis_run exec l xs s1) (\<lambda>rs. Inr (r # rs)))"

fun table_run :: "redis_op list \<Rightarrow> table \<Rightarrow> int list" where
  "table_run [] tab = []"
| "table_run (x # xs) tab = fst (table_op x tab) # table_run xs (snd (table_op x tab))"

fun ops_ok :: "redis_op list \<Rightarrow> table \<Rightarrow> bool" where
  "ops_ok [] tab = True"
| "ops_ok (x # xs) tab \<longleftrightarrow> op_ok x tab \<and> ops_ok xs (snd (table_op x tab))"

definition tab_of :: "fields \<Rightarrow> table \<Rightarrow> bool" where
  "tab_of flds tab \<longleftrightarrow> (\<forall>k f. flds k f = map_option dec (tab k f)) \<and> (\<forall>k f. \<forall>n \<in> set_option (tab k f). int_range n)"

lemma dec_range: "int_range i \<Longrightarrow> length (dec i) < 16"
  by (simp add: dec_length int_range_def)

lemma found_range: "tab_of flds tab \<Longrightarrow> int_range (found (tab k f))"
  by (auto simp: tab_of_def found_def int_range_def split: option.split)

lemma count_range: "tab_of flds tab \<Longrightarrow> int_range (count_of (tab k f))"
  by (auto simp: tab_of_def count_of_def int_range_def split: option.split)

lemma tab_of_set:
  "tab_of flds tab \<Longrightarrow> int_range n \<Longrightarrow> tab_of (set_field flds k f (Some (dec n))) (set_field tab k f (Some n))"
  "tab_of flds tab \<Longrightarrow> tab_of (set_field flds k f None) (set_field tab k f None)"
  by (auto simp: tab_of_def set_field_def)

lemma print_fits: "length s < 999 \<Longrightarrow> CachePrint s = Inr ()"
  by (simp add: CachePrint_def sprintf_buf_def)

lemma reply_found:
  assumes "tab_of flds tab"
  shows "reply_value \<lparr>rp_error = False, rp_str = flds k f, rp_integer = i\<rparr> = found (tab k f)"
proof (cases "tab k f")
  case (Some n)
  then have "int_range n" "flds k f = Some (dec n)" using assms by (auto simp: tab_of_def)
  moreover have "\<not> isdigit_char (CHR ''K'')" by (simp add: isdigit_char_def)
  then have "CHR ''K'' \<notin> set (dec n)" using nat_digits_digits by (auto simp: dec_def)
  then have "dec n \<noteq> ''OK''" by auto
  ultimately show ?thesis using Some by (simp add: reply_value_def found_def int_range_def atoi_dec)
qed (use assms in \<open>simp add: reply_value_def found_def tab_of_def\<close>)

lemmas redis_calls = REDIS_HMSET_def REDIS_HGET_TcpFd_def REDIS_HGET_InsId_def REDIS_HDEL_TcpFd_def REDIS_HDEL_InsId_def
  REDIS_HSET_InsCnt_def REDIS_HGET_InsCnt_def REDIS_HSET_AppFd_def REDIS_HGET_AppFd_def hget_def hdel_def
lemmas redis_keys = KEY_FIELD_INSID_def KEY_FIELD_TCPFD_def KEY_FIELD_INSCNT_def KEY_APP_DEV_def
lemmas redis_lines = print_fits failed_line_def c_text_def dec_range

lemma doc_hset: "redis_documented exec view \<Longrightarrow>
    replies exec view [''HSET'', k, f, v] srv None (set_field (view srv) k f (Some v))"
  and doc_hget: "redis_documented exec view \<Longrightarrow> replies exec view [''HGET'', k, f] srv (view srv k f) (view srv)"
  and doc_hmset: "redis_documented exec view \<Longrightarrow> replies exec view [''HMSET'', k, f, v, g, w] srv (Some ''OK'')
    (set_field (set_field (view srv) k f (Some v)) k g (Some w))"
  and doc_hdel: "redis_documented exec view \<Longrightarrow>
    \<exists>i s'. exec [''HDEL'', k, f] srv = (Some \<lparr>rp_error = False, rp_str = None, rp_integer = i\<rparr>, s') \<and>
      0 \<le> i \<and> i \<le> 1 \<and> view s' = set_field (view srv) k f None"
  by (simp_all add: redis_documented_def)

lemma doc_hincrby:
  assumes "redis_documented exec view" "view srv k f = Some (dec n) \<or> view srv k f = None \<and> n = 0" "int_range n" "int_range (n + i)"
  shows "\<exists>s'. exec [''HINCRBY'', k, f, dec i] srv = (Some \<lparr>rp_error = False, rp_str = None, rp_integer = n + i\<rparr>, s') \<and>
    view s' = set_field (view srv) k f (Some (dec (n + i)))"
  using assms unfolding redis_documented_def by (elim conjE) metis

lemma hget_found:
  assumes "redis_documented exec view" "tab_of (view srv) tab"
    "\<And>n. int_range n \<Longrightarrow> length (line n) < 999"
  shows "\<exists>s1. hget exec [''HGET'', k, f] failed line srv = Inr (found (tab k f), s1) \<and> tab_of (view s1) tab"
proof -
  obtain i s1 where "exec [''HGET'', k, f] srv = (Some \<lparr>rp_error = False, rp_str = view srv k f, rp_integer = i\<rparr>, s1)"
    "view s1 = view srv"
    using doc_hget [OF assms(1)] unfolding replies_def by blast
  then show ?thesis using assms(2) reply_found [OF assms(2)] assms(3) [OF found_range [OF assms(2)]]
    by (simp add: hget_def print_fits)
qed

lemma hdel_gone:
  assumes "redis_documented exec view" "tab_of (view srv) tab" "\<And>n. int_range n \<Longrightarrow> length (line n) < 999"
  shows "\<exists>s1. hdel exec [''HDEL'', k, f] failed line srv = Inr (0, s1) \<and> tab_of (view s1) (set_field tab k f None)"
proof -
  obtain i s1 where "exec [''HDEL'', k, f] srv = (Some \<lparr>rp_error = False, rp_str = None, rp_integer = i\<rparr>, s1)"
    "0 \<le> i" "i \<le> 1" "view s1 = set_field (view srv) k f None"
    using doc_hdel [OF assms(1)] by blast
  then show ?thesis using tab_of_set(2) [OF assms(2)] assms(3) [of i]
    by (simp add: hdel_def print_fits int_range_def)
qed

lemma redis_step:
  assumes "redis_documented exec view" "rl_hdl l \<noteq> None" "op_ok x tab" "tab_of (view srv) tab"
  shows "\<exists>s1. redis_op_run exec l x srv = Inr (fst (table_op x tab), s1) \<and> tab_of (view s1) (snd (table_op x tab))"
proof -
  obtain c where up: "rl_hdl l = Some c" using assms(2) by blast
  show ?thesis
  proof (cases x)
    case (Set_Dev d i t)
    obtain j s1 where "exec [''HMSET'', d, ''InsId'', dec i, ''TcpFd'', dec t] srv =
        (Some \<lparr>rp_error = False, rp_str = Some ''OK'', rp_integer = j\<rparr>, s1)"
      "view s1 = set_field (set_field (view srv) d ''InsId'' (Some (dec i))) d ''TcpFd'' (Some (dec t))"
      using doc_hmset [OF assms(1)] unfolding replies_def by blast
    moreover have "name_ok d" "int_range i" "int_range t" using assms(3) Set_Dev by simp_all
    moreover from this have "length (dec t) < 16" "length (dec 0) < 16" by (simp_all only: dec_range) (simp add: dec_length)
    ultimately show ?thesis using up tab_of_set(1) [OF tab_of_set(1) [OF assms(4)]] Set_Dev
      by (simp add: REDIS_HMSET_def with_name_def redis_keys name_ok_def c_text_def print_fits Let_def)
  next
    case (Get_Tcp d)
    then show ?thesis using up assms(3)
      by (auto simp: REDIS_HGET_TcpFd_def with_name_def redis_keys name_ok_def intro!: hget_found [OF assms(1,4)] dest: dec_range)
  next
    case (Get_Id d)
    obtain j s1 where "exec [''HGET'', d, ''InsId''] srv =
        (Some \<lparr>rp_error = False, rp_str = view srv d ''InsId'', rp_integer = j\<rparr>, s1)" "view s1 = view srv"
      using doc_hget [OF assms(1)] unfolding replies_def by blast
    moreover obtain n where "tab d ''InsId'' = Some n" using assms(3) Get_Id by auto
    moreover from this have "view srv d ''InsId'' = Some (dec n)" "int_range n" using assms(4) by (auto simp: tab_of_def)
    ultimately show ?thesis using up dec_range [of n] assms(4) Get_Id
      by (auto simp: REDIS_HGET_InsId_def with_name_def redis_keys c_text_def print_fits found_def atoi_dec int_range_def)
  next
    case (Del_Tcp d)
    then show ?thesis using up assms(3)
      by (auto simp: REDIS_HDEL_TcpFd_def with_name_def redis_keys intro!: hdel_gone [OF assms(1,4)] dest: dec_range)
  next
    case (Del_Id d)
    then show ?thesis using up assms(3)
      by (auto simp: REDIS_HDEL_InsId_def with_name_def redis_keys intro!: hdel_gone [OF assms(1,4)] dest: dec_range)
  next
    case (Add_Cnt d i)
    let ?n = "count_of (tab d ''InsCnt'')"
    have r: "int_range i" "int_range (?n + i)" "name_ok d" using assms(3) Add_Cnt by simp_all
    have v: "view srv d ''InsCnt'' = Some (dec ?n) \<or> view srv d ''InsCnt'' = None \<and> ?n = 0"
      using assms(4) by (cases "tab d ''InsCnt''") (auto simp: tab_of_def count_of_def)
    note h = doc_hincrby [OF assms(1), where srv = srv and k = d and f = "''InsCnt''" and n = ?n and i = i]
    obtain s1 where
      "exec [''HINCRBY'', d, ''InsCnt'', dec i] srv = (Some \<lparr>rp_error = False, rp_str = None, rp_integer = ?n + i\<rparr>, s1)"
      "view s1 = set_field (view srv) d ''InsCnt'' (Some (dec (?n + i)))"
      using h [OF v count_range [OF assms(4)] r(2)] by blast
    moreover have "to_int32 (?n + i) = ?n + i" using r(2) by (simp add: to_int32_def int_range_def)
    ultimately show ?thesis using up r dec_range [of i] dec_range [of "?n + i"] tab_of_set(1) [OF assms(4)] Add_Cnt
      by (simp add: REDIS_HSET_InsCnt_def with_name_def redis_keys name_ok_def print_fits Let_def)
  next
    case (Get_Cnt d)
    then show ?thesis using up assms(3)
      by (auto simp: REDIS_HGET_InsCnt_def with_name_def redis_keys intro!: hget_found [OF assms(1,4)] dest: dec_range)
  next
    case (Set_App f fd)
    obtain j s1 where "exec [''HSET'', ''app-dev'', f, dec fd] srv = (Some \<lparr>rp_error = False, rp_str = None, rp_integer = j\<rparr>, s1)"
      "view s1 = set_field (view srv) ''app-dev'' f (Some (dec fd))"
      using doc_hset [OF assms(1)] unfolding replies_def by blast
    moreover have "length (dec 0) < 16" "name_ok f" "int_range fd" using assms(3) Set_App by (simp_all add: dec_length)
    ultimately show ?thesis using up tab_of_set(1) [OF assms(4)] Set_App
      by (simp add: REDIS_HSET_AppFd_def with_name_def redis_keys name_ok_def c_text_def print_fits)
  next
    case (Get_App f)
    then show ?thesis using up assms(3)
      by (auto simp: REDIS_HGET_AppFd_def with_name_def redis_keys name_ok_def intro!: hget_found [OF assms(1,4)] dest: dec_range)
  qed
qed

text \<open>
  C27: Over a server that does what its commands document, any calls on a connection return what a plain table
  of numbers gives, provided that names have 4 to 900 characters, that numbers and counters stay in the range
  of \<^verbatim>\<open>int\<close>, and that \<^verbatim>\<open>REDIS_HGET_InsId\<close> asks only for devices that have the field (it crashes on the others, lemma
  \<open>missing_instance\<close>): a reader finds what was last stored under its name and \<^verbatim>\<open>-3\<close> where nothing is, the counter
  adds up, and no call touches another's fields.
\<close>

theorem redis_table_agrees:
  assumes "redis_documented exec view" "rl_hdl l \<noteq> None" "tab_of (view srv) tab" "ops_ok ops tab"
  shows "redis_run exec l ops srv = Inr (table_run ops tab)"
  using assms(3,4)
proof (induction ops arbitrary: srv tab)
  case (Cons x xs)
  then show ?case using redis_step [OF assms(1,2), of x tab srv] by fastforce
qed simp

text \<open>A server over its fields that answers as documented.\<close>

definition reply :: "string option \<Rightarrow> int \<Rightarrow> fields \<Rightarrow> redis_reply option \<times> fields" where
  "reply t i flds = (Some \<lparr>rp_error = False, rp_str = t, rp_integer = i\<rparr>, flds)"

definition sample_server :: "fields server" where
  "sample_server words flds =
     (case words of
        [c, k, f] \<Rightarrow> if c = ''HGET'' then reply (flds k f) 0 flds
                     else if c = ''HDEL'' then reply None (if flds k f = None then 0 else 1) (set_field flds k f None)
                     else (None, flds)
      | [c, k, f, v] \<Rightarrow> if c = ''HSET'' then reply None 1 (set_field flds k f (Some v))
                        else if c = ''HINCRBY'' then
                          (let n = (case flds k f of None \<Rightarrow> 0 | Some t \<Rightarrow> c_strtol t) + c_strtol v
                           in reply None n (set_field flds k f (Some (dec n))))
                        else (None, flds)
      | [c, k, f, v, g, w] \<Rightarrow> reply (Some ''OK'') 0 (set_field (set_field flds k f (Some v)) k g (Some w))
      | _ \<Rightarrow> (None, flds))"

lemma sample_documented: "redis_documented sample_server (\<lambda>flds. flds)"
proof -
  have "c_strtol (dec i) = i" if "int_range n" "int_range (n + i)" for n i
    by (rule strtol_dec) (use that in \<open>simp_all add: int_range_def\<close>)
  moreover have "c_strtol (dec n) = n" if "int_range n" for n
    by (rule strtol_dec) (use that in \<open>simp_all add: int_range_def\<close>)
  ultimately show ?thesis
    by (auto simp: redis_documented_def replies_def sample_server_def reply_def Let_def)
qed

definition sample_lib :: redis_lib where
  "sample_lib = \<lparr>rl_hdl = Some 7, rl_cnt = 1, rl_open = [7], rl_lock = Ready\<rparr>"

definition sample_calls :: "redis_op list" where
  "sample_calls = [Set_Dev ''W2017'' 3 5, Add_Cnt ''W2017'' 2, Set_App ''app-1'' 12, Add_Cnt ''W2017'' (- 3), Del_Tcp ''W2017'',
     Get_Tcp ''W2017'', Get_Id ''W2017'', Get_Cnt ''W2017'', Get_App ''app-1'']"

theorem redis_table_agrees_witness:
  "redis_run sample_server sample_lib sample_calls (\<lambda>k f. None) = Inr [0, 2, 0, - 1, 0, - 3, 3, - 1, 12]"
proof -
  have "tab_of (\<lambda>k f. None) (\<lambda>k f. None)" by (simp add: tab_of_def)
  moreover have "ops_ok sample_calls (\<lambda>k f. None)"
    by (simp add: sample_calls_def name_ok_def int_range_def set_field_def count_of_def)
  moreover have "table_run sample_calls (\<lambda>k f. None) = [0, 2, 0, - 1, 0, - 3, 3, - 1, 12]"
    by (simp add: sample_calls_def set_field_def count_of_def found_def)
  ultimately show ?thesis
    using redis_table_agrees [OF sample_documented, of sample_lib "\<lambda>k f. None"] by (simp add: sample_lib_def)
qed

section \<open>Errors\<close>

text \<open>
  Asking for the instance number of a device that has none reads through a null pointer, as long as the line
  fits; the other readers give \<^verbatim>\<open>-3\<close>.
\<close>

lemma missing_instance:
  assumes "redis_documented exec view" "rl_hdl l \<noteq> None" "view srv d ''InsId'' = None"
  shows "REDIS_HGET_InsId exec (Some d) l srv = Inl Null_Deref"
proof -
  obtain i s1 where "exec [''HGET'', d, ''InsId''] srv = (Some \<lparr>rp_error = False, rp_str = None, rp_integer = i\<rparr>, s1)"
    using doc_hget [OF assms(1), where srv = srv and k = d and f = "''InsId''"] assms(3) unfolding replies_def by auto
  then show ?thesis using assms(2)
    by (auto simp: REDIS_HGET_InsId_def with_name_def redis_keys c_text_def print_fits)
qed

text \<open>A server that refuses the password and everything after it still gets a connection.\<close>

lemma refused_login_connects:
  assumes "\<And>words s. exec words s = (Some \<lparr>rp_error = True, rp_str = Some ''NOAUTH'', rp_integer = 0\<rparr>, s)"
  shows "\<exists>l. REDIS_Init exec (Some (c, None)) pass 1 redis_lib0 srv = Inr (Some c, l, srv) \<and> rl_cnt l = 1"
proof -
  have "length (dec 0) < 16" "length (dec 1) < 16" by (simp_all add: dec_length)
  then show ?thesis
    by (simp add: REDIS_Init_def redis_login_def log_error_def redis_lib0_def c_text_def print_fits assms Let_def)
qed

text \<open>A name of 1000 characters overruns the buffer of the log line once the reader has its answer.\<close>

lemma long_name_overruns:
  assumes "rl_hdl l \<noteq> None" "1000 \<le> length d"
  shows "REDIS_HGET_TcpFd exec (Some d) l srv = Inl Out_Of_Bounds"
  using assms by (auto simp: REDIS_HGET_TcpFd_def with_name_def hget_def CachePrint_def sprintf_buf_def failed_line_def
      split: prod.split option.split)

end
