(* ===== verification/Md5_Endian.thy ===== *)
theory Md5_Endian
  imports Md5
begin

text \<open>
  The byte order of the digest of \<^verbatim>\<open>vos.c\<close>. \<open>Md5\<close> reads the block in the little endian order at once; here a
  word is read and written in the order of the machine, and the code turns the bytes round on a big endian
  one. Both machines compute the same digest.
\<close>

section \<open>The code\<close>

definition swab_step :: "nat \<Rightarrow> u8 list \<Rightarrow> u8 list" where
  "swab_step i buf = (let pos = length buf - i - 1 in buf[i := buf ! pos, pos := buf ! i])"

definition swab :: "u8 list \<Rightarrow> u8 list" where
  "swab buf = fold swab_step [0..<length buf div 2] buf"

text \<open>\<^verbatim>\<open>__le32_to_cpus\<close> and \<^verbatim>\<open>__cpu_to_le32s\<close> on the four bytes of a word; \<open>big\<close> is the order of the machine.\<close>

definition le32_to_cpus :: "bool \<Rightarrow> u8 list \<Rightarrow> u8 list" where
  "le32_to_cpus big w = (if big then swab w else w)"

definition le32_to_cpu_array :: "bool \<Rightarrow> nat \<Rightarrow> u8 list \<Rightarrow> u8 list" where
  "le32_to_cpu_array big words buf =
     concat (map (\<lambda>i. le32_to_cpus big (take 4 (drop (4 * i) buf))) [0..<words]) @ drop (4 * words) buf"

definition cpu_to_le32_array :: "bool \<Rightarrow> nat \<Rightarrow> u8 list \<Rightarrow> u8 list" where
  "cpu_to_le32_array big words buf =
     concat (map (\<lambda>i. if big then swab (take 4 (drop (4 * i) buf)) else take 4 (drop (4 * i) buf)) [0..<words]) @
     drop (4 * words) buf"

text \<open>What the machine reads from four bytes, and what it stores.\<close>

definition cpu_word :: "bool \<Rightarrow> u8 list \<Rightarrow> u32" where
  "cpu_word big bs = (if big then foldl (\<lambda>w b. push_bit 8 w OR ucast b) 0 bs else le_word bs)"

definition cpu_bytes :: "bool \<Rightarrow> u32 \<Rightarrow> u8 list" where
  "cpu_bytes big w =
     (if big then map (\<lambda>i. ucast (drop_bit (24 - 8 * i) w)) [0..<4] else map (\<lambda>i. ucast (drop_bit (8 * i) w)) [0..<4])"

definition cpu_words :: "bool \<Rightarrow> u8 list \<Rightarrow> u32 list" where
  "cpu_words big blk = map (\<lambda>i. cpu_word big (take 4 (drop (4 * i) blk))) [0..<16]"

text \<open>\<^verbatim>\<open>md5_transform_helper\<close>, the last block of \<^verbatim>\<open>md5_final\<close> with its two words of length, and its output.\<close>

definition helper_on :: "bool \<Rightarrow> u32 \<times> u32 \<times> u32 \<times> u32 \<Rightarrow> u8 list \<Rightarrow> u32 \<times> u32 \<times> u32 \<times> u32" where
  "helper_on big hash blk = md5_transform hash (cpu_words big (le32_to_cpu_array big 16 blk))"

definition final_on :: "bool \<Rightarrow> u32 \<times> u32 \<times> u32 \<times> u32 \<Rightarrow> u8 list \<Rightarrow> u64 \<Rightarrow> u32 \<times> u32 \<times> u32 \<times> u32" where
  "final_on big hash blk count =
     (let blk' = put 56 (cpu_bytes big (ucast (push_bit 3 count)) @ cpu_bytes big (ucast (drop_bit 29 count))) blk
      in md5_transform hash (cpu_words big (le32_to_cpu_array big 14 blk')))"

definition out_on :: "bool \<Rightarrow> u32 \<times> u32 \<times> u32 \<times> u32 \<Rightarrow> u8 list" where
  "out_on big hash = (case hash of (a, b, c, d) \<Rightarrow>
     cpu_to_le32_array big 4 (cpu_bytes big a @ cpu_bytes big b @ cpu_bytes big c @ cpu_bytes big d))"

definition hex_upper :: "u8 \<Rightarrow> string" where
  "hex_upper b = (let d = \<lambda>n. ''0123456789ABCDEF'' ! n in [d (unat b div 16), d (unat b mod 16)])"

definition md5_show :: "u8 list option \<Rightarrow> string" where
  "md5_show digest =
     (case digest of None \<Rightarrow> []
      | Some s \<Rightarrow> ''md5sum:'' @ [CHR 0x09] @ concat (map (\<lambda>i. hex_upper (s ! i)) [0..<16]) @ [CHR 0x0A])"

section \<open>Both orders\<close>

text \<open>The code calls \<^verbatim>\<open>swab\<close> for four bytes.\<close>

lemma swab_word: "length bs = 4 \<Longrightarrow> swab bs = rev bs"
proof -
  assume l: "length bs = 4"
  then have "swab bs = swab_step 1 (swab_step 0 bs)" by (simp add: swab_def upt_rec)
  then show ?thesis using l by (auto simp: swab_step_def numeral_eq_Suc length_Suc_conv Let_def)
qed

lemma cpu_word_rev: "cpu_word True (rev bs) = le_word bs"
  by (simp add: cpu_word_def le_word_def foldr_conv_foldl)

lemma cpu_bytes_rev: "rev (cpu_bytes True w) = le_bytes 4 w" "cpu_bytes False w = le_bytes 4 w"
  by (simp_all add: cpu_bytes_def le_bytes_def upt_rec)

lemma cpu_word_bytes: "cpu_word big (cpu_bytes big w) = le_word (le_bytes 4 w)"
proof (cases big)
  case True
  have "cpu_word True (rev (rev (cpu_bytes True w))) = le_word (le_bytes 4 w)" unfolding cpu_word_rev cpu_bytes_rev ..
  then show ?thesis using True by simp
qed (simp add: cpu_word_def cpu_bytes_rev)

text \<open>Four bytes of an array after the first \<open>k\<close> words have been turned round.\<close>

lemma words_drop:
  assumes "\<And>x. x \<in> set xs \<Longrightarrow> length x = 4"
  shows "take 4 (drop (4 * i) (concat xs @ r)) = (if i < length xs then xs ! i else take 4 (drop (4 * (i - length xs)) r))"
  using assms
proof (induction xs arbitrary: i)
  case (Cons x xs)
  then show ?case by (cases i) simp_all
qed simp

lemma array_words:
  assumes "4 * words \<le> length buf"
  shows "take 4 (drop (4 * i) (le32_to_cpu_array big words buf)) =
    (if i < words then le32_to_cpus big (take 4 (drop (4 * i) buf)) else take 4 (drop (4 * i) buf))"
proof -
  let ?xs = "map (\<lambda>i. le32_to_cpus big (take 4 (drop (4 * i) buf))) [0..<words]"
  have "length x = 4" if "x \<in> set ?xs" for x
    using that assms by (auto simp: le32_to_cpus_def swab_word)
  from words_drop [of ?xs i "drop (4 * words) buf", OF this] show ?thesis
    by (auto simp: le32_to_cpu_array_def algebra_simps)
qed

lemma cpu_word_le: "length bs = 4 \<Longrightarrow> cpu_word big (le32_to_cpus big bs) = le_word bs"
  using cpu_word_rev [of bs] by (cases big) (simp_all add: le32_to_cpus_def swab_word, simp add: cpu_word_def)

lemma helper_agrees: "length blk = 64 \<Longrightarrow> helper_on big hash blk = md5_transform hash (block_words blk)"
  unfolding helper_on_def cpu_words_def block_words_def
  by (intro arg_cong2 [of _ _ _ _ md5_transform] map_cong refl) (simp add: array_words cpu_word_le)

lemma length_cpu_bytes [simp]: "length (cpu_bytes big w) = 4"
  by (simp add: cpu_bytes_def)

lemma final_agrees:
  assumes "length blk = 64"
  shows "final_on big hash blk count = md5_transform hash (block_words
    (put 56 (le_bytes 4 (ucast (push_bit 3 count) :: u32) @ le_bytes 4 (ucast (drop_bit 29 count) :: u32)) blk))"
proof -
  let ?lo = "ucast (push_bit 3 count) :: u32" and ?hi = "ucast (drop_bit 29 count) :: u32"
  let ?b = "\<lambda>bs. take 56 blk @ bs"
  have put: "put 56 bs blk = take 56 blk @ bs" if "length bs = 8" for bs using assms that by (simp add: put_def)
  have head: "take 4 (drop (4 * i) (take 56 blk @ bs)) = take 4 (drop (4 * i) blk)" if "i < 14" for i bs
    using assms that by (simp add: take_drop min_def)
  have tail: "take 4 (drop (4 * i) (take 56 blk @ a @ b)) = (if i = 14 then a else b)"
    if "i = 14 \<or> i = 15" "length a = 4" "length b = 4" for i a b
    using that assms by auto
  have "cpu_word big (take 4 (drop (4 * i) (le32_to_cpu_array big 14 (?b (cpu_bytes big ?lo @ cpu_bytes big ?hi))))) =
      le_word (take 4 (drop (4 * i) (?b (le_bytes 4 ?lo @ le_bytes 4 ?hi))))" if "i < 16" for i
  proof (cases "i < 14")
    case True
    then show ?thesis using assms by (simp add: array_words head cpu_word_le)
  next
    case False
    then have i: "i = 14 \<or> i = 15" using that by auto
    have "take 4 (drop (4 * i) (le32_to_cpu_array big 14 (?b (cpu_bytes big ?lo @ cpu_bytes big ?hi)))) =
        take 4 (drop (4 * i) (?b (cpu_bytes big ?lo @ cpu_bytes big ?hi)))"
      using assms False by (subst array_words) simp_all
    note n = trans [OF this tail [OF i length_cpu_bytes length_cpu_bytes]]
    show ?thesis unfolding n tail [OF i length_le_bytes length_le_bytes] by (simp add: cpu_word_bytes)
  qed
  then show ?thesis
    unfolding final_on_def cpu_words_def block_words_def Let_def
    by (intro arg_cong2 [of _ _ _ _ md5_transform] map_cong refl) (simp add: put)
qed

lemma out_agrees: "out_on big hash = hash_bytes hash"
proof (cases hash)
  case (fields a b c d)
  have w: "(if big then swab (cpu_bytes big w) else cpu_bytes big w) = le_bytes 4 w" for w
    by (cases big) (simp_all add: swab_word cpu_bytes_rev)
  have "cpu_to_le32_array big 4 (p @ q @ r @ s) =
      (if big then swab p else p) @ (if big then swab q else q) @ (if big then swab r else r) @ (if big then swab s else s)"
    if "length p = 4" "length q = 4" "length r = 4" "length s = 4" for p q r s
    using that by (simp add: cpu_to_le32_array_def upt_rec)
  then show ?thesis using fields by (simp add: out_on_def hash_bytes_def w)
qed

end
