(* ===== verification/Vos_Init.thy ===== *)
theory Vos_Init
  imports Redis Reboot Os_Files Ringbuf
begin

text \<open>
  Setting the library up and taking it down: \<^verbatim>\<open>VOS_Init\<close> and \<^verbatim>\<open>VOS_UnInit\<close> of \<^verbatim>\<open>vos.c\<close> with the locks of
  \<^verbatim>\<open>msg.c\<close>, \<^verbatim>\<open>timer.c\<close> and \<^verbatim>\<open>logfile.c\<close>, and small functions that stand by themselves: the locks of a ring
  buffer, the sizes of files, the reader that scans a value, and the program around the reset log.
\<close>

section \<open>The library\<close>

text \<open>The locks are static and begin as zeros.\<close>

record vos_lib =
  gMsgThrdLock :: lock_stage
  gTMThrdLock :: lock_stage
  gLogThrdLock :: lock_stage
  vos_log :: log_state

definition vos_lib0 :: vos_lib where
  "vos_lib0 = \<lparr>gMsgThrdLock = Zeroed, gTMThrdLock = Zeroed, gLogThrdLock = Zeroed, vos_log = log_state0\<rparr>"

definition MSG_Init :: "vos_lib \<Rightarrow> int \<times> vos_lib" where
  "MSG_Init v = (0, v\<lparr>gMsgThrdLock := Ready\<rparr>)"

definition MSG_UnInit :: "vos_lib \<Rightarrow> int \<times> vos_lib" where
  "MSG_UnInit v = (0, v\<lparr>gMsgThrdLock := Destroyed\<rparr>)"

definition TM_Init :: "vos_lib \<Rightarrow> int \<times> vos_lib" where
  "TM_Init v = (0, v\<lparr>gTMThrdLock := Ready\<rparr>)"

definition TM_UnInit :: "vos_lib \<Rightarrow> int \<times> vos_lib" where
  "TM_UnInit v = (0, v\<lparr>gTMThrdLock := Destroyed\<rparr>)"

text \<open>\<^verbatim>\<open>osInit\<close> does nothing, and the result of \<^verbatim>\<open>Log_Init\<close> is not looked at.\<close>

definition VOS_Init :: "string option \<Rightarrow> u32 \<Rightarrow> vos_lib \<Rightarrow> (int \<times> vos_lib) cres" where
  "VOS_Init LogDir MaxLogFileSize v =
     (let v1 = snd (MSG_Init v)
      in cbind (Log_Init LogDir MaxLogFileSize (vos_log v1)) (\<lambda>(ret, g).
           Inr (0, v1\<lparr>vos_log := g,
                      gLogThrdLock := (if gLogInitFlag g \<and> \<not> gLogInitFlag (vos_log v1) then Ready else gLogThrdLock v1)\<rparr>)))"

definition VOS_UnInit :: "vos_lib \<Rightarrow> int \<times> vos_lib" where
  "VOS_UnInit v = (0, snd (MSG_UnInit v))"

text \<open>A run of a program that sets the library up and takes it down any number of times.\<close>

datatype vos_call = Call_Init "string option" u32 | Call_UnInit

fun vos_run :: "vos_call list \<Rightarrow> vos_lib \<Rightarrow> vos_lib cres" where
  "vos_run [] v = Inr v"
| "vos_run (Call_Init d n # cs) v = cbind (VOS_Init d n v) (\<lambda>(ret, v1). vos_run cs v1)"
| "vos_run (Call_UnInit # cs) v = vos_run cs (snd (VOS_UnInit v))"

lemma log_init_kept: "gLogInitFlag g \<Longrightarrow> Log_Init d n g = Inr (0, g)"
  by (simp add: Log_Init_def)

text \<open>
  No run sets up the lock of the timers, and the lock of the messages is ready exactly while the last call is
  the one that sets up.
\<close>

lemma vos_run_locks:
  assumes "vos_run cs v = Inr v'"
  shows "gTMThrdLock v' = gTMThrdLock v \<and>
    gMsgThrdLock v' = (if cs = [] then gMsgThrdLock v else if last cs = Call_UnInit then Destroyed else Ready)"
  using assms
proof (induction cs v rule: vos_run.induct)
  case (2 d n cs v)
  obtain v1 where v1: "VOS_Init d n v = Inr (0, v1)" "vos_run cs v1 = Inr v'"
    using "2.prems" by (auto simp: cbind_Inr_iff VOS_Init_def Let_def)
  have "gTMThrdLock v1 = gTMThrdLock v" "gMsgThrdLock v1 = Ready"
    using v1(1) by (auto simp: VOS_Init_def MSG_Init_def Let_def cbind_Inr_iff)
  then show ?case using "2.IH" [OF v1(2)] by simp
next
  case (3 cs v)
  then show ?case by (simp add: VOS_UnInit_def MSG_UnInit_def)
qed simp

text \<open>
  The logs are never taken down: once they have been set up, no later call changes where they go or how large they
  may be.
\<close>

lemma vos_run_log:
  assumes "gLogInitFlag (vos_log v)"
  shows "\<exists>v'. vos_run cs v = Inr v' \<and> vos_log v' = vos_log v"
  using assms
proof (induction cs v rule: vos_run.induct)
  case (2 d n cs v)
  then have "gLogInitFlag (vos_log (v\<lparr>gMsgThrdLock := Ready\<rparr>))" by simp
  from "2.IH" [OF this] show ?case using "2.prems" by (simp add: VOS_Init_def MSG_Init_def Let_def log_init_kept)
next
  case (3 cs v)
  then show ?case by (simp add: VOS_UnInit_def MSG_UnInit_def)
qed simp

lemma vos_init_again:
  assumes "length d < 256"
  shows "\<exists>v. vos_run (Call_Init (Some d) n # cs) vos_lib0 = Inr v \<and> gLogDir (vos_log v) = d"
proof -
  obtain v1 where v1: "VOS_Init (Some d) n vos_lib0 = Inr (0, v1)" "gLogInitFlag (vos_log v1)" "gLogDir (vos_log v1) = d"
    using assms by (simp add: VOS_Init_def MSG_Init_def vos_lib0_def log_state0_def Log_Init_def sprintf_buf_def Let_def)
  then show ?thesis using vos_run_log [OF v1(2), of cs] by auto
qed

section \<open>The locks of a ring buffer\<close>

record rb_locks =
  rb_mutex :: lock_stage
  rb_notfull :: lock_stage
  rb_notempty :: lock_stage

text \<open>A call that fails is only reported, and \<^verbatim>\<open>perror\<close> is not reached for the positive error numbers.\<close>

definition ringbuf_fini :: "rb_locks \<Rightarrow> rb_locks" where
  "ringbuf_fini l = l\<lparr>rb_mutex := Destroyed, rb_notfull := Destroyed, rb_notempty := Destroyed\<rparr>"

section \<open>Small functions\<close>

definition utl_FileGetSize :: "world \<Rightarrow> string \<Rightarrow> nat" where
  "utl_FileGetSize w f = (case files w f of None \<Rightarrow> 0 | Some fl \<Rightarrow> length (fl_data fl))"

text \<open>\<open>scan\<close> is what \<^verbatim>\<open>vsscanf\<close> returns for the value, with the format and the places of the caller.\<close>

definition cfg_get_item ::
  "(string \<Rightarrow> int) \<Rightarrow> tconfig option \<Rightarrow> string option \<Rightarrow> string option \<Rightarrow> (int \<times> tconfig option) cres" where
  "cfg_get_item scan pconfig section key =
     (case pconfig of
        None \<Rightarrow> Inr (- 1, None)
      | Some p \<Rightarrow>
          if section = None \<or> key = None then Inr (- 1, Some p)
          else cbind (cfg_find p section key) (\<lambda>(rc, p1).
            if rc < 0 then Inr (- 1, Some p1)
            else case cur_value p1 of
                   None \<Rightarrow> Inl Null_Deref
                 | Some v \<Rightarrow> Inr (if 0 < scan v then 0 else - 1, Some p1)))"

text \<open>It succeeds exactly when the first definition has a value that the format fits.\<close>

lemma cfg_get_item_result:
  assumes "f_valid p"
  shows "\<exists>p'. cfg_get_item scan (Some p) (Some s) (Some k) =
    Inr (case cfg_lookup s k (entries p) of None \<Rightarrow> - 1 | Some v \<Rightarrow> if 0 < scan v then 0 else - 1, Some p')"
proof -
  obtain rc p' where "cfg_find p (Some s) (Some k) = Inr (rc, p')"
    "case cfg_lookup s k (entries p) of None \<Rightarrow> rc = -1 | Some v \<Rightarrow> rc = 0 \<and> cur_value p' = Some v"
    using cfg_find_lookup [OF assms] by blast
  then show ?thesis by (auto simp: cfg_get_item_def split: option.splits)
qed

text \<open>The program of \<^verbatim>\<open>reboot.c\<close>: without an argument the code is 0, the one of the watchdog.\<close>

definition reboot_main ::
  "(string \<Rightarrow> bool) \<Rightarrow> bool \<Rightarrow> c_tm \<Rightarrow> string list \<Rightarrow> log_dir \<Rightarrow> (log_dir \<times> reboot_act list \<times> int option) cres" where
  "reboot_main can wdt t argv fs =
     WdtReboot can wdt t (if length argv = 1 then 0 else word_of_int (c_atoi (argv ! 1))) fs"

end
