(* ===== verification/Vos_Tests.thy ===== *)
theory Vos_Tests
  imports Msg Ringbuf_Conc Ifinfo
begin

text \<open>
  The driver \<^verbatim>\<open>test/vos_test.c\<close> over the models of what it calls. A function gives what it prints, as values.
\<close>

section \<open>The tests\<close>

definition test_body :: "u8 list" where "test_body = [1, 2, 3, 4, 5, 6]"

text \<open>The bytes packed, and what unpacking gives: \<^verbatim>\<open>ver\<close>, \<^verbatim>\<open>sn\<close> and the bytes of the body.\<close>

definition test_msgpack :: "(u8 list \<times> int \<times> (u8 \<times> u8 \<times> u8 list) option) cres" where
  "test_msgpack =
     cbind (MSG_PackHex 1 20 (Some test_body) 6 (Some (replicate 128 0))) (\<lambda>(ret, MsgBuf).
       let buf = (case MsgBuf of None \<Rightarrow> [] | Some m \<Rightarrow> m)
       in cbind (MSG_UnPackHex True True (Some (replicate 100 0)) MsgBuf) (\<lambda>u.
            Inr (take (unat ret) buf, uh_ret u,
                 if 0 < uh_ret u then
                   Some (case uh_ver u of None \<Rightarrow> 0 | Some v \<Rightarrow> v, case uh_sn u of None \<Rightarrow> 0 | Some s \<Rightarrow> s,
                         take (nat (uh_ret u)) (uh_body u))
                 else None)))"

text \<open>The buffer of an entry as the text that \<^verbatim>\<open>%s\<close> prints, \<open>None\<close> without a terminator.\<close>

definition datum_text :: "datum \<Rightarrow> u8 list option" where
  "datum_text d = (if 0 \<in> set d then Some (takeWhile (\<lambda>b. b \<noteq> 0) d) else None)"

text \<open>\<^verbatim>\<open>strcpy\<close> to \<^verbatim>\<open>buf\<close>, and the copy of \<^verbatim>\<open>data\<close> with its length in front.\<close>

definition datum_strcpy :: "u8 list \<Rightarrow> datum \<Rightarrow> datum" where
  "datum_strcpy s d = s @ [0] @ drop (length s + 1) d"

definition datum_msg :: "u8 list \<Rightarrow> datum \<Rightarrow> datum" where
  "datum_msg bs d = of_nat (length bs) # bs @ drop (length bs + 1) d"

definition tony :: "u8 list" where "tony = [0x74, 0x6F, 0x6E, 0x79, 0x31, 0x32, 0x33]"
definition tmp_text :: "u8 list" where "tmp_text = [0x46, 0x75, 0x63, 0x6B, 0x49, 0x74, 0]"

fun take_each :: "nat \<Rightarrow> datum ringbuf \<Rightarrow> (int \<times> u64 \<times> u8 list option) list" where
  "take_each 0 r = []"
| "take_each (Suc n) r =
     (case ringbuf_dequeue (rb_os_ok 0) r of (ret, out, r') \<Rightarrow>
        (ret, num r', datum_text (case out of None \<Rightarrow> replicate 256 0 | Some d \<Rightarrow> d)) # take_each n r')"

definition test_ringbuf :: "(int \<times> u64) list \<times> (int \<times> u64 \<times> u8 list option) list" where
  "test_ringbuf =
     (let r = ringbuf_init 9 (replicate 9 (replicate 256 0));
          item = datum_strcpy tony (replicate 256 0);
          (ret1, r1) = ringbuf_enqueue (rb_os_ok 0) r item;
          item2 = datum_msg tmp_text item;
          (ret2, r2) = ringbuf_enqueue (rb_os_ok 0) r1 item2
      in ([(ret1, num r1), (ret2, num r2)], take_each 3 r2))"

text \<open>The texts of the interface \<^verbatim>\<open>eth9\<close>; the buffers hold empty texts before the call.\<close>

definition test_utils :: "ifaddr list option \<Rightarrow> (string \<times> string \<times> string) cres" where
  "test_utils ifas =
     cbind (utl_IfGetInfo ifas ''eth9'' True True True If_Null) (\<lambda>(ret, res, ptr).
       let text = (\<lambda>s. case s of None \<Rightarrow> [] | Some t \<Rightarrow> t)
       in Inr (text (out_ip res), text (out_mac res), text (out_raw res)))"

section \<open>What they show\<close>

lemma msgpack_prints: "test_msgpack = Inr ([0xAA, 1, 20, 6] @ test_body, 6, Some (1, 20, test_body))"
  by code_simp

text \<open>
  The first entry comes back as it was put in. The second has its length in front, and its text starts with
  that byte. The third call finds nothing.
\<close>

lemma takeWhile_text: "0 \<notin> set s \<Longrightarrow> takeWhile (\<lambda>b. b \<noteq> 0) (s @ 0 # r) = (s :: u8 list)"
  by (subst takeWhile_append2) auto

lemma datum_text_strcpy: "0 \<notin> set s \<Longrightarrow> datum_text (datum_strcpy s d) = Some s"
  by (simp add: datum_text_def datum_strcpy_def takeWhile_text)

lemma datum_text_msg:
  assumes "length bs < 255" "0 \<notin> set bs"
  shows "datum_text (datum_msg (bs @ [0]) d) = Some (of_nat (length bs + 1) # bs)"
proof -
  have "(of_nat (length bs + 1) :: u8) \<noteq> 0"
    using assms(1) by (simp add: word_of_nat_eq_0_iff nat_dvd_not_less del: of_nat_add of_nat_Suc)
  then show ?thesis using assms(2) by (simp add: datum_text_def datum_msg_def takeWhile_text add.commute)
qed

lemma ringbuf_test_prints:
  "test_ringbuf = ([(0, 1), (0, 2)], [(0, 1, Some tony), (0, 0, Some (7 # butlast tmp_text)), (- 1, 0, Some [])])"
proof -
  have t: "datum_text (datum_strcpy tony d) = Some tony" for d by (rule datum_text_strcpy) (simp add: tony_def)
  have "tmp_text = butlast tmp_text @ [0]" "length (butlast tmp_text) = 6" "0 \<notin> set (butlast tmp_text)"
    by (simp_all add: tmp_text_def)
  then have m: "datum_text (datum_msg tmp_text d) = Some (7 # butlast tmp_text)" for d
    using datum_text_msg [of "butlast tmp_text" d] by simp
  let ?z = "replicate 256 0 :: datum"
  let ?x = "datum_strcpy tony ?z"
  let ?y = "datum_msg tmp_text ?x"
  have z: "datum_text ?z = Some []" by (simp add: datum_text_def)
  have r: "ringbuf_enqueue (rb_os_ok 0) (ringbuf_init 9 (replicate 9 ?z)) ?x =
      (0, \<lparr>writepos = 1, rb_size = 9, num = 1, readpos = Some 0, arr = (replicate 9 ?z)[0 := ?x]\<rparr>)"
    "ringbuf_enqueue (rb_os_ok 0) \<lparr>writepos = 1, rb_size = 9, num = 1, readpos = Some 0, arr = (replicate 9 ?z)[0 := ?x]\<rparr> ?y =
      (0, \<lparr>writepos = 2, rb_size = 9, num = 2, readpos = Some 0, arr = (replicate 9 ?z)[0 := ?x, 1 := ?y]\<rparr>)"
    by (simp_all add: ringbuf_init_def rb_eval)
  have "take_each (Suc (Suc (Suc 0)))
      \<lparr>writepos = 2, rb_size = 9, num = 2, readpos = Some 0, arr = (replicate 9 ?z)[0 := ?x, 1 := ?y]\<rparr> =
    [(0, 1, Some tony), (0, 0, Some (7 # butlast tmp_text)), (- 1, 0, Some [])]"
    by (simp add: rb_eval t m z)
  then show ?thesis by (simp add: test_ringbuf_def r Let_def numeral_3_eq_3 del: take_each.simps One_nat_def)
qed

text \<open>Without an interface of that name the driver follows the null pointer of the list.\<close>

lemma utils_test_faults:
  assumes "if_inets ''eth9'' l = []" "if_packets ''eth9'' l = []"
  shows "test_utils (Some l) = Inl Null_Deref"
proof -
  have "if_collect ''eth9'' l buf raw If_Null = Inr If_Null" for buf raw
    using assms by (induction "''eth9''" l arbitrary: buf raw rule: if_inets.induct)
      (auto simp: if_prt_if_info_def split: if_splits)
  then show ?thesis by (simp add: test_utils_def utl_IfGetInfo_def if_get_if_info_def if_field_def)
qed

end
