(* ===== verification/Get_Mac.thy ===== *)
theory Get_Mac
  imports Ifinfo Cfg_Write
begin

text \<open>
  The program \<^verbatim>\<open>test/get_mac.c\<close>, from which the interface functions of \<^verbatim>\<open>utils.c\<close> were made: it lists every
  interface with its last addresses. The list is built, printed and freed once, so its global pointer is a
  list here, empty for null.
\<close>

section \<open>The program\<close>

record mac_node =
  mn_name :: string
  mn_ip :: string
  mn_hd :: string

definition mac_store :: "if_addr \<Rightarrow> string \<Rightarrow> mac_node \<Rightarrow> mac_node" where
  "mac_store a buf p =
     (case a of Inet t \<Rightarrow> p\<lparr>mn_ip := buf\<rparr> | Packet bs \<Rightarrow> p\<lparr>mn_hd := buf\<rparr> | Other_Family \<Rightarrow> p)"

fun mac_update :: "string \<Rightarrow> (mac_node \<Rightarrow> mac_node) \<Rightarrow> mac_node list \<Rightarrow> mac_node list" where
  "mac_update name f [] = []"
| "mac_update name f (p # ps) = (if mn_name p = name then f p # ps else p # mac_update name f ps)"

text \<open>The name goes to an array of ten characters.\<close>

definition add_to_link :: "string \<Rightarrow> if_addr \<Rightarrow> string \<Rightarrow> mac_node list \<Rightarrow> mac_node list cres" where
  "add_to_link name a buf ps =
     (if name \<in> mn_name ` set ps then Inr (mac_update name (mac_store a buf) ps)
      else cbind (sprintf_buf 10 name) (\<lambda>n. Inr (ps @ [mac_store a buf \<lparr>mn_name = n, mn_ip = [], mn_hd = []\<rparr>])))"

definition prt_if_info :: "if_addr \<Rightarrow> int \<times> string" where
  "prt_if_info a =
     (case a of
        Inet t \<Rightarrow> (0, t)
      | Packet bs \<Rightarrow> (0, concat (map (\<lambda>i. hex2 (bs ! i) @ (if i < 5 then '':'' else '' '')) [0..<6]))
      | Other_Family \<Rightarrow> (- 1, []))"

definition mac_entry :: "ifaddr \<Rightarrow> mac_node list \<Rightarrow> mac_node list cres" where
  "mac_entry e ps =
     (case e of (name, addr) \<Rightarrow>
        if name = ''lo'' then Inr ps
        else case addr of
          None \<Rightarrow> Inr ps
        | Some a \<Rightarrow> (case prt_if_info a of (ret, buf) \<Rightarrow> if ret = 0 then add_to_link name a buf ps else Inr ps))"

fun mac_collect :: "ifaddr list \<Rightarrow> mac_node list \<Rightarrow> mac_node list cres" where
  "mac_collect [] ps = Inr ps"
| "mac_collect (e # es) ps = cbind (mac_entry e ps) (mac_collect es)"

definition mac_line :: "mac_node \<Rightarrow> string" where
  "mac_line p = mn_name p @ '': '' @ (if mn_ip p \<noteq> [] then mn_ip p else ''No ip addr'') @ [TAB] @ mn_hd p @ [LF]"

text \<open>The exit code and the lines printed.\<close>

definition get_if_info :: "ifaddr list option \<Rightarrow> (int \<times> string list) cres" where
  "get_if_info ifas =
     (case ifas of
        None \<Rightarrow> Inr (1, [])
      | Some l \<Rightarrow> cbind (mac_collect l []) (\<lambda>ps. Inr (0, map mac_line ps)))"

section \<open>What it prints\<close>

text \<open>The addresses that count, the names in the order they appear in, and the last texts of a name.\<close>

definition listed :: "ifaddr list \<Rightarrow> (string \<times> if_addr) list" where
  "listed l = [(n, a). (n, Some a) \<leftarrow> l, n \<noteq> ''lo'' \<and> a \<noteq> Other_Family]"

definition in_order :: "'a list \<Rightarrow> 'a list" where
  "in_order xs = rev (remdups (rev xs))"

definition last_text :: "(if_addr \<Rightarrow> bool) \<Rightarrow> string \<Rightarrow> (string \<times> if_addr) list \<Rightarrow> string" where
  "last_text P n es = (case rev [snd (prt_if_info a). (m, a) \<leftarrow> es, m = n \<and> P a] of [] \<Rightarrow> [] | t # ts \<Rightarrow> t)"

definition is_inet :: "if_addr \<Rightarrow> bool" where
  "is_inet a \<longleftrightarrow> (case a of Inet t \<Rightarrow> True | _ \<Rightarrow> False)"

definition node_of :: "(string \<times> if_addr) list \<Rightarrow> string \<Rightarrow> mac_node" where
  "node_of es n = \<lparr>mn_name = n, mn_ip = last_text is_inet n es, mn_hd = last_text (\<lambda>a. \<not> is_inet a) n es\<rparr>"

lemma in_order_simps [simp]:
  "in_order [] = []" "in_order (xs @ [x]) = (if x \<in> set xs then in_order xs else in_order xs @ [x])"
  "set (in_order xs) = set xs" "distinct (in_order xs)"
  by (simp_all add: in_order_def)

lemma last_text_snoc:
  "last_text P n (es @ [(m, a)]) = (if m = n \<and> P a then snd (prt_if_info a) else last_text P n es)"
  by (simp add: last_text_def)

lemma last_text_other: "n \<notin> fst ` set es \<Longrightarrow> last_text P n es = []"
proof (induction es rule: rev_induct)
  case (snoc e es)
  then show ?case by (cases e) (auto simp: last_text_snoc)
qed (simp add: last_text_def)

lemma node_of_snoc:
  assumes "a \<noteq> Other_Family"
  shows "node_of (es @ [(m, a)]) n = (if m = n then mac_store a (snd (prt_if_info a)) (node_of es n) else node_of es n)"
  using assms by (cases a) (simp_all add: node_of_def last_text_snoc mac_store_def is_inet_def)

lemma mac_update_map:
  "distinct ns \<Longrightarrow> (\<And>n. mn_name (g n) = n) \<Longrightarrow>
     mac_update m f (map g ns) = map (\<lambda>n. if n = m then f (g n) else g n) ns"
  by (induction ns) (auto intro: map_cong)

lemma mac_collect_snoc: "mac_collect (l @ [e]) ps = cbind (mac_collect l ps) (mac_entry e)"
proof (induction l arbitrary: ps)
  case Nil
  show ?case by (cases "mac_entry e ps") simp_all
next
  case (Cons x l)
  then show ?case by (cases "mac_entry x ps") simp_all
qed

lemma mac_collect_nodes:
  assumes "\<And>n. n \<in> fst ` set (listed l) \<Longrightarrow> length n < 10"
  shows "mac_collect l [] = Inr (map (node_of (listed l)) (in_order (map fst (listed l))))"
  using assms
proof (induction l rule: rev_induct)
  case (snoc e l)
  obtain n addr where e: "e = (n, addr)" by (cases e)
  let ?es = "listed l"
  have l: "listed (l @ [e]) = ?es @ (case addr of None \<Rightarrow> [] | Some a \<Rightarrow> if n \<noteq> ''lo'' \<and> a \<noteq> Other_Family then [(n, a)] else [])"
    by (auto simp: listed_def e split: option.split)
  have ih: "mac_collect l [] = Inr (map (node_of ?es) (in_order (map fst ?es)))"
    using snoc.prems by (intro snoc.IH) (auto simp: l)
  show ?case
  proof (cases "\<exists>a. addr = Some a \<and> n \<noteq> ''lo'' \<and> a \<noteq> Other_Family")
    case False
    then have "mac_entry e ps = Inr ps" for ps
      by (auto simp: mac_entry_def e prt_if_info_def split: option.split if_addr.split)
    moreover have "listed (l @ [e]) = ?es" using False by (auto simp: l split: option.split)
    ultimately show ?thesis by (simp add: mac_collect_snoc ih)
  next
    case True
    then obtain a where a: "addr = Some a" "n \<noteq> ''lo''" "a \<noteq> Other_Family" by blast
    let ?t = "snd (prt_if_info a)" and ?ps = "map (node_of ?es) (in_order (map fst ?es))"
    have es: "listed (l @ [e]) = ?es @ [(n, a)]" using a by (simp add: l)
    have m: "mac_entry e ps = add_to_link n a ?t ps" for ps
      using a by (cases a) (simp_all add: mac_entry_def e prt_if_info_def)
    have "length n < 10" using snoc.prems es by simp
    moreover have "mn_name (node_of es k) = k" for es k by (simp add: node_of_def)
    ultimately show ?thesis
      using last_text_other [of n ?es]
      by (auto simp: mac_collect_snoc ih m es add_to_link_def mac_update_map node_of_snoc [OF a(3)] sprintf_buf_def
          image_image node_of_def [of ?es n])
  qed
qed (simp add: listed_def)

text \<open>
  The program prints one line for each interface but \<^verbatim>\<open>lo\<close> that has an address, in the order they first appear
  in, with the last IPv4 address and the last hardware address of each.
\<close>

lemma get_mac_prints:
  assumes "\<And>n. n \<in> fst ` set (listed l) \<Longrightarrow> length n < 10"
  shows "get_if_info (Some l) = Inr (0, map (\<lambda>n. mac_line (node_of (listed l) n)) (in_order (map fst (listed l))))"
  using mac_collect_nodes [OF assms] by (simp add: get_if_info_def comp_def)

text \<open>A name may have fifteen characters, and ten are too many.\<close>

lemma get_mac_long_name: "get_if_info (Some [(''enp0s31f6u'', Some (Inet ''10.0.0.2''))]) = Inl Out_Of_Bounds"
  by (simp add: get_if_info_def mac_entry_def prt_if_info_def add_to_link_def sprintf_buf_def)

end
