(* ===== verification/Spec2Isabelle.thy ===== *)
theory Spec2Isabelle
  imports Ringbuf_Example Msg Msg_Queue Cfg_Safety Timer_Run Net_Props Net_Life Utils_Props
    Json_Lists Json_Minify Json_Api Json_Msg Json_Chain Json_Mem_Api Json_Mem_Buffer
    Reboot Os_Props Http Auth Redis_Props Md5_Endian Vos_Init Vos_Tests Get_Mac
begin

text \<open>
  A verification library for \<^verbatim>\<open>cvos\<close>, a C library of helpers for embedded Linux programs:
  configuration files, ring buffers, message frames and queues, digests and checksums, timers,
  sockets, JSON, logs, wrappers of system calls, utilities and a Redis client. All but the last is one
  translation unit: \<^verbatim>\<open>vos.c\<close> includes \<^verbatim>\<open>logfile.c\<close>, \<^verbatim>\<open>utils.c\<close>, \<^verbatim>\<open>libjson.c\<close>, \<^verbatim>\<open>netsock.c\<close>, \<^verbatim>\<open>reboot.c\<close>, \<^verbatim>\<open>http.c\<close>, \<^verbatim>\<open>msg.c\<close>, \<^verbatim>\<open>timer.c\<close>, \<^verbatim>\<open>cfgfile.c\<close>
  and \<^verbatim>\<open>ringbuf.c\<close>. The parts share no state; they meet where one calls another: the pid files and
  the typed readers use the configuration files, the tokens use MD5, the frames of \<^verbatim>\<open>msg.c\<close> use the
  CRC, two functions of \<^verbatim>\<open>utils.c\<close> make and read JSON, the firmware update kills a process, and everything
  writes log lines.

  \<^bold>\<open>How the code is modelled.\<close> Every operation is an executable function from its arguments and the
  state to its result and the new state. An access outside a buffer, a null pointer, a use of freed
  memory and a loop that never ends are values, \<open>Inl\<close> of a \<^typ>\<open>c_fault\<close>; an error code is an ordinary
  result. Unsigned and fixed-width integers are words where they wrap, integers elsewhere. C strings
  are lists without their terminator; a buffer is the list of its bytes. What the operating system
  answers (result codes, identifiers, arrivals, the clock) is an argument. \<^verbatim>\<open>malloc\<close> succeeds, but in
  \<open>Json_Mem\<close> and the theories over it; printing and logging have no effect on the results.

  \<^bold>\<open>Theories.\<close>
  \<^item> \<open>Cvos_Prelude\<close>: faults, buffers, word types and shared lemmas.
  \<^item> \<open>Fifo_Spec\<close>, \<open>Ringbuf\<close>, \<open>Ringbuf_Conc\<close> (\<^verbatim>\<open>ringbuf.c\<close>): the contract of a bounded queue that drops its
    oldest entry as a locale, the buffer with its positions and counter, its refinement of the queue,
    and the blocking operations of any number of threads as a step relation with its invariants.
    \<open>Ringbuf_Example\<close> (\<^verbatim>\<open>ringbuf_example.c\<close>): a producer and a consumer, how their runs end, and what the tests of a single thread print.
  \<^item> \<open>Crc16\<close> (\<^verbatim>\<open>msg.c\<close>, \<^verbatim>\<open>vos.c\<close>, \<^verbatim>\<open>utils.c\<close>): the three CRC routines, their agreement with polynomial
    reference versions, the residue and the detection of bursts.
  \<^item> \<open>Frame_Codec\<close>, \<open>Msg\<close>, \<open>Msg_Queue\<close> (\<^verbatim>\<open>msg.c\<close>): the contract of a self-delimiting format, the text and
    the binary frames, and the System V queues over a kernel state.
  \<^item> \<open>Md5\<close> (\<^verbatim>\<open>vos.c\<close>): the incremental digest, its contract as a locale and its agreement with one pass over
    the padded message. The length counter has 64 bits. \<open>Md5_Endian\<close>: the same digest on machines of both
    byte orders.
  \<^item> \<open>Cfg_Text\<close>, \<open>Cfg_Table\<close>, \<open>Cfg_Write\<close>, \<open>Cfg_Delete\<close>, \<open>Cfg_Output\<close>, \<open>Cfg_File\<close>, \<open>Cfg_Api\<close>, \<open>Cfg_Store\<close>,
    \<open>Cfg_Safety\<close> (\<^verbatim>\<open>cfgfile.c\<close>): the lines, the table of entries, writing and deleting, the writers, the
    files, the calls with a file name; the table and the files as interpretations of a key-value
    store; memory safety, termination and integers. The first table has 103 entries of 40 bytes.
  \<^item> \<open>Timer\<close>, \<open>Timer_Run\<close> (\<^verbatim>\<open>timer.c\<close>, \<^verbatim>\<open>vos.c\<close>): the table of 100 timers over POSIX timers, the time stamps,
    and the invariant over sequences of calls.
  \<^item> \<open>Net\<close>, \<open>Net_Props\<close>, \<open>Net_Life\<close> (\<^verbatim>\<open>netsock.c\<close>): descriptors, options and the transfer loops; the calls
    as steps over the table, and that their results tell which sockets are open and how far each has come.
  \<^item> \<open>Ifinfo\<close> (\<^verbatim>\<open>utils.c\<close>): the list of interface addresses behind a static pointer.
  \<^item> \<open>Utils\<close>, \<open>Utils_Props\<close> (\<^verbatim>\<open>utils.c\<close>): pipes, killing, time windows, FTP addresses, tokens, directories,
    pid files.
  \<^item> \<open>Json_String\<close>, \<open>Json_Double\<close>, \<open>Json_Parse\<close>, \<open>Json_Print\<close>, \<open>Json_Buffer\<close>, \<open>Json_Minify\<close> (\<^verbatim>\<open>libjson.c\<close>): the
    escapes and their UTF-8, doubles, the parser, the two printers with the sizes they allocate, and the
    minifier; \<open>Json_String_Props\<close>, \<open>Json_Unicode\<close>, \<open>Json_Parse_Props\<close>, \<open>Json_Print_Props\<close>, \<open>Json_Wf\<close>,
    \<open>Json_Buffer_Props\<close>, \<open>Json_Roundtrip\<close> show that the recursion of the parser ends, that it reads behind the
    text only after a final backslash, gives well formed trees that print, and reads back what was printed, and that the two printers agree.
  \<^item> \<open>Json_Heap\<close>, \<open>Json_Heap_Props\<close>, \<open>Json_Lists\<close> (\<^verbatim>\<open>libjson.c\<close>): the items as cells of a heap, their doubly
    linked chains as refinements of lists, and the cells and strings that deleting frees; \<open>Json_Chain\<close> states taking out and putting
    in by position as a contract, with moving elements around as its client.
  \<^item> \<open>Json_Api\<close>, \<open>Json_Msg\<close> (\<^verbatim>\<open>libjson.c\<close>, \<^verbatim>\<open>utils.c\<close>): constructors, copies, and the messages of pairs.
  \<^item> \<open>Json_Mem\<close>, \<open>Json_Mem_Parse\<close>, \<open>Json_Mem_Print\<close>, \<open>Json_Mem_Buffer\<close>, \<open>Json_Mem_Api\<close>
    (\<^verbatim>\<open>libjson.c\<close>, \<^verbatim>\<open>utils.c\<close>): the same code with an allocator that may refuse any request, a list of
    answers and a count of the blocks out. Parsing, copying and printing items that are not malformed (and have no constant names, for copies) never
    leak and never give half a result, and with enough memory the results are those of the other theories. What
    makes an item of an argument is a contract, with the loop that gathers items under an array as its client.
  \<^item> \<open>Time_Text\<close>, \<open>Logfile\<close>, \<open>Reboot\<close> (\<^verbatim>\<open>logfile.c\<close>, \<^verbatim>\<open>reboot.c\<close>): times as text, the log files over a directory
    of names and contents, what their rotation keeps and how large they grow, the reset log.
  \<^item> \<open>Os_Sys\<close>, \<open>Os_Files\<close>, \<open>Os_Props\<close> (\<^verbatim>\<open>vos.c\<close>): memory, semaphores, threads, commands, addresses, storage,
    copies of files and the firmware update.
  \<^item> \<open>Http\<close> (\<^verbatim>\<open>http.c\<close>): the calls of ghttp in their order and the buffers around them.
  \<^item> \<open>Auth\<close> (\<^verbatim>\<open>auth.c\<close>): the licence checks and the tasks that repeat them.
  \<^item> \<open>Redis\<close>, \<open>Redis_Props\<close> (\<^verbatim>\<open>RedisClt.c\<close>): the connection with its count of users and the calls over the hashes
    of the server; which contexts stay open, and the refinement of a table of numbers.
  \<^item> \<open>Vos_Init\<close> (\<^verbatim>\<open>vos.c\<close>, \<^verbatim>\<open>msg.c\<close>, \<^verbatim>\<open>timer.c\<close>): setting up and taking down the library, with the stages of its
    locks, and functions that stand by themselves.
  \<^item> \<open>Vos_Tests\<close>, \<open>Get_Mac\<close> (\<^verbatim>\<open>test/vos_test.c\<close>, \<^verbatim>\<open>test/get_mac.c\<close>): the test programs and what they print.

  \<^bold>\<open>Recursion.\<close> Loops over data recurse on it, or on the length of what is left. The polling loop of
  \<^verbatim>\<open>utl_KillForced\<close> has its 100 rounds. Loops that the kernel can keep waiting take the list of its
  answers and are \<open>None\<close> while it has not decided. The JSON parser counts down from twice the length of
  the text and one: each level of nesting takes a character, and \<open>json_parse_returns\<close> shows that this is
  always enough and that more changes nothing. The walks along the chains of JSON items take a number of steps; a chain that is longer
  is the fault \<open>Diverges\<close>, and the lemmas ask for at least the length of the list.

  \<^bold>\<open>Numbers.\<close> A \<^verbatim>\<open>double\<close> is a rational, an infinity or not a number; every operation rounds to 53 bits,
  half to even, with the least exponent of IEEE 754. Two things are the platform's: \<^verbatim>\<open>pow (10, n)\<close> is taken
  to be correctly rounded, and the conversion of a double outside \<^verbatim>\<open>int\<close> gives the least \<^verbatim>\<open>int\<close>, as on
  x86-64. The round trips are stated for integers and strings, which depend on neither.

  \<^bold>\<open>Third-party code.\<close> What ghttp answers is a record that the definitions take, and
  \<open>gh_documented\<close> names what its documentation says; \<open>sample_ghttp\<close> satisfies it. The Redis server behind
  hiredis is a function from commands and its state to replies; \<open>redis_documented\<close> names the effect of the
  five commands on the hashes, and \<open>sample_server\<close> satisfies it.

  \<^bold>\<open>Not modelled.\<close> Allocations that fail outside the
  theories named above; the waiting for the lock of the Redis client; the copy of the
  configuration code at the end of \<^verbatim>\<open>utils.c\<close>, inside \<^verbatim>\<open>#if 0\<close>. Stack depth
  and the time a call takes are not modelled.
\<close>

end
